(* ===== verification/Prelude.thy ===== *)
theory Prelude
  imports Main "HOL-Library.Word" "HOL-Library.Char_ord" "HOL-Library.List_Lexorder"
    "HOL-Library.Product_Lexorder"
begin

text \<open>
  Shared vocabulary of the development.

  \<^item> machine integers: \<open>u64\<close> and \<open>i64\<close> are 64-bit words, with the saturating
    operations of the Rust standard library;
  \<^item> \<open>Result<A, E>\<close> is the sum type \<open>'e + 'a\<close>, errors on the left, with its
    \<open>?\<close> operator as \<open>res_bind\<close>;
  \<^item> \<open>BTreeMap<K, V>\<close> is an association list sorted by key (\<open>bt_ok\<close>); its iteration
    order is the list order;
  \<^item> \<open>HashMap<K, V>\<close> is a map \<open>'k \<rightharpoonup> 'v\<close> and \<open>HashSet<K>\<close> a set; code that
    iterates over one takes the iteration order as an argument \<open>it :: 'a iter\<close>, and the
    theorems hold for every order that visits each member exactly once (\<open>iter_ok\<close>).
\<close>

named_theorems bt_simps \<open>equations for sorted association lists\<close>
named_theorems res_simps \<open>equations for results\<close>

subsection \<open>Machine integers\<close>

type_synonym u64 = "64 word"
type_synonym bytes = "8 word list"

definition sat_add :: "u64 \<Rightarrow> u64 \<Rightarrow> u64" where
  "sat_add a b = (if unat a + unat b < 2 ^ 64 then a + b else - 1)"

definition sat_sub :: "u64 \<Rightarrow> u64 \<Rightarrow> u64" where
  "sat_sub a b = (if a < b then 0 else a - b)"

subsection \<open>Results\<close>

fun res_bind :: "'e + 'a \<Rightarrow> ('a \<Rightarrow> 'e + 'b) \<Rightarrow> 'e + 'b" where
  "res_bind (Inl e) f = Inl e"
| "res_bind (Inr x) f = f x"

text \<open>A loop whose body may return early with \<open>?\<close>, threading a state.\<close>

fun res_foldl :: "('s \<Rightarrow> 'a \<Rightarrow> 'e + 's) \<Rightarrow> 's \<Rightarrow> 'a list \<Rightarrow> 'e + 's" where
  "res_foldl f s [] = Inr s"
| "res_foldl f s (x # xs) = res_bind (f s x) (\<lambda>s'. res_foldl f s' xs)"

subsection \<open>Ordered maps (BTreeMap)\<close>

type_synonym ('k, 'v) btree = "('k \<times> 'v) list"

definition bt_ok :: "('k::linorder, 'v) btree \<Rightarrow> bool" where
  "bt_ok m \<longleftrightarrow> sorted_wrt (<) (map fst m)"

abbreviation bt_get :: "('k, 'v) btree \<Rightarrow> 'k \<Rightarrow> 'v option" where
  "bt_get \<equiv> map_of"

fun bt_insert :: "'k::linorder \<Rightarrow> 'v \<Rightarrow> ('k, 'v) btree \<Rightarrow> ('k, 'v) btree" where
  "bt_insert k v [] = [(k, v)]"
| "bt_insert k v (e # m) =
     (if k < fst e then (k, v) # e # m
      else if fst e = k then (k, v) # m
      else e # bt_insert k v m)"

definition bt_remove :: "'k \<Rightarrow> ('k, 'v) btree \<Rightarrow> ('k, 'v) btree" where
  "bt_remove k m = filter (\<lambda>e. fst e \<noteq> k) m"

text \<open>\<open>entry(k).or_insert(v)\<close>: the value already there wins.\<close>

definition bt_or_insert :: "'k::linorder \<Rightarrow> 'v \<Rightarrow> ('k, 'v) btree \<Rightarrow> ('k, 'v) btree" where
  "bt_or_insert k v m = (case bt_get m k of None \<Rightarrow> bt_insert k v m | Some _ \<Rightarrow> m)"

text \<open>\<open>range((Included lo, Included hi))\<close>, \<open>range((Excluded lo, Unbounded))\<close> and
  \<open>range((Unbounded, Included hi))\<close>.\<close>

definition bt_between :: "'k::linorder \<Rightarrow> 'k \<Rightarrow> ('k, 'v) btree \<Rightarrow> ('k, 'v) btree" where
  "bt_between lo hi m = filter (\<lambda>e. lo \<le> fst e \<and> fst e \<le> hi) m"

definition bt_above :: "'k::linorder \<Rightarrow> ('k, 'v) btree \<Rightarrow> ('k, 'v) btree" where
  "bt_above lo m = filter (\<lambda>e. lo < fst e) m"

definition bt_upto :: "'k::linorder \<Rightarrow> ('k, 'v) btree \<Rightarrow> ('k, 'v) btree" where
  "bt_upto hi m = filter (\<lambda>e. fst e \<le> hi) m"

text \<open>\<open>next_back()\<close> and \<open>next()\<close> of an iterator.\<close>

definition next_back :: "'a list \<Rightarrow> 'a option" where
  "next_back xs = (if xs = [] then None else Some (last xs))"

definition next_front :: "'a list \<Rightarrow> 'a option" where
  "next_front xs = (case xs of [] \<Rightarrow> None | x # _ \<Rightarrow> Some x)"

subsection \<open>Iteration over hashed collections\<close>

type_synonym 'a iter = "'a set \<Rightarrow> 'a list"

definition iter_ok :: "'a iter \<Rightarrow> bool" where
  "iter_ok it \<longleftrightarrow> (\<forall>S. finite S \<longrightarrow> set (it S) = S \<and> distinct (it S))"

text \<open>The contract a client of an iteration order relies on.\<close>

locale hash_iteration =
  fixes it :: "'a iter"
  assumes it_set: "finite S \<Longrightarrow> set (it S) = S"
    and it_distinct: "finite S \<Longrightarrow> distinct (it S)"
begin

lemma it_empty [simp]: "it {} = []"
  using it_set [of "{}"] by simp

lemma it_mem: "finite S \<Longrightarrow> x \<in> set (it S) \<longleftrightarrow> x \<in> S"
  by (simp add: it_set)

lemma it_single: "it {a} = [a]"
proof -
  have s: "set (it {a}) = {a}" and d: "distinct (it {a})"
    by (simp_all add: it_set it_distinct)
  from d s have "length (it {a}) = 1"
    by (metis card.empty card_insert_disjoint distinct_card finite.emptyI insert_absorb
        insert_not_empty One_nat_def)
  with s show ?thesis
    by (cases "it {a}") auto
qed

end

subsection \<open>Lemmas on ordered maps\<close>

lemma bt_ok_Nil [simp]: "bt_ok []"
  by (simp add: bt_ok_def)

lemma bt_ok_Cons: "bt_ok (e # m) \<longleftrightarrow> bt_ok m \<and> (\<forall>k \<in> fst ` set m. fst e < k)"
  by (auto simp: bt_ok_def)

lemma bt_ok_distinct: "bt_ok m \<Longrightarrow> distinct (map fst m)"
  by (simp add: bt_ok_def strict_sorted_iff)

lemma bt_ok_sorted: "bt_ok m \<Longrightarrow> sorted (map fst m)"
  by (simp add: bt_ok_def strict_sorted_iff)

lemma bt_ok_filter [simp]: "bt_ok m \<Longrightarrow> bt_ok (filter P m)"
  by (induction m) (auto simp: bt_ok_Cons)

lemma bt_get_insert [bt_simps]: "bt_get (bt_insert k v m) = (bt_get m)(k \<mapsto> v)"
  by (induction m) (auto simp: fun_eq_iff)

lemma bt_insert_keys [simp]: "fst ` set (bt_insert k v m) = insert k (fst ` set m)"
  by (induction m) auto

lemma bt_ok_insert [simp]: "bt_ok m \<Longrightarrow> bt_ok (bt_insert k v m)"
proof (induction m)
  case (Cons e m)
  then have *: "bt_ok m" and **: "\<forall>j \<in> fst ` set m. fst e < j"
    by (simp_all add: bt_ok_Cons)
  show ?case
  proof (cases "k \<le> fst e")
    case True
    with Cons.prems ** show ?thesis by (fastforce simp: bt_ok_Cons)
  next
    case False
    with Cons.IH * ** show ?thesis by (auto simp: bt_ok_Cons)
  qed
qed (simp add: bt_ok_Cons)

lemma bt_get_remove [bt_simps]: "bt_get (bt_remove k m) = (bt_get m)(k := None)"
  by (induction m) (auto simp: bt_remove_def fun_eq_iff)

lemma bt_ok_remove [simp]: "bt_ok m \<Longrightarrow> bt_ok (bt_remove k m)"
  by (simp add: bt_remove_def)

lemma bt_get_or_insert [bt_simps]:
  "bt_get (bt_or_insert k v m) = (case bt_get m k of None \<Rightarrow> (bt_get m)(k \<mapsto> v) | Some _ \<Rightarrow> bt_get m)"
  by (simp add: bt_or_insert_def bt_get_insert split: option.split)

lemma bt_ok_or_insert [simp]: "bt_ok m \<Longrightarrow> bt_ok (bt_or_insert k v m)"
  by (simp add: bt_or_insert_def split: option.split)

lemma bt_get_mem: "bt_ok m \<Longrightarrow> bt_get m k = Some v \<longleftrightarrow> (k, v) \<in> set m"
  using bt_ok_distinct map_of_eq_Some_iff by fastforce

lemma bt_ok_eqI:
  "bt_ok m \<Longrightarrow> bt_ok m' \<Longrightarrow> bt_get m = bt_get m' \<Longrightarrow> m = m'"
proof (induction m arbitrary: m')
  case Nil
  then show ?case by (cases m') (auto simp: fun_eq_iff split: if_splits)
next
  case (Cons e m)
  obtain k v where e: "e = (k, v)" by (cases e)
  have "bt_get m' k = Some v"
    using Cons.prems(3) by (auto simp: e fun_eq_iff dest: spec [of _ k])
  then obtain e' t' where m': "m' = e' # t'" by (cases m') auto
  obtain k' v' where e': "e' = (k', v')" by (cases e')
  have lt: "\<forall>j \<in> fst ` set m. k < j" and lt': "\<forall>j \<in> fst ` set t'. k' < j"
    using Cons.prems by (simp_all add: bt_ok_Cons e e' m')
  have "k = k'"
  proof (rule ccontr)
    assume ne: "k \<noteq> k'"
    have "bt_get t' k = Some v"
      using \<open>bt_get m' k = Some v\<close> ne by (simp add: m' e')
    then have "k' < k" using lt' by (force dest: map_of_SomeD)
    have "bt_get (e # m) k' = Some v'"
      using fun_cong [OF Cons.prems(3), of k'] by (simp add: m' e')
    then have "bt_get m k' = Some v'" using ne by (simp add: e)
    then have "k < k'" using lt by (force dest: map_of_SomeD)
    with \<open>k' < k\<close> show False by simp
  qed
  moreover have "v = v'"
    using \<open>bt_get m' k = Some v\<close> \<open>k = k'\<close> by (simp add: m' e')
  moreover have "bt_get m = bt_get t'"
  proof
    fix j
    have n: "bt_get m k = None" "bt_get t' k = None"
      using lt lt' \<open>k = k'\<close> by (force simp: map_of_eq_None_iff)+
    show "bt_get m j = bt_get t' j"
      using fun_cong [OF Cons.prems(3), of j] n \<open>k = k'\<close>
      by (cases "j = k") (simp_all add: m' e e')
  qed
  ultimately show ?case
    using Cons.IH [of t'] Cons.prems by (simp add: m' e e' bt_ok_Cons)
qed

lemma bt_between_ok [simp]: "bt_ok m \<Longrightarrow> bt_ok (bt_between lo hi m)"
  and bt_above_ok [simp]: "bt_ok m \<Longrightarrow> bt_ok (bt_above lo m)"
  and bt_upto_ok [simp]: "bt_ok m \<Longrightarrow> bt_ok (bt_upto hi m)"
  by (simp_all add: bt_between_def bt_above_def bt_upto_def)

text \<open>The last entry of a sorted map has the greatest key.\<close>

lemma bt_last_max: "bt_ok m \<Longrightarrow> (k, v) \<in> set m \<Longrightarrow> k \<le> fst (last m)"
proof (induction m)
  case (Cons e m)
  then show ?case
    by (cases "m = []") (auto simp: bt_ok_Cons intro: order.strict_implies_order)
qed simp

lemma bt_first_min: "bt_ok m \<Longrightarrow> (k, v) \<in> set m \<Longrightarrow> fst (hd m) \<le> k"
  by (cases m) (auto simp: bt_ok_Cons intro: order.strict_implies_order)

lemma next_back_Some: "next_back xs = Some x \<Longrightarrow> x \<in> set xs"
  by (auto simp: next_back_def split: if_splits)

lemma next_back_None [simp]: "next_back xs = None \<longleftrightarrow> xs = []"
  by (simp add: next_back_def)

lemma next_front_None [simp]: "next_front xs = None \<longleftrightarrow> xs = []"
  by (simp add: next_front_def split: list.split)

lemma next_front_Some: "next_front xs = Some x \<Longrightarrow> x \<in> set xs"
  by (auto simp: next_front_def split: list.splits)

subsection \<open>Lemmas on results and loops\<close>

lemma res_bind_Inr [res_simps]: "res_bind r f = Inr y \<longleftrightarrow> (\<exists>x. r = Inr x \<and> f x = Inr y)"
  by (cases r) auto

lemma res_foldl_append:
  "res_foldl f s (xs @ ys) = res_bind (res_foldl f s xs) (\<lambda>s'. res_foldl f s' ys)"
proof (induction xs arbitrary: s)
  case (Cons x xs)
  then show ?case by (cases "f s x") auto
qed simp

lemma res_foldl_invariant:
  assumes "res_foldl f s xs = Inr s'" and "P s"
    and "\<And>s x t. x \<in> set xs \<Longrightarrow> P s \<Longrightarrow> f s x = Inr t \<Longrightarrow> P t"
  shows "P s'"
  using assms
proof (induction xs arbitrary: s)
  case (Cons x xs)
  then obtain t where "f s x = Inr t" and "res_foldl f t xs = Inr s'"
    by (auto simp: res_bind_Inr)
  with Cons show ?case by (metis list.set_intros)
qed simp

lemma fold_invariant:
  assumes "P s" and "\<And>x s. x \<in> set xs \<Longrightarrow> P s \<Longrightarrow> P (f x s)"
  shows "P (fold f xs s)"
  using assms by (induction xs arbitrary: s) auto

subsection \<open>Iteration orders\<close>

lemma iter_ok_iff: "iter_ok it \<longleftrightarrow> hash_iteration it"
  by (auto simp: iter_ok_def hash_iteration_def)

text \<open>The order of the keys is an iteration order; witnesses run the model with it.\<close>

interpretation sorted_iter: hash_iteration "sorted_list_of_set :: 'a::linorder iter"
  by unfold_locales auto

lemma iter_ok_sorted [simp]: "iter_ok (sorted_list_of_set :: 'a::linorder iter)"
  by (simp add: iter_ok_def)

lemma bt_length: "bt_ok m \<Longrightarrow> length m = card (dom (bt_get m))"
  by (metis bt_ok_distinct distinct_card dom_map_of_conv_image_fst length_map list.set_map)

lemma bt_keys_upto:
  assumes "bt_ok m" "dom (bt_get m) = {..<n}"
  shows "map fst m = [0..<n]"
  using assms bt_ok_sorted [OF assms(1)] bt_ok_distinct [OF assms(1)]
  by (metis atLeast0LessThan dom_map_of_conv_image_fst list.set_map set_upt sorted_upt
      distinct_upt sorted_distinct_set_unique)

text \<open>A loop whose body may not return; \<open>None\<close> ends it.\<close>

fun opt_foldl :: "('s \<Rightarrow> 'a \<Rightarrow> 's option) \<Rightarrow> 's \<Rightarrow> 'a list \<Rightarrow> 's option" where
  "opt_foldl f s [] = Some s"
| "opt_foldl f s (x # xs) = (case f s x of None \<Rightarrow> None | Some t \<Rightarrow> opt_foldl f t xs)"

lemma opt_foldl_invariant:
  assumes "opt_foldl f s xs = Some s'" and "P s"
    and "\<And>s x t. x \<in> set xs \<Longrightarrow> P s \<Longrightarrow> f s x = Some t \<Longrightarrow> P t"
  shows "P s'"
  using assms
proof (induction xs arbitrary: s)
  case (Cons x xs)
  then obtain t where "f s x = Some t" and "opt_foldl f t xs = Some s'"
    by (auto split: option.splits)
  with Cons show ?case by (metis list.set_intros)
qed simp

lemma opt_foldl_defined:
  assumes "P s" and "\<And>s x. x \<in> set xs \<Longrightarrow> P s \<Longrightarrow> \<exists>t. f s x = Some t \<and> P t"
  shows "\<exists>s'. opt_foldl f s xs = Some s' \<and> P s'"
  using assms
proof (induction xs arbitrary: s)
  case (Cons x xs)
  then obtain t where "f s x = Some t" "P t" by fastforce
  moreover have "\<exists>s'. opt_foldl f t xs = Some s' \<and> P s'"
    using Cons.IH [OF \<open>P t\<close>] Cons.prems(2) by simp
  ultimately show ?case by simp
qed simp

lemma nth_update_if: "xs[i := v] ! j = (if i = j \<and> i < length xs then v else xs ! j)"
  by (cases "i < length xs") (auto simp: nth_list_update list_update_beyond)

subsection \<open>Actions: results with a state\<close>

text \<open>
  A fallible operation on shared state. An error keeps the state reached when it was raised:
  whether that state is kept or rolled back is up to the caller.
\<close>

type_synonym ('s, 'e, 'a) action = "'s \<Rightarrow> ('e + 'a) \<times> 's"

definition act_return :: "'a \<Rightarrow> ('s, 'e, 'a) action" where
  "act_return x s = (Inr x, s)"

definition act_fail :: "'e \<Rightarrow> ('s, 'e, 'a) action" where
  "act_fail e s = (Inl e, s)"

definition act_bind :: "('s, 'e, 'a) action \<Rightarrow> ('a \<Rightarrow> ('s, 'e, 'b) action) \<Rightarrow> ('s, 'e, 'b) action" where
  "act_bind m f s = (case m s of (Inl e, t) \<Rightarrow> (Inl e, t) | (Inr x, t) \<Rightarrow> f x t)"

text \<open>An operation that only reads the state.\<close>

definition act_read :: "('s \<Rightarrow> 'e + 'a) \<Rightarrow> ('s, 'e, 'a) action" where
  "act_read f s = (f s, s)"

text \<open>The conversion of errors that \<open>?\<close> inserts.\<close>

definition act_map_err :: "('e \<Rightarrow> 'g) \<Rightarrow> ('s, 'e, 'a) action \<Rightarrow> ('s, 'g, 'a) action" where
  "act_map_err g m s = (case m s of (Inl e, t) \<Rightarrow> (Inl (g e), t) | (Inr x, t) \<Rightarrow> (Inr x, t))"

fun act_foldl :: "('a \<Rightarrow> 'b \<Rightarrow> ('s, 'e, 'a) action) \<Rightarrow> 'a \<Rightarrow> 'b list \<Rightarrow> ('s, 'e, 'a) action" where
  "act_foldl f a [] = act_return a"
| "act_foldl f a (x # xs) = act_bind (f a x) (\<lambda>b. act_foldl f b xs)"

lemma act_return_run [simp]: "act_return x s = (Inr x, s)"
  by (simp add: act_return_def)

lemma act_fail_run [simp]: "act_fail e s = (Inl e, s)"
  by (simp add: act_fail_def)

lemma act_read_run [simp]: "act_read f s = (f s, s)"
  by (simp add: act_read_def)

lemma act_bind_Inr [simp]: "m s = (Inr x, t) \<Longrightarrow> act_bind m f s = f x t"
  by (simp add: act_bind_def)

lemma act_bind_Inl [simp]: "m s = (Inl e, t) \<Longrightarrow> act_bind m f s = (Inl e, t)"
  by (simp add: act_bind_def)

lemma act_bind_return [simp]: "act_bind (act_return x) f = f x"
  by (simp add: act_bind_def fun_eq_iff)

lemma act_bind_InrE [elim!]:
  assumes "act_bind m f s = (Inr y, u)"
  obtains x t where "m s = (Inr x, t)" "f x t = (Inr y, u)"
  using assms by (auto simp: act_bind_def split: prod.splits sum.splits)

lemma act_bind_InlE:
  assumes "act_bind m f s = (Inl e, u)"
  obtains (first) "m s = (Inl e, u)" | (second) x t where "m s = (Inr x, t)" "f x t = (Inl e, u)"
  using assms by (auto simp: act_bind_def split: prod.splits sum.splits)

lemma act_map_err_Inr [simp]: "act_map_err g m s = (Inr x, t) \<longleftrightarrow> m s = (Inr x, t)"
  by (auto simp: act_map_err_def split: prod.splits sum.splits)

lemma act_foldl_invariant:
  assumes "act_foldl f a xs s = (Inr b, t)" "P a"
    and step: "\<And>a x s b t. x \<in> set xs \<Longrightarrow> P a \<Longrightarrow> f a x s = (Inr b, t) \<Longrightarrow> P b"
  shows "P b"
  using assms
proof (induction xs arbitrary: a s)
  case (Cons x xs)
  from Cons.prems(1) obtain c u where c: "f a x s = (Inr c, u)" "act_foldl f c xs u = (Inr b, t)"
    by auto
  have "P c" using Cons.prems(3) [OF _ Cons.prems(2) c(1)] by simp
  moreover have "P d" if "y \<in> set xs" "P a'" "f a' y s' = (Inr d, t')" for a' y s' d t'
    using Cons.prems(3) [OF _ that(2,3)] that(1) by simp
  ultimately show ?case using Cons.IH [OF c(2)] by blast
qed simp

lemma act_foldl_append:
  "act_foldl f a (xs @ ys) = act_bind (act_foldl f a xs) (\<lambda>b. act_foldl f b ys)"
  by (induction xs arbitrary: a) (auto simp: act_bind_def fun_eq_iff split: prod.split sum.split)

text \<open>A property of the state that an action keeps, also when it fails.\<close>

definition act_keeps :: "('s \<Rightarrow> bool) \<Rightarrow> ('s, 'e, 'a) action \<Rightarrow> bool" where
  "act_keeps P m \<longleftrightarrow> (\<forall>s. P s \<longrightarrow> P (snd (m s)))"

lemma act_keepsI: "(\<And>s. P s \<Longrightarrow> P (snd (m s))) \<Longrightarrow> act_keeps P m"
  by (simp add: act_keeps_def)

lemma act_keepsD: "act_keeps P m \<Longrightarrow> P s \<Longrightarrow> P (snd (m s))"
  by (simp add: act_keeps_def)

lemma act_keeps_return [simp]: "act_keeps P (act_return x)"
  and act_keeps_fail [simp]: "act_keeps P (act_fail e)"
  and act_keeps_read [simp]: "act_keeps P (act_read f)"
  by (simp_all add: act_keeps_def)

lemma act_keeps_bind: "act_keeps P m \<Longrightarrow> (\<And>x. act_keeps P (f x)) \<Longrightarrow> act_keeps P (act_bind m f)"
  by (auto simp: act_keeps_def act_bind_def split: prod.split sum.split)

lemma act_keeps_map_err: "act_keeps P m \<Longrightarrow> act_keeps P (act_map_err g m)"
  by (auto simp: act_keeps_def act_map_err_def split: prod.split sum.split)

lemma act_keeps_foldl: "(\<And>a x. x \<in> set xs \<Longrightarrow> act_keeps P (f a x)) \<Longrightarrow> act_keeps P (act_foldl f a xs)"
  by (induction xs arbitrary: a) (auto intro: act_keeps_bind)

lemmas act_keeps_intros = act_keeps_bind act_keeps_map_err act_keeps_foldl

end
