(* ===== verification/Models.thy ===== *)
theory Models
  imports Prelude
begin

text \<open>
  The data model of \<^verbatim>\<open>src/core/src/models\<close>: element references, metadata, nodes and
  relations with their property maps, source changes, joins and timestamp ranges.

  Elements are polymorphic in the type \<open>'v\<close> of property values: the engine only compares
  and hashes them. \<open>element_value\<close> is the source's value type; its floats and date types come
  from third-party crates and are type parameters of it. Rust's \<open>panic!\<close> is the value
  \<open>None\<close> of an option type.
\<close>

subsection \<open>Values and properties\<close>

datatype ('f, 'l, 'z) element_value =
    Null
  | Bool bool
  | Float 'f
  | Integer "64 word"
  | String string
  | List "('f, 'l, 'z) element_value list"
  | Object "(string \<times> ('f, 'l, 'z) element_value) list"
  | LocalDateTime 'l
  | ZonedDateTime 'z

type_synonym 'v property_map = "(string, 'v) btree"

definition property_get :: "'v property_map \<Rightarrow> string \<Rightarrow> 'v option" where
  "property_get m key = bt_get m key"

definition property_insert :: "string \<Rightarrow> 'v \<Rightarrow> 'v property_map \<Rightarrow> 'v property_map" where
  "property_insert key v m = bt_insert key v m"

text \<open>\<open>merge\<close> adds the entries of the other map whose keys are missing.\<close>

definition property_merge :: "'v property_map \<Rightarrow> 'v property_map \<Rightarrow> 'v property_map" where
  "property_merge m other = fold (\<lambda>e m. bt_or_insert (fst e) (snd e) m) other m"

text \<open>Indexing: a missing key reads as the null value.\<close>

definition property_index :: "'v \<Rightarrow> 'v property_map \<Rightarrow> string \<Rightarrow> 'v" where
  "property_index null m key = (case bt_get m key of Some v \<Rightarrow> v | None \<Rightarrow> null)"

subsection \<open>Elements\<close>

datatype element_reference = ElementReference (source_id: string) (element_id: string)

record element_metadata =
  reference :: element_reference
  labels :: "string list"
  effective_from :: u64

datatype 'v element =
    Node element_metadata "'v property_map"
  | Relation element_metadata element_reference element_reference "'v property_map"

fun get_metadata :: "'v element \<Rightarrow> element_metadata" where
  "get_metadata (Node m p) = m"
| "get_metadata (Relation m i out p) = m"

definition get_reference :: "'v element \<Rightarrow> element_reference" where
  "get_reference e = reference (get_metadata e)"

definition get_effective_from :: "'v element \<Rightarrow> u64" where
  "get_effective_from e = effective_from (get_metadata e)"

fun get_properties :: "'v element \<Rightarrow> 'v property_map" where
  "get_properties (Node m p) = p"
| "get_properties (Relation m i out p) = p"

definition get_property :: "'v \<Rightarrow> 'v element \<Rightarrow> string \<Rightarrow> 'v" where
  "get_property null e name = property_index null (get_properties e) name"

fun merge_missing_properties :: "'v element \<Rightarrow> 'v element \<Rightarrow> 'v element option" where
  "merge_missing_properties (Node m p) (Node m' p') =
     (if reference m = reference m' then Some (Node m (property_merge p p')) else None)"
| "merge_missing_properties (Relation m i out p) (Relation m' i' out' p') =
     (if reference m = reference m' then Some (Relation m i out (property_merge p p')) else None)"
| "merge_missing_properties _ _ = None"

fun update_effective_time :: "'v element \<Rightarrow> u64 \<Rightarrow> 'v element" where
  "update_effective_time (Node m p) t = Node (m\<lparr>effective_from := t\<rparr>) p"
| "update_effective_time (Relation m i out p) t = Relation (m\<lparr>effective_from := t\<rparr>) i out p"

definition MAX_REASONABLE_MILLIS_TIMESTAMP :: u64 where
  "MAX_REASONABLE_MILLIS_TIMESTAMP = 10000000000000"

text \<open>The error message names the rejected value; the model's error is that value.\<close>

definition validate_effective_from :: "u64 \<Rightarrow> u64 + unit" where
  "validate_effective_from v =
     (if v = 0 then Inr ()
      else if v > MAX_REASONABLE_MILLIS_TIMESTAMP
        then Inl v
      else Inr ())"

subsection \<open>Source changes\<close>

record future_element_ref =
  element_ref :: element_reference
  original_time :: u64
  due_time :: u64
  group_signature :: u64

datatype 'v source_change =
    Insert "'v element"
  | Update "'v element"
  | Delete element_metadata
  | Future future_element_ref

fun change_reference :: "'v source_change \<Rightarrow> element_reference" where
  "change_reference (Insert e) = get_reference e"
| "change_reference (Update e) = get_reference e"
| "change_reference (Delete m) = reference m"
| "change_reference (Future f) = element_ref f"

fun change_transaction_time :: "'v source_change \<Rightarrow> u64" where
  "change_transaction_time (Insert e) = get_effective_from e"
| "change_transaction_time (Update e) = get_effective_from e"
| "change_transaction_time (Delete m) = effective_from m"
| "change_transaction_time (Future f) = original_time f"

fun change_realtime :: "'v source_change \<Rightarrow> u64" where
  "change_realtime (Insert e) = get_effective_from e"
| "change_realtime (Update e) = get_effective_from e"
| "change_realtime (Delete m) = effective_from m"
| "change_realtime (Future f) = due_time f"

subsection \<open>Joins and timestamp ranges\<close>

datatype query_join_key = QueryJoinKey (key_label: string) (key_property: string)

datatype query_join = QueryJoin (join_id: string) (join_keys: "query_join_key list")

datatype timestamp_bound = StartFromPrevious u64 | Included u64

fun get_timestamp :: "timestamp_bound \<Rightarrow> u64" where
  "get_timestamp (StartFromPrevious t) = t"
| "get_timestamp (Included t) = t"

subsection \<open>Errors of an index\<close>

text \<open>The text of an error is kept as a string; \<open>RangePanic\<close> stands for a panic of the index.\<close>

datatype index_error =
    IOError
  | NotSupported
  | ArchiveNotEnabled
  | CorruptedData
  | ConnectionFailed string
  | UnknownStore string
  | OtherError string
  | RangePanic

subsection \<open>The order on element references\<close>

instantiation element_reference :: linorder
begin

definition less_eq_element_reference :: "element_reference \<Rightarrow> element_reference \<Rightarrow> bool" where
  "less_eq_element_reference a b \<longleftrightarrow> (source_id a, element_id a) \<le> (source_id b, element_id b)"

definition less_element_reference :: "element_reference \<Rightarrow> element_reference \<Rightarrow> bool" where
  "less_element_reference a b \<longleftrightarrow> (source_id a, element_id a) < (source_id b, element_id b)"

instance
proof
  fix x y z :: element_reference
  show "x < y \<longleftrightarrow> x \<le> y \<and> \<not> y \<le> x"
    unfolding less_eq_element_reference_def less_element_reference_def by (rule less_le_not_le)
  show "x \<le> x"
    unfolding less_eq_element_reference_def by (rule order_refl)
  show "x \<le> z" if "x \<le> y" "y \<le> z"
    using that unfolding less_eq_element_reference_def by (rule order_trans)
  show "x = y" if "x \<le> y" "y \<le> x"
    using order_antisym [OF that [unfolded less_eq_element_reference_def]]
    by (simp add: element_reference.expand)
  show "x \<le> y \<or> y \<le> x"
    unfolding less_eq_element_reference_def by (rule linear)
qed

end

subsection \<open>Properties of merging\<close>

lemma property_merge_Nil [simp]: "property_merge m [] = m"
  by (simp add: property_merge_def)

lemma property_merge_ok [simp]: "bt_ok m \<Longrightarrow> bt_ok (property_merge m other)"
  unfolding property_merge_def by (rule fold_invariant) auto

lemma bt_get_property_merge:
  "distinct (map fst other) \<Longrightarrow> bt_get (property_merge m other) = bt_get other ++ bt_get m"
proof (induction other arbitrary: m)
  case (Cons e other)
  obtain k v where e: "e = (k, v)" by (cases e)
  have fresh: "bt_get other k = None"
    using Cons.prems by (auto simp: e map_of_eq_None_iff)
  have "bt_get (property_merge m (e # other)) = bt_get other ++ bt_get (bt_or_insert k v m)"
    using Cons by (simp add: property_merge_def e)
  also have "\<dots> = bt_get (e # other) ++ bt_get m"
    using fresh
    by (auto simp: fun_eq_iff map_add_def e bt_get_or_insert split: option.splits)
  finally show ?case .
qed simp

lemma merge_missing_reference:
  "merge_missing_properties e e' = Some m \<Longrightarrow> get_reference m = get_reference e \<and> get_reference e = get_reference e'"
  by (induction e e' rule: merge_missing_properties.induct)
    (auto simp: get_reference_def split: if_splits)

lemma merge_missing_metadata:
  "merge_missing_properties e e' = Some m \<Longrightarrow> get_metadata m = get_metadata e"
  by (induction e e' rule: merge_missing_properties.induct) (auto split: if_splits)

lemma merge_missing_properties_get:
  "merge_missing_properties e e' = Some m \<Longrightarrow>
     get_properties m = property_merge (get_properties e) (get_properties e')"
  by (induction e e' rule: merge_missing_properties.induct) (auto split: if_splits)

fun same_kind :: "'v element \<Rightarrow> 'v element \<Rightarrow> bool" where
  "same_kind (Node _ _) (Node _ _) = True"
| "same_kind (Relation _ _ _ _) (Relation _ _ _ _) = True"
| "same_kind _ _ = False"

lemma merge_missing_defined:
  "merge_missing_properties e e' = None \<longleftrightarrow> \<not> (same_kind e e' \<and> get_reference e = get_reference e')"
  by (induction e e' rule: merge_missing_properties.induct) (auto simp: get_reference_def)

lemma get_reference_simps [simp]:
  "get_reference (Node m p) = reference m" "get_reference (Relation m i out p) = reference m"
  by (simp_all add: get_reference_def)

end
