(* ===== verification/Match_Path.thy ===== *)
theory Match_Path
  imports Models
begin

text \<open>
  Compilation of the match clauses of a query part into slots:
  \<^verbatim>\<open>src/core/src/path_solver/match_path.rs\<close> and the two merge functions of
  \<^verbatim>\<open>src/core/src/path_solver/mod.rs\<close>, over the fragment of
  \<^verbatim>\<open>src/query-ast/src/ast.rs\<close> they read. Expressions are opaque here (type \<open>'x\<close>).
  The lemmas show that the slot graph is well formed: adjacency is in range and recorded in
  both directions, an alias names one slot, and a slot is optional exactly when every match
  clause that mentions it is.
\<close>

subsection \<open>Syntax trees\<close>

datatype direction = Left | Right | Either

record 'x node_match =
  node_annotation :: "string option"
  node_labels :: "string list"
  node_predicates :: "'x list"

record 'x relation_match =
  rel_direction :: direction
  rel_annotation :: "string option"
  rel_variable_length :: "(int option \<times> int option) option"
  rel_labels :: "string list"
  rel_predicates :: "'x list"

record 'x match_clause =
  start :: "'x node_match"
  path :: "('x relation_match \<times> 'x node_match) list"
  clause_optional :: bool

subsection \<open>Slots\<close>

record 'x slot_element_spec =
  annotation :: "string option"
  spec_labels :: "string list"
  predicates :: "'x list"

record 'x match_path_slot =
  spec :: "'x slot_element_spec"
  in_slots :: "nat list"
  out_slots :: "nat list"
  paths :: "nat set"
  optional :: bool

record 'x match_path =
  slots :: "'x match_path_slot list"
  optional_paths :: "nat set"

definition from_node_match :: "'x node_match \<Rightarrow> 'x slot_element_spec" where
  "from_node_match m =
     \<lparr>annotation = node_annotation m, spec_labels = node_labels m, predicates = node_predicates m\<rparr>"

definition from_relation_match :: "'x relation_match \<Rightarrow> 'x slot_element_spec" where
  "from_relation_match m =
     \<lparr>annotation = rel_annotation m, spec_labels = rel_labels m, predicates = rel_predicates m\<rparr>"

text \<open>The slots and the alias map the compiler threads through the clauses.\<close>

type_synonym 'x slots_state = "'x match_path_slot list \<times> (string \<rightharpoonup> nat)"

definition new_slot :: "'x slot_element_spec \<Rightarrow> nat \<Rightarrow> bool \<Rightarrow> 'x match_path_slot" where
  "new_slot sp path_index opt =
     \<lparr>spec = sp, in_slots = [], out_slots = [], paths = {path_index}, optional = opt\<rparr>"

definition merge_node_match ::
    "'x node_match \<Rightarrow> 'x slots_state \<Rightarrow> nat \<Rightarrow> bool \<Rightarrow> nat \<times> 'x slots_state" where
  "merge_node_match mtch st path_index opt =
     (let (ss, alias_map) = st in
      case node_annotation mtch of
        Some alias \<Rightarrow>
          (case alias_map alias of
             Some n \<Rightarrow>
               (n, ss[n := (ss ! n)\<lparr>optional := opt \<and> optional (ss ! n),
                                     paths := insert path_index (paths (ss ! n))\<rparr>], alias_map)
           | None \<Rightarrow>
               (length ss, ss @ [new_slot (from_node_match mtch) path_index opt],
                alias_map(alias \<mapsto> length ss)))
      | None \<Rightarrow>
          (length ss, ss @ [new_slot (from_node_match mtch) path_index opt], alias_map))"

definition merge_relation_match ::
    "'x relation_match \<Rightarrow> 'x slots_state \<Rightarrow> nat \<Rightarrow> bool \<Rightarrow> nat \<times> 'x slots_state" where
  "merge_relation_match mtch st path_index opt =
     (let (ss, alias_map) = st in
      case rel_annotation mtch of
        Some alias \<Rightarrow>
          (case alias_map alias of
             Some n \<Rightarrow>
               (n, ss[n := (ss ! n)\<lparr>optional := opt \<and> optional (ss ! n),
                                     paths := insert path_index (paths (ss ! n))\<rparr>], alias_map)
           | None \<Rightarrow>
               (length ss, ss @ [new_slot (from_relation_match mtch) path_index opt],
                alias_map(alias \<mapsto> length ss)))
      | None \<Rightarrow>
          (length ss, ss @ [new_slot (from_relation_match mtch) path_index opt], alias_map))"

definition push_out :: "nat \<Rightarrow> nat \<Rightarrow> 'x match_path_slot list \<Rightarrow> 'x match_path_slot list" where
  "push_out i j ss = ss[i := (ss ! i)\<lparr>out_slots := out_slots (ss ! i) @ [j]\<rparr>]"

definition push_in :: "nat \<Rightarrow> nat \<Rightarrow> 'x match_path_slot list \<Rightarrow> 'x match_path_slot list" where
  "push_in i j ss = ss[i := (ss ! i)\<lparr>in_slots := in_slots (ss ! i) @ [j]\<rparr>]"

fun connect :: "direction \<Rightarrow> nat \<Rightarrow> nat \<Rightarrow> nat \<Rightarrow> 'x match_path_slot list \<Rightarrow> 'x match_path_slot list" where
  "connect Right prev rel node ss =
     push_in node rel (push_out rel node (push_in rel prev (push_out prev rel ss)))"
| "connect Left prev rel node ss =
     push_out node rel (push_in rel node (push_out rel prev (push_in prev rel ss)))"
| "connect Either prev rel node ss =
     push_out rel node (push_in rel node (push_out node rel (push_in node rel
       (push_out rel prev (push_in rel prev (push_out prev rel (push_in prev rel ss)))))))"

text \<open>One step of a path: the relation slot, the node slot, then the links.\<close>

definition add_path_step ::
    "nat \<Rightarrow> bool \<Rightarrow> 'x relation_match \<times> 'x node_match \<Rightarrow> nat \<times> 'x slots_state \<Rightarrow> nat \<times> 'x slots_state" where
  "add_path_step path_index opt p acc =
     (let (prev, st) = acc;
          (rel, st1) = merge_relation_match (fst p) st path_index opt;
          (node, st2) = merge_node_match (snd p) st1 path_index opt
      in (node, connect (rel_direction (fst p)) prev rel node (fst st2), snd st2))"

definition add_clause ::
    "nat \<Rightarrow> 'x match_clause \<Rightarrow> 'x slots_state \<times> nat set \<Rightarrow> 'x slots_state \<times> nat set" where
  "add_clause path_index mc acc =
     (let (st, opts) = acc;
          opts' = (if clause_optional mc then insert path_index opts else opts);
          st1 = merge_node_match (start mc) st path_index (clause_optional mc)
      in (snd (fold (add_path_step path_index (clause_optional mc)) (path mc) st1), opts'))"

definition from_query :: "'x match_clause list \<Rightarrow> 'x match_path" where
  "from_query mcs =
     (let (st, opts) = fold (\<lambda>(k, mc). add_clause k mc) (enumerate 0 mcs) (([], Map.empty), {})
      in \<lparr>slots = fst st, optional_paths = opts\<rparr>)"

subsection \<open>Optional slots on common paths\<close>

text \<open>The inner loop over the slots of one path; \<open>None\<close> is the break on an empty slot.\<close>

fun scan_path :: "nat \<Rightarrow> nat set \<Rightarrow> nat \<Rightarrow> (nat \<times> 'x match_path_slot) list \<Rightarrow> nat set \<Rightarrow> nat set option" where
  "scan_path anchor empties p [] acc = Some acc"
| "scan_path anchor empties p ((n, sl) # rest) acc =
     (if optional sl \<and> p \<in> paths sl then
        if n \<in> empties then None
        else if n \<noteq> anchor \<and> card (paths sl) > 1 then scan_path anchor empties p rest acc
        else scan_path anchor empties p rest (insert n acc)
      else scan_path anchor empties p rest acc)"

definition get_optional_slots_on_common_paths :: "'x match_path \<Rightarrow> nat \<Rightarrow> nat set \<Rightarrow> nat set" where
  "get_optional_slots_on_common_paths mp anchor empties =
     (\<Union>p \<in> paths (slots mp ! anchor).
        case scan_path anchor empties p (enumerate 0 (slots mp)) {} of
          Some path_slots \<Rightarrow> path_slots | None \<Rightarrow> {})"

subsection \<open>Well-formed slot graphs\<close>

definition out_edge :: "'x match_path_slot list \<Rightarrow> nat \<Rightarrow> nat \<Rightarrow> bool" where
  "out_edge ss i j \<longleftrightarrow> i < length ss \<and> j \<in> set (out_slots (ss ! i))"

definition in_edge :: "'x match_path_slot list \<Rightarrow> nat \<Rightarrow> nat \<Rightarrow> bool" where
  "in_edge ss i j \<longleftrightarrow> j < length ss \<and> i \<in> set (in_slots (ss ! j))"

definition slots_wf :: "'x match_path_slot list \<Rightarrow> bool" where
  "slots_wf ss \<longleftrightarrow> out_edge ss = in_edge ss"

definition aliases_ok :: "'x slots_state \<Rightarrow> bool" where
  "aliases_ok st \<longleftrightarrow>
     (\<forall>a n. snd st a = Some n \<longleftrightarrow> n < length (fst st) \<and> annotation (spec (fst st ! n)) = Some a)"

definition optional_ok :: "nat set \<Rightarrow> 'x match_path_slot list \<Rightarrow> bool" where
  "optional_ok opts ss \<longleftrightarrow>
     (\<forall>i < length ss. optional (ss ! i) \<longleftrightarrow> paths (ss ! i) \<subseteq> opts)"

definition paths_below :: "nat \<Rightarrow> 'x match_path_slot list \<Rightarrow> bool" where
  "paths_below k ss \<longleftrightarrow>
     (\<forall>i < length ss. paths (ss ! i) \<noteq> {} \<and> paths (ss ! i) \<subseteq> {..<k})"

definition compile_ok :: "nat \<Rightarrow> nat set \<Rightarrow> 'x slots_state \<Rightarrow> bool" where
  "compile_ok k opts st \<longleftrightarrow>
     slots_wf (fst st) \<and> aliases_ok st \<and> optional_ok opts (fst st) \<and> paths_below k (fst st)"

subsection \<open>Linking slots\<close>

lemma push_length [simp]:
  "length (push_out a b ss) = length ss" "length (push_in a b ss) = length ss"
  by (simp_all add: push_out_def push_in_def)

lemma push_frame [simp]:
  "spec (push_out a b ss ! i) = spec (ss ! i)" "spec (push_in a b ss ! i) = spec (ss ! i)"
  "paths (push_out a b ss ! i) = paths (ss ! i)" "paths (push_in a b ss ! i) = paths (ss ! i)"
  "optional (push_out a b ss ! i) = optional (ss ! i)" "optional (push_in a b ss ! i) = optional (ss ! i)"
  by (cases "a < length ss"; simp add: push_out_def push_in_def nth_update_if)+

lemma out_edge_push [simp]:
  "a < length ss \<Longrightarrow> out_edge (push_out a b ss) i j \<longleftrightarrow> out_edge ss i j \<or> (i = a \<and> j = b)"
  "out_edge (push_in a b ss) i j \<longleftrightarrow> out_edge ss i j"
  by (auto simp: out_edge_def push_out_def push_in_def nth_update_if split: if_splits)

lemma in_edge_push [simp]:
  "a < length ss \<Longrightarrow> in_edge (push_in a b ss) i j \<longleftrightarrow> in_edge ss i j \<or> (j = a \<and> i = b)"
  "in_edge (push_out a b ss) i j \<longleftrightarrow> in_edge ss i j"
  by (auto simp: in_edge_def push_out_def push_in_def nth_update_if split: if_splits)

lemma connect_length [simp]: "length (connect d p r n ss) = length ss"
  by (cases d) simp_all

lemma connect_frame [simp]:
  "spec (connect d p r n ss ! i) = spec (ss ! i)"
  "paths (connect d p r n ss ! i) = paths (ss ! i)"
  "optional (connect d p r n ss ! i) = optional (ss ! i)"
  by (cases d; simp)+

lemma slots_wf_iff: "slots_wf ss \<longleftrightarrow> (\<forall>i j. out_edge ss i j = in_edge ss i j)"
  by (auto simp: slots_wf_def fun_eq_iff)

lemma connect_wf:
  assumes "slots_wf ss" "p < length ss" "r < length ss" "n < length ss"
  shows "slots_wf (connect d p r n ss)"
  using assms by (cases d) (auto simp: slots_wf_iff)

lemma connect_out_edge:
  assumes "p < length ss" "r < length ss" "n < length ss"
  shows "out_edge (connect d p r n ss) i j \<longleftrightarrow>
    out_edge ss i j \<or>
    (d \<noteq> Left \<and> (i, j) \<in> {(p, r), (r, n)}) \<or> (d \<noteq> Right \<and> (i, j) \<in> {(n, r), (r, p)})"
  using assms by (cases d) auto

lemma connect_ok:
  assumes "compile_ok k opts (ss, am)" "p < length ss" "r < length ss" "n < length ss"
  shows "compile_ok k opts (connect d p r n ss, am)"
  using assms
  by (auto simp: compile_ok_def connect_wf aliases_ok_def optional_ok_def paths_below_def)

subsection \<open>Merging a pattern element into the slots\<close>

definition merge_slot ::
    "string option \<Rightarrow> 'x slot_element_spec \<Rightarrow> 'x slots_state \<Rightarrow> nat \<Rightarrow> bool \<Rightarrow> nat \<times> 'x slots_state" where
  "merge_slot ann sp st k opt =
     (case Option.bind ann (snd st) of
        Some n \<Rightarrow> (n, (fst st)[n := (fst st ! n)\<lparr>optional := opt \<and> optional (fst st ! n),
                                     paths := insert k (paths (fst st ! n))\<rparr>], snd st)
      | None \<Rightarrow> (length (fst st), fst st @ [new_slot sp k opt],
                 (case ann of Some a \<Rightarrow> (snd st)(a \<mapsto> length (fst st)) | None \<Rightarrow> snd st)))"

lemma merge_node_match_slot:
  "merge_node_match m st k opt = merge_slot (node_annotation m) (from_node_match m) st k opt"
  by (cases st) (auto simp: merge_node_match_def merge_slot_def split: option.splits)

lemma merge_relation_match_slot:
  "merge_relation_match m st k opt = merge_slot (rel_annotation m) (from_relation_match m) st k opt"
  by (cases st) (auto simp: merge_relation_match_def merge_slot_def split: option.splits)

lemma out_edge_append:
  "out_edge (ss @ [new_slot sp k opt]) = out_edge ss" "in_edge (ss @ [new_slot sp k opt]) = in_edge ss"
  by (auto simp: fun_eq_iff out_edge_def in_edge_def nth_append new_slot_def less_Suc_eq)

lemma edges_update_frame:
  "out_edge (ss[n := (ss ! n)\<lparr>optional := b, paths := q\<rparr>]) = out_edge ss"
  "in_edge (ss[n := (ss ! n)\<lparr>optional := b, paths := q\<rparr>]) = in_edge ss"
  by (auto simp: fun_eq_iff out_edge_def in_edge_def nth_update_if)

lemma new_slot_sel [simp]:
  "spec (new_slot sp k opt) = sp" "paths (new_slot sp k opt) = {k}"
  "optional (new_slot sp k opt) = opt"
  by (simp_all add: new_slot_def)

lemma merge_slot_ok:
  assumes inv: "compile_ok (Suc k) opts st" and opt: "opt \<longleftrightarrow> k \<in> opts"
    and ann: "ann = annotation sp"
    and eq: "merge_slot ann sp st k opt = (n, st')"
  shows "compile_ok (Suc k) opts st' \<and> n < length (fst st') \<and> length (fst st) \<le> length (fst st')"
proof (cases "Option.bind ann (snd st)")
  case None
  have st': "n = length (fst st)" "fst st' = fst st @ [new_slot sp k opt]"
    "snd st' = (case ann of Some a \<Rightarrow> (snd st)(a \<mapsto> length (fst st)) | None \<Rightarrow> snd st)"
    using eq None by (auto simp: merge_slot_def)
  have "slots_wf (fst st')"
    using inv by (simp add: compile_ok_def slots_wf_def st' out_edge_append)
  moreover have "aliases_ok st'"
    using inv None unfolding ann
    by (cases "annotation sp")
      (auto simp: compile_ok_def aliases_ok_def st' ann nth_append less_Suc_eq,
       metis option.distinct(1))
  moreover have "optional_ok opts (fst st')" "paths_below (Suc k) (fst st')"
    using inv opt
    by (auto simp: compile_ok_def optional_ok_def paths_below_def st' nth_append less_Suc_eq)
  ultimately show ?thesis by (simp add: compile_ok_def st')
next
  case (Some m)
  then obtain a where a: "ann = Some a" "snd st a = Some m" by (cases ann) auto
  have st': "n = m" "snd st' = snd st"
    "fst st' = (fst st)[m := (fst st ! m)\<lparr>optional := opt \<and> optional (fst st ! m),
                                         paths := insert k (paths (fst st ! m))\<rparr>]"
    using eq Some by (auto simp: merge_slot_def)
  have m: "m < length (fst st)"
    using inv a by (simp add: compile_ok_def aliases_ok_def)
  have "slots_wf (fst st')"
    using inv by (simp add: compile_ok_def slots_wf_def st' edges_update_frame)
  moreover have "aliases_ok st'"
    using inv by (auto simp: compile_ok_def aliases_ok_def st' nth_update_if)
  moreover have "optional_ok opts (fst st')" "paths_below (Suc k) (fst st')"
    using inv opt
    by (auto simp: compile_ok_def optional_ok_def paths_below_def st' nth_update_if)
  ultimately show ?thesis using m by (simp add: compile_ok_def st')
qed

lemma merge_node_ok:
  assumes "compile_ok (Suc k) opts st" "opt \<longleftrightarrow> k \<in> opts" "merge_node_match m st k opt = (n, st')"
  shows "compile_ok (Suc k) opts st' \<and> n < length (fst st') \<and> length (fst st) \<le> length (fst st')"
  using assms(3) unfolding merge_node_match_slot
  by (rule merge_slot_ok [OF assms(1,2), rotated]) (simp add: from_node_match_def)

lemma merge_relation_ok:
  assumes "compile_ok (Suc k) opts st" "opt \<longleftrightarrow> k \<in> opts" "merge_relation_match m st k opt = (n, st')"
  shows "compile_ok (Suc k) opts st' \<and> n < length (fst st') \<and> length (fst st) \<le> length (fst st')"
  using assms(3) unfolding merge_relation_match_slot
  by (rule merge_slot_ok [OF assms(1,2), rotated]) (simp add: from_relation_match_def)

subsection \<open>The compiler establishes the invariant\<close>

definition step_ok :: "nat \<Rightarrow> nat set \<Rightarrow> nat \<times> 'x slots_state \<Rightarrow> bool" where
  "step_ok k opts acc \<longleftrightarrow> compile_ok (Suc k) opts (snd acc) \<and> fst acc < length (fst (snd acc))"

lemma add_path_step_ok:
  assumes inv: "step_ok k opts acc" and opt: "opt \<longleftrightarrow> k \<in> opts"
  shows "step_ok k opts (add_path_step k opt p acc)"
proof -
  obtain prev st where acc: "acc = (prev, st)" by (cases acc)
  obtain r ss1 am1 where m1: "merge_relation_match (fst p) st k opt = (r, ss1, am1)"
    by (metis prod.exhaust)
  obtain n ss2 am2 where m2: "merge_node_match (snd p) (ss1, am1) k opt = (n, ss2, am2)"
    by (metis prod.exhaust)
  have 1: "compile_ok (Suc k) opts (ss1, am1) \<and> r < length ss1 \<and> length (fst st) \<le> length ss1"
    using merge_relation_ok [OF _ opt m1] inv by (simp add: step_ok_def acc)
  have 2: "compile_ok (Suc k) opts (ss2, am2) \<and> n < length ss2 \<and> length ss1 \<le> length ss2"
    using merge_node_ok [OF _ opt m2] 1 by simp
  have "prev < length ss2" "r < length ss2"
    using 1 2 inv by (auto simp: step_ok_def acc)
  then show ?thesis
    using 2 connect_ok [of "Suc k" opts ss2 am2 prev r n]
    by (simp add: step_ok_def add_path_step_def acc m1 m2)
qed

lemma compile_ok_next:
  assumes "compile_ok k opts st" "opts \<subseteq> {..<k}"
  shows "compile_ok (Suc k) (if b then insert k opts else opts) st"
  using assms unfolding compile_ok_def optional_ok_def paths_below_def
  by (auto simp: less_Suc_eq) blast+

lemma add_clause_ok:
  assumes "compile_ok k opts st" "opts \<subseteq> {..<k}"
  shows "compile_ok (Suc k) (snd (add_clause k mc (st, opts))) (fst (add_clause k mc (st, opts)))"
proof -
  let ?b = "clause_optional mc" and ?o = "if clause_optional mc then insert k opts else opts"
  have b: "?b \<longleftrightarrow> k \<in> ?o" using assms(2) by auto
  obtain n st1 where m: "merge_node_match (start mc) st k ?b = (n, st1)" by (metis prod.exhaust)
  have "step_ok k ?o (n, st1)"
    using merge_node_ok [OF compile_ok_next [OF assms] b m] by (simp add: step_ok_def)
  then have "step_ok k ?o (fold (add_path_step k ?b) (path mc) (n, st1))"
    by (rule fold_invariant [where P = "step_ok k ?o"]) (use add_path_step_ok b in blast)
  then show ?thesis by (simp add: add_clause_def m step_ok_def split: prod.splits)
qed

lemma fold_add_clause_ok:
  assumes "compile_ok k {i. i < k \<and> P i} st" "\<And>i. i < length mcs \<Longrightarrow> P (k + i) = clause_optional (mcs ! i)"
  shows "case fold (\<lambda>(k, mc). add_clause k mc) (enumerate k mcs) (st, {i. i < k \<and> P i}) of
    (st', opts') \<Rightarrow> compile_ok (k + length mcs) opts' st' \<and> opts' = {i. i < k + length mcs \<and> P i}"
  using assms
proof (induction mcs arbitrary: k st)
  case (Cons mc mcs)
  let ?o = "{i. i < k \<and> P i}"
  have P: "P k = clause_optional mc" using Cons.prems(2) [of 0] by simp
  have "snd (add_clause k mc (st, ?o)) = {i. i < Suc k \<and> P i}"
    using P by (auto simp: add_clause_def less_Suc_eq)
  then obtain st1 where c: "add_clause k mc (st, ?o) = (st1, {i. i < Suc k \<and> P i})"
    by (metis prod.collapse)
  have ok: "compile_ok (Suc k) {i. i < Suc k \<and> P i} st1"
    using add_clause_ok [OF Cons.prems(1), of mc] by (simp add: c subset_iff)
  show ?case
    using Cons.IH [OF ok] Cons.prems(2) [of "Suc _"] by (simp add: c)
qed simp

lemma from_query_compile_ok:
  obtains am where "compile_ok (length mcs) (optional_paths (from_query mcs)) (slots (from_query mcs), am)"
    and "optional_paths (from_query mcs) = {i. i < length mcs \<and> clause_optional (mcs ! i)}"
proof -
  have "compile_ok 0 {i. i < 0 \<and> clause_optional (mcs ! i)} ([], Map.empty)"
    by (simp add: compile_ok_def slots_wf_iff out_edge_def in_edge_def aliases_ok_def
      optional_ok_def paths_below_def)
  from fold_add_clause_ok [OF this, of mcs] show thesis
    by (auto simp: from_query_def split: prod.splits intro!: that)
qed

lemma from_query_slots_wf: "slots_wf (slots (from_query mcs))"
  by (rule from_query_compile_ok [of mcs]) (simp add: compile_ok_def)

lemma slots_wf_range:
  assumes "slots_wf ss" "i < length ss"
  shows "set (out_slots (ss ! i)) \<subseteq> {..<length ss}" "set (in_slots (ss ! i)) \<subseteq> {..<length ss}"
  using assms unfolding slots_wf_iff out_edge_def in_edge_def by blast+

lemma scan_path_enumerate:
  "scan_path anchor empties p (enumerate k ss) acc =
     (if \<exists>i < length ss. optional (ss ! i) \<and> p \<in> paths (ss ! i) \<and> k + i \<in> empties then None
      else Some (acc \<union> {k + i |i. i < length ss \<and> optional (ss ! i) \<and> p \<in> paths (ss ! i) \<and>
                                  (k + i = anchor \<or> card (paths (ss ! i)) \<le> 1)}))"
proof (induction ss arbitrary: k acc)
  case (Cons s ss)
  have ex: "(\<exists>i < length (s # ss). Q ((s # ss) ! i) (k + i)) \<longleftrightarrow>
      Q s k \<or> (\<exists>i < length ss. Q (ss ! i) (Suc k + i))" for Q
    by (auto simp: less_Suc_eq_0_disj)
  have set: "{k + i |i. i < length (s # ss) \<and> Q ((s # ss) ! i) (k + i)} =
      (if Q s k then {k} else {}) \<union> {Suc k + i |i. i < length ss \<and> Q (ss ! i) (Suc k + i)}" for Q
    by (auto simp: less_Suc_eq_0_disj)
  define E where "E \<longleftrightarrow> (\<exists>i < length ss. optional (ss ! i) \<and> p \<in> paths (ss ! i) \<and> Suc k + i \<in> empties)"
  define S where "S = {Suc k + i |i. i < length ss \<and> optional (ss ! i) \<and> p \<in> paths (ss ! i) \<and>
                                    (Suc k + i = anchor \<or> card (paths (ss ! i)) \<le> 1)}"
  note IH = Cons.IH [of "Suc k", folded E_def S_def]
  show ?case
    unfolding ex [of "\<lambda>s n. optional s \<and> p \<in> paths s \<and> n \<in> empties"]
      set [of "\<lambda>s n. optional s \<and> p \<in> paths s \<and> (n = anchor \<or> card (paths s) \<le> 1)"]
      E_def [symmetric] S_def [symmetric]
    using IH by (simp add: not_less) auto
qed simp

lemma from_query_alias_unique:
  assumes "i < length (slots (from_query mcs))" "j < length (slots (from_query mcs))"
    and "annotation (spec (slots (from_query mcs) ! i)) = Some a"
    and "annotation (spec (slots (from_query mcs) ! j)) = Some a"
  shows "i = j"
proof -
  obtain am where "aliases_ok (slots (from_query mcs), am)"
    using from_query_compile_ok [of mcs] by (metis compile_ok_def)
  then have "am a = Some i" "am a = Some j" using assms by (simp_all add: aliases_ok_def)
  then show ?thesis by simp
qed

lemma from_query_paths:
  assumes "i < length (slots (from_query mcs))"
  shows "paths (slots (from_query mcs) ! i) \<noteq> {} \<and> paths (slots (from_query mcs) ! i) \<subseteq> {..<length mcs}"
  using assms by (rule_tac from_query_compile_ok [of mcs]) (simp add: compile_ok_def paths_below_def)

lemma from_query_optional:
  assumes "i < length (slots (from_query mcs))"
  shows "optional (slots (from_query mcs) ! i) \<longleftrightarrow>
    (\<forall>k \<in> paths (slots (from_query mcs) ! i). clause_optional (mcs ! k))"
  using from_query_paths [OF assms] assms
  by (rule_tac from_query_compile_ok [of mcs]) (auto simp: compile_ok_def optional_ok_def)

subsection \<open>Properties\<close>

text \<open>
  C12. Compiling match clauses yields a well-formed slot graph. For every slot, each outgoing
  neighbour is in range and lists the slot as an incoming neighbour and conversely; two slots
  with the same alias are the same slot; the slot records a nonempty set of indices of match
  clauses; and it is optional exactly when every clause it records is an optional match.
\<close>

theorem from_query_wf:
  fixes mcs :: "'x match_clause list"
  assumes "mp = from_query mcs" and "i < length (slots mp)"
  shows "(\<forall>j. j \<in> set (out_slots (slots mp ! i)) \<longleftrightarrow>
              j < length (slots mp) \<and> i \<in> set (in_slots (slots mp ! j))) \<and>
    (\<forall>j a. j < length (slots mp) \<and> annotation (spec (slots mp ! i)) = Some a \<and>
           annotation (spec (slots mp ! j)) = Some a \<longrightarrow> i = j) \<and>
    paths (slots mp ! i) \<noteq> {} \<and> paths (slots mp ! i) \<subseteq> {..<length mcs} \<and>
    (optional (slots mp ! i) \<longleftrightarrow> (\<forall>k \<in> paths (slots mp ! i). clause_optional (mcs ! k)))"
  using assms from_query_slots_wf [of mcs] from_query_alias_unique [of i mcs]
    from_query_paths [of i mcs] from_query_optional [of i mcs]
  by (auto simp: slots_wf_iff out_edge_def in_edge_def)

definition person_knows :: "bool \<Rightarrow> string \<Rightarrow> unit match_clause" where
  "person_knows opt b =
     \<lparr>start = \<lparr>node_annotation = Some ''a'', node_labels = [''Person''], node_predicates = []\<rparr>,
      path = [(\<lparr>rel_direction = Right, rel_annotation = None, rel_variable_length = None,
                 rel_labels = [''KNOWS''], rel_predicates = []\<rparr>,
               \<lparr>node_annotation = Some b, node_labels = [''Person''], node_predicates = []\<rparr>)],
      clause_optional = opt\<rparr>"

lemmas compile_simps =
  from_query_def add_clause_def add_path_step_def merge_node_match_def merge_relation_match_def
  from_node_match_def from_relation_match_def new_slot_def push_out_def push_in_def person_knows_def

theorem from_query_wf_witness:
  "let mcs = [person_knows False ''b'', person_knows True ''c'']; mp = from_query mcs in
     length (slots mp) = 5 \<and> out_slots (slots mp ! 0) = [1, 3] \<and> 0 \<in> set (in_slots (slots mp ! 3)) \<and>
     \<not> optional (slots mp ! 0) \<and> optional (slots mp ! 3)"
  using from_query_wf [of "from_query [person_knows False ''b'', person_knows True ''c'']"
      "[person_knows False ''b'', person_knows True ''c'']" 0]
  by (simp add: Let_def compile_simps)

text \<open>
  C15. The optional slots that a solution with some empty slots leaves open around an anchor:
  a slot is returned exactly when it is optional and lies on a path of the anchor none of
  whose optional slots is empty, and it is the anchor or lies on that path alone.
\<close>

theorem get_optional_slots_on_common_paths_iff:
  "n \<in> get_optional_slots_on_common_paths mp anchor empties \<longleftrightarrow>
     n < length (slots mp) \<and> optional (slots mp ! n) \<and>
     (n = anchor \<or> card (paths (slots mp ! n)) \<le> 1) \<and>
     (\<exists>p \<in> paths (slots mp ! anchor) \<inter> paths (slots mp ! n).
        \<not> (\<exists>m < length (slots mp).
             optional (slots mp ! m) \<and> p \<in> paths (slots mp ! m) \<and> m \<in> empties))"
  by (auto simp: get_optional_slots_on_common_paths_def scan_path_enumerate split: if_splits)

end
