(* ===== verification/Solution.thy ===== *)
theory Solution
  imports Match_Path
begin

text \<open>
  A partial or complete solution of a match path,
  \<^verbatim>\<open>src/core/src/path_solver/solution.rs\<close>, and the variables it binds.

  The signature of a complete solution is a hash of its slots and element references in slot
  order; the hasher (crate \<^verbatim>\<open>hashers\<close>) is the parameter \<open>spooky\<close>, a function of the
  sequence it is fed. An index past the end of \<open>queued_slots\<close> panics in Rust: \<open>None\<close> here.
\<close>

subsection \<open>Variable values\<close>

text \<open>
  \<open>Integer\<close> of \<^verbatim>\<open>src/core/src/evaluation/variable_value/integer.rs\<close>: a \<open>u64\<close>, or a negative
  \<open>i64\<close> given by its two's-complement word.
\<close>

datatype integer = PosInt u64 | NegInt u64

text \<open>
  \<open>VariableValue\<close> of \<^verbatim>\<open>src/core/src/evaluation/variable_value/mod.rs\<close>. Floats (\<open>'f\<close>), the
  date and time types (\<open>'d\<close>) and syntax trees (\<open>'x\<close>) are parameters, as are the property
  values \<open>'v\<close> of elements.
\<close>

datatype ('f, 'd, 'x, 'v) variable_value =
    VNull
  | VBool bool
  | VFloat 'f
  | VInteger integer
  | VString string
  | VList "('f, 'd, 'x, 'v) variable_value list"
  | VObject "(string \<times> ('f, 'd, 'x, 'v) variable_value) list"
  | VDate 'd
  | VLocalTime 'd
  | VZonedTime 'd
  | VLocalDateTime 'd
  | VZonedDateTime 'd
  | VDuration 'd
  | VExpression 'x
  | VListRange 'x
  | VElement "'v element"
  | VElementMetadata element_metadata
  | VElementReference element_reference
  | VAwaiting

type_synonym ('f, 'd, 'x, 'v) query_variables = "(string, ('f, 'd, 'x, 'v) variable_value) btree"

definition to_expression_variable :: "'v element \<Rightarrow> ('f, 'd, 'x, 'v) variable_value" where
  "to_expression_variable e = VElement e"

subsection \<open>Solutions\<close>

record 'v solution =
  solved_slots :: "(nat, 'v element option) btree"
  total_slots :: nat
  queued_slots :: "bool list"
  slot_cursors :: "(nat \<times> 'v element option) list"
  solution_signature :: "u64 option"
  anchor_slot :: nat

text \<open>What the hasher is fed: slot numbers with the reference of the element, if any.\<close>

type_synonym signature_hash = "(nat \<times> element_reference option) list \<Rightarrow> u64"

definition signature_input :: "(nat, 'v element option) btree \<Rightarrow> (nat \<times> element_reference option) list" where
  "signature_input m = map (\<lambda>(n, v). (n, map_option get_reference v)) m"

definition new_solution :: "nat \<Rightarrow> nat \<Rightarrow> 'v solution" where
  "new_solution n_slots anchor =
     \<lparr>solved_slots = [], total_slots = n_slots, queued_slots = replicate n_slots False,
      slot_cursors = [], solution_signature = None, anchor_slot = anchor\<rparr>"

definition mark_slot_solved ::
    "signature_hash \<Rightarrow> nat \<Rightarrow> 'v element option \<Rightarrow> 'v solution \<Rightarrow> 'v solution" where
  "mark_slot_solved spooky n v s =
     (let m = bt_insert n v (solved_slots s); s1 = s\<lparr>solved_slots := m\<rparr> in
      if length m = total_slots s
      then s1\<lparr>solution_signature := Some (spooky (signature_input m))\<rparr> else s1)"

definition enqueue_slot :: "nat \<Rightarrow> 'v element option \<Rightarrow> 'v solution \<Rightarrow> 'v solution option" where
  "enqueue_slot n v s =
     (if n < length (queued_slots s) then
        if \<not> queued_slots s ! n
        then Some (s\<lparr>slot_cursors := slot_cursors s @ [(n, v)],
                     queued_slots := (queued_slots s)[n := True]\<rparr>)
        else Some s
      else None)"

definition is_slot_solved :: "'v solution \<Rightarrow> nat \<Rightarrow> bool" where
  "is_slot_solved s n \<longleftrightarrow> bt_get (solved_slots s) n \<noteq> None"

definition get_empty_optional_solution ::
    "signature_hash \<Rightarrow> nat iter \<Rightarrow> 'x match_path \<Rightarrow> 'v solution \<Rightarrow> 'v solution option" where
  "get_empty_optional_solution spooky it mp s =
     (if \<not> optional (slots mp ! anchor_slot s) then None
      else if length (solved_slots s) \<noteq> total_slots s then None
      else
        let empties = set (map fst (filter (\<lambda>(n, v). v = None) (solved_slots s)));
            opts = get_optional_slots_on_common_paths mp (anchor_slot s) empties;
            r = fold (\<lambda>n r. r\<lparr>solved_slots := bt_remove n (solved_slots r)\<rparr>) (it opts) s;
            r0 = r\<lparr>solution_signature := None\<rparr>
        in Some (fold (\<lambda>n. mark_slot_solved spooky n None) (it opts) r0))"

definition into_query_variables ::
    "'x match_path \<Rightarrow> ('f, 'd, 'x, 'v) query_variables \<Rightarrow> 'v solution \<Rightarrow> ('f, 'd, 'x, 'v) query_variables"
  where
  "into_query_variables mp base s =
     fold (\<lambda>(n, sl) vars.
             case bt_get (solved_slots s) n of
               None \<Rightarrow> vars
             | Some v \<Rightarrow>
                 (case annotation (spec sl) of
                    None \<Rightarrow> vars
                  | Some a \<Rightarrow>
                      bt_insert a (case v of Some e \<Rightarrow> to_expression_variable e | None \<Rightarrow> VNull) vars))
       (enumerate 0 (slots mp)) base"

subsection \<open>Marking slots\<close>

lemma mark_slot_solved_sel [simp]:
  "solved_slots (mark_slot_solved h n v s) = bt_insert n v (solved_slots s)"
  "total_slots (mark_slot_solved h n v s) = total_slots s"
  "queued_slots (mark_slot_solved h n v s) = queued_slots s"
  "slot_cursors (mark_slot_solved h n v s) = slot_cursors s"
  "anchor_slot (mark_slot_solved h n v s) = anchor_slot s"
  by (simp_all add: mark_slot_solved_def Let_def)

lemma mark_slot_solved_signature:
  "solution_signature (mark_slot_solved h n v s) =
     (if length (bt_insert n v (solved_slots s)) = total_slots s
      then Some (h (signature_input (bt_insert n v (solved_slots s)))) else solution_signature s)"
  by (simp add: mark_slot_solved_def Let_def)

definition complete :: "signature_hash \<Rightarrow> 'v solution \<Rightarrow> bool" where
  "complete h s \<longleftrightarrow> bt_ok (solved_slots s) \<and> dom (bt_get (solved_slots s)) = {..<total_slots s} \<and>
     solution_signature s = Some (h (signature_input (solved_slots s)))"

lemma fold_remove_slots:
  "bt_get (solved_slots (fold (\<lambda>n r. r\<lparr>solved_slots := bt_remove n (solved_slots r)\<rparr>) ns s)) =
     (\<lambda>n. if n \<in> set ns then None else bt_get (solved_slots s) n)"
  "bt_ok (solved_slots s) \<Longrightarrow>
     bt_ok (solved_slots (fold (\<lambda>n r. r\<lparr>solved_slots := bt_remove n (solved_slots r)\<rparr>) ns s))"
  "total_slots (fold (\<lambda>n r. r\<lparr>solved_slots := bt_remove n (solved_slots r)\<rparr>) ns s) = total_slots s"
  by (induction ns arbitrary: s) (auto simp: fun_eq_iff bt_simps)

lemma fold_mark_slots:
  "bt_get (solved_slots (fold (\<lambda>n. mark_slot_solved h n v) ns s)) =
     (\<lambda>n. if n \<in> set ns then Some v else bt_get (solved_slots s) n)"
  "bt_ok (solved_slots s) \<Longrightarrow> bt_ok (solved_slots (fold (\<lambda>n. mark_slot_solved h n v) ns s))"
  "total_slots (fold (\<lambda>n. mark_slot_solved h n v) ns s) = total_slots s"
  by (induction ns arbitrary: s) (auto simp: fun_eq_iff bt_simps)

lemma fold_mark_signature:
  assumes "ns \<noteq> []" "length (solved_slots (fold (\<lambda>n. mark_slot_solved h n v) ns s)) = total_slots s"
  shows "solution_signature (fold (\<lambda>n. mark_slot_solved h n v) ns s) =
    Some (h (signature_input (solved_slots (fold (\<lambda>n. mark_slot_solved h n v) ns s))))"
  using assms by (cases ns rule: rev_cases) (simp_all add: mark_slot_solved_signature fold_mark_slots(3))

lemma get_optional_slots_subset:
  "get_optional_slots_on_common_paths mp a es \<subseteq> {..<length (slots mp)}"
  by (auto simp: get_optional_slots_on_common_paths_def scan_path_enumerate split: if_splits)

definition empty_slots :: "'v solution \<Rightarrow> nat set" where
  "empty_slots s = {n. bt_get (solved_slots s) n = Some None}"

text \<open>
  C14. The solution with the optional part around its anchor left empty. For a complete
  solution whose anchor is optional, the result binds no element to the slots on the
  anchor's paths that have no empty slot and agrees with the solution elsewhere, for every
  iteration order; where there is such a slot its signature is the hash of that binding, and
  where there is none it carries no signature.
\<close>

theorem get_empty_optional_solution_spec:
  fixes s :: "'v solution"
  assumes it: "iter_ok it" and s: "complete h s" and mp: "length (slots mp) = total_slots s"
    and opt: "optional (slots mp ! anchor_slot s)"
    and O: "opts = get_optional_slots_on_common_paths mp (anchor_slot s) (empty_slots s)"
  shows "\<exists>r. get_empty_optional_solution h it mp s = Some r \<and>
    bt_get (solved_slots r) = (\<lambda>n. if n \<in> opts then Some None else bt_get (solved_slots s) n) \<and>
    (if opts = {} then solution_signature r = None else complete h r)"
proof -
  let ?rem = "fold (\<lambda>n r. r\<lparr>solved_slots := bt_remove n (solved_slots r)\<rparr>) (it opts) s"
  let ?r = "fold (\<lambda>n. mark_slot_solved h n None) (it opts) (?rem\<lparr>solution_signature := None\<rparr>)"
  have ok: "bt_ok (solved_slots s)" and dom: "dom (bt_get (solved_slots s)) = {..<total_slots s}"
    using s by (simp_all add: complete_def)
  have sub: "opts \<subseteq> {..<total_slots s}"
    using get_optional_slots_subset [of mp "anchor_slot s" "empty_slots s"] by (simp add: O mp)
  then have fin: "finite opts" using finite_subset by blast
  have ito: "set (it opts) = opts" using it fin by (simp add: iter_ok_def)
  have es: "set (map fst (filter (\<lambda>(n, v). v = None) (solved_slots s))) = empty_slots s"
    using ok by (force simp: empty_slots_def bt_get_mem)
  have len: "length (solved_slots s) = total_slots s" using bt_length [OF ok] by (simp add: dom)
  have run: "get_empty_optional_solution h it mp s = Some ?r"
    by (simp add: get_empty_optional_solution_def opt len es O Let_def del: set_map)
  have get: "bt_get (solved_slots ?r) = (\<lambda>n. if n \<in> opts then Some None else bt_get (solved_slots s) n)"
    by (simp add: fold_mark_slots(1) fold_remove_slots(1) ito fun_eq_iff)
  have ok': "bt_ok (solved_slots ?r)"
    by (rule fold_mark_slots(2)) (simp add: fold_remove_slots(2) ok)
  have tot: "total_slots ?r = total_slots s"
    by (simp add: fold_mark_slots(3) fold_remove_slots(3))
  have dom': "dom (bt_get (solved_slots ?r)) = {..<total_slots s}"
    unfolding get using sub dom by (auto simp: dom_def set_eq_iff split: if_splits)
  have len': "length (solved_slots ?r) = total_slots s"
    using bt_length [OF ok'] dom' by simp
  have "it opts \<noteq> []" if "opts \<noteq> {}" using ito that by auto
  then have sig: "opts \<noteq> {} \<Longrightarrow> complete h ?r"
    using fold_mark_signature [of "it opts" h None "?rem\<lparr>solution_signature := None\<rparr>"]
      len' dom' ok' by (simp add: complete_def tot fold_remove_slots(3))
  have "opts = {} \<Longrightarrow> solution_signature ?r = None"
    using ito by simp
  with run get sig show ?thesis by auto
qed

definition ann :: "nat \<Rightarrow> unit element" where
  "ann n = Node \<lparr>reference = ElementReference ''hr'' (replicate n CHR ''n''), labels = [''Person''],
                 effective_from = 0\<rparr> []"

definition full_solution :: "unit solution" where
  "full_solution =
     \<lparr>solved_slots = map (\<lambda>n. (n, Some (ann n))) [0..<5], total_slots = 5,
      queued_slots = replicate 5 True, slot_cursors = [], solution_signature = Some 7, anchor_slot = 3\<rparr>"

lemma full_solution_complete: "complete (\<lambda>_. 7) full_solution"
  by (auto simp: complete_def full_solution_def bt_ok_def upt_rec split: if_splits)

theorem get_empty_optional_solution_spec_witness:
  "\<exists>r. get_empty_optional_solution (\<lambda>_. 7) sorted_list_of_set
         (from_query [person_knows False ''b'', person_knows True ''c'']) full_solution = Some r \<and>
       bt_get (solved_slots r) 2 = Some (Some (ann 2)) \<and>
       bt_get (solved_slots r) 3 = Some None \<and> bt_get (solved_slots r) 4 = Some None \<and>
       solution_signature r = Some 7"
proof -
  let ?mp = "from_query [person_knows False ''b'', person_knows True ''c'']"
  let ?O = "get_optional_slots_on_common_paths ?mp (anchor_slot full_solution) (empty_slots full_solution)"
  have e: "empty_slots full_solution = {}" by (simp add: empty_slots_def full_solution_def upt_rec)
  have o: "?O = {3, 4}"
    unfolding e by (auto simp: get_optional_slots_on_common_paths_def compile_simps full_solution_def)
  have 1: "length (slots ?mp) = total_slots full_solution" "optional (slots ?mp ! anchor_slot full_solution)"
    by (simp_all add: compile_simps full_solution_def)
  have 2: "bt_get (solved_slots full_solution) 2 = Some (Some (ann 2))"
    by (simp add: full_solution_def upt_rec numeral_2_eq_2)
  from get_empty_optional_solution_spec [OF iter_ok_sorted full_solution_complete 1 refl] show ?thesis
    by (auto simp: o 2 complete_def)
qed

end
