(* ===== verification/Path_Solver.thy ===== *)
theory Path_Solver
  imports Solution "HOL-Library.Multiset"
begin

text \<open>
  The solver of \<^verbatim>\<open>src/core/src/path_solver/mod.rs\<close>: from an element anchored at a slot it
  follows the slot graph through the element index and enumerates the complete solutions.

  \<open>try_complete_solution\<close> is the list of commands one task sends; \<open>create_solution_stream\<close>
  is the loop that receives them from the channel. The parallel build, where tasks send
  concurrently, is the step relation \<open>pstep\<close>. The element index is reached through the record
  \<open>index_ops\<close>; a stream of results is the list of its items. \<open>it\<close> is the iteration order of
  the hash map \<open>alt_by_slot\<close>.
\<close>

subsection \<open>Access to the element index\<close>

record ('e, 'v) index_ops =
  op_get_slot_element_by_ref :: "nat \<Rightarrow> element_reference \<Rightarrow> 'e + 'v element option"
  op_get_slot_elements_by_inbound :: "nat \<Rightarrow> element_reference \<Rightarrow> 'e + ('e + 'v element) list"
  op_get_slot_elements_by_outbound :: "nat \<Rightarrow> element_reference \<Rightarrow> 'e + ('e + 'v element) list"

datatype solve_direction = Outward | Inward

fun get_adjacent_elements ::
    "('e, 'v) index_ops \<Rightarrow> 'v element \<Rightarrow> nat \<Rightarrow> solve_direction \<Rightarrow> 'e + ('e + 'v element) list" where
  "get_adjacent_elements idx (Node m p) target Outward =
     op_get_slot_elements_by_inbound idx target (reference m)"
| "get_adjacent_elements idx (Node m p) target Inward =
     op_get_slot_elements_by_outbound idx target (reference m)"
| "get_adjacent_elements idx (Relation m i out p) target d =
     res_bind (op_get_slot_element_by_ref idx target (case d of Outward \<Rightarrow> out | Inward \<Rightarrow> i))
       (\<lambda>r. Inr (case r of Some e \<Rightarrow> [Inr e] | None \<Rightarrow> []))"

subsection \<open>Completing one solution\<close>

datatype 'e task_failure = IndexFailure 'e | IndexOutOfBounds

datatype ('e, 'v) command =
    Partial "'v solution"
  | Complete u64 "'v solution"
  | Error 'e
  | Panic
  | Unsolvable

type_synonym 'v alternatives = "nat \<rightharpoonup> 'v element option list"

text \<open>Draining a stream of results stops at its first error.\<close>

fun drain :: "('e + 'a) list \<Rightarrow> 'e + 'a list" where
  "drain [] = Inr []"
| "drain (Inl e # rs) = Inl e"
| "drain (Inr a # rs) = res_bind (drain rs) (\<lambda>as. Inr (a # as))"

definition adjacent ::
    "('e, 'v) index_ops \<Rightarrow> 'v element option \<Rightarrow> nat \<Rightarrow> solve_direction \<Rightarrow> 'e + 'v element list" where
  "adjacent idx el target d =
     (case el of
        None \<Rightarrow> Inr []
      | Some e \<Rightarrow> res_bind (get_adjacent_elements idx e target d) drain)"

text \<open>One of the two loops over the neighbours of the slot.\<close>

fun gather ::
    "'x match_path \<Rightarrow> ('e, 'v) index_ops \<Rightarrow> 'v solution \<Rightarrow> 'v element option \<Rightarrow> solve_direction \<Rightarrow>
     nat list \<Rightarrow> 'v alternatives \<Rightarrow> 'e task_failure + 'v alternatives" where
  "gather mp idx sol el d [] alt = Inr alt"
| "gather mp idx sol el d (n # ns) alt =
     (if is_slot_solved sol n then gather mp idx sol el d ns alt
      else
        case adjacent idx el n d of
          Inl e \<Rightarrow> Inl (IndexFailure e)
        | Inr found \<Rightarrow>
            if n < length (slots mp) then
              gather mp idx sol el d ns
                (alt(n \<mapsto> (case alt n of Some vs \<Rightarrow> vs | None \<Rightarrow> []) @ map Some found @
                          (if optional (slots mp ! n) \<and> found = [] then [None] else [])))
            else Inl IndexOutOfBounds)"

text \<open>
  The alternatives of each slot in the iteration order of the map: a single one is queued,
  several get a pointer.
\<close>

fun queue_single ::
    "'v alternatives \<Rightarrow> nat list \<Rightarrow> 'v solution \<times> (nat, nat) btree \<Rightarrow>
     ('v solution \<times> (nat, nat) btree) option" where
  "queue_single alt [] acc = Some acc"
| "queue_single alt (n # ns) (sol, pointers) =
     (case alt n of
        Some [v] \<Rightarrow>
          (case enqueue_slot n v sol of
             Some sol' \<Rightarrow> queue_single alt ns (sol', pointers)
           | None \<Rightarrow> None)
      | Some (v # w # vs) \<Rightarrow> queue_single alt ns (sol, bt_insert n 0 pointers)
      | _ \<Rightarrow> queue_single alt ns (sol, pointers))"

text \<open>The permutation loop. \<open>advance\<close> moves the pointers like an odometer.\<close>

definition alt_len :: "'v alternatives \<Rightarrow> nat \<Rightarrow> nat" where
  "alt_len alt n = (case alt n of Some vs \<Rightarrow> length vs | None \<Rightarrow> 0)"

fun advance :: "(nat \<Rightarrow> nat) \<Rightarrow> (nat \<times> nat) list \<Rightarrow> (nat \<times> nat) list option" where
  "advance len [] = None"
| "advance len ((n, p) # ps) =
     (if p < len n - 1 then Some ((n, p + 1) # ps)
      else map_option ((#) (n, 0)) (advance len ps))"

fun remaining :: "(nat \<Rightarrow> nat) \<Rightarrow> (nat \<times> nat) list \<Rightarrow> nat" where
  "remaining len [] = 0"
| "remaining len ((n, p) # ps) = (len n - 1 - p) + max 1 (len n) * remaining len ps"

lemma advance_remaining: "advance len ps = Some ps' \<Longrightarrow> remaining len ps' < remaining len ps"
proof (induction ps arbitrary: ps')
  case (Cons np ps)
  obtain n p where np: "np = (n, p)" by (cases np)
  show ?case
  proof (cases "p < len n - 1")
    case True
    then show ?thesis using Cons.prems by (auto simp: np)
  next
    case False
    then obtain qs where q: "advance len ps = Some qs" "ps' = (n, 0) # qs"
      using Cons.prems by (auto simp: np)
    then have "Suc (remaining len qs) \<le> remaining len ps" using Cons.IH by fastforce
    then have "max 1 (len n) * Suc (remaining len qs) \<le> max 1 (len n) * remaining len ps"
      by (rule mult_le_mono2)
    then show ?thesis using False by (simp add: np q)
  qed
qed simp

function permutations :: "(nat \<Rightarrow> nat) \<Rightarrow> (nat \<times> nat) list \<Rightarrow> (nat \<times> nat) list list" where
  "permutations len p =
     p # (case advance len p of None \<Rightarrow> [] | Some p' \<Rightarrow> permutations len p')"
  by pat_completeness auto
termination
  by (relation "measure (\<lambda>(len, p). remaining len p)") (auto simp: advance_remaining)

fun queue_permutation ::
    "'v alternatives \<Rightarrow> (nat \<times> nat) list \<Rightarrow> 'v solution \<Rightarrow> 'v solution option" where
  "queue_permutation alt [] sol = Some sol"
| "queue_permutation alt ((n, p) # ps) sol =
     (case alt n of
        None \<Rightarrow> None
      | Some vs \<Rightarrow>
          if p < length vs
          then (case enqueue_slot n (vs ! p) sol of
                  Some sol' \<Rightarrow> queue_permutation alt ps sol' | None \<Rightarrow> None)
          else queue_permutation alt ps sol)"

fun queue_permutations ::
    "'v alternatives \<Rightarrow> 'v solution \<Rightarrow> (nat \<times> nat) list list \<Rightarrow> 'v solution list option" where
  "queue_permutations alt sol [] = Some []"
| "queue_permutations alt sol (p # ps) =
     (case queue_permutation alt p sol of
        None \<Rightarrow> None
      | Some s \<Rightarrow> map_option ((#) s) (queue_permutations alt sol ps))"

declare permutations.simps [simp del]

text \<open>
  The rest of the body of the loop, for a slot just solved: the partial solutions sent and
  the solution the loop goes on with.
\<close>

definition expand ::
    "'x match_path \<Rightarrow> ('e, 'v) index_ops \<Rightarrow> nat iter \<Rightarrow> 'v solution \<Rightarrow> nat \<Rightarrow> 'v element option \<Rightarrow>
     'e task_failure + 'v solution list \<times> 'v solution" where
  "expand mp idx it sol n el =
     (if n < length (slots mp) then
        res_bind (gather mp idx sol el Outward (out_slots (slots mp ! n)) Map.empty) (\<lambda>alt1.
        res_bind (gather mp idx sol el Inward (in_slots (slots mp ! n)) alt1) (\<lambda>alt.
          case queue_single alt (it (dom alt)) (sol, []) of
            None \<Rightarrow> Inl IndexOutOfBounds
          | Some (sol1, pointers) \<Rightarrow>
              if pointers = [] then Inr ([], sol1)
              else (case queue_permutations alt sol1 (permutations (alt_len alt) pointers) of
                      None \<Rightarrow> Inl IndexOutOfBounds
                    | Some sols \<Rightarrow> Inr (sols, sol1))))
      else Inl IndexOutOfBounds)"

text \<open>Open work of a solution: queued slots not yet solved and slots not yet queued.\<close>

definition open_work :: "'v solution \<Rightarrow> nat" where
  "open_work s = length (slot_cursors s) + length (filter Not (queued_slots s))"

lemma filter_Not_update:
  "n < length qs \<Longrightarrow> \<not> qs ! n \<Longrightarrow> Suc (length (filter Not (qs[n := True]))) = length (filter Not qs)"
proof (induction qs arbitrary: n)
  case (Cons q qs)
  then show ?case by (cases n) auto
qed simp

lemma enqueue_open_work: "enqueue_slot n v s = Some s' \<Longrightarrow> open_work s' = open_work s"
  using filter_Not_update [of n "queued_slots s"]
  by (auto simp: enqueue_slot_def open_work_def split: if_splits)

lemma queue_single_open_work:
  "queue_single alt ns (s, ps) = Some (s', ps') \<Longrightarrow> open_work s' = open_work s"
proof (induction alt ns "(s, ps)" arbitrary: s ps rule: queue_single.induct)
  case (2 alt n ns s ps)
  from 2(5) show ?case
    by (auto split: option.splits list.splits simp: enqueue_open_work dest: 2(1,2,3,4))
qed simp

lemma queue_permutation_open_work:
  "queue_permutation alt p s = Some s' \<Longrightarrow> open_work s' = open_work s"
  by (induction alt p s rule: queue_permutation.induct)
    (auto split: option.splits if_splits simp: enqueue_open_work)

lemma queue_permutations_set:
  "queue_permutations alt s ps = Some ss \<Longrightarrow>
     set ss = {s'. \<exists>p \<in> set ps. queue_permutation alt p s = Some s'}"
  by (induction alt s ps arbitrary: ss rule: queue_permutations.induct)
    (fastforce split: option.splits)+

lemma expand_InrE:
  assumes "expand mp idx it s n el = Inr (ps, s')"
  obtains alt1 alt pointers where
    "n < length (slots mp)"
    "gather mp idx s el Outward (out_slots (slots mp ! n)) Map.empty = Inr alt1"
    "gather mp idx s el Inward (in_slots (slots mp ! n)) alt1 = Inr alt"
    "queue_single alt (it (dom alt)) (s, []) = Some (s', pointers)"
    "set ps = (if pointers = [] then {} else
       {s''. \<exists>p \<in> set (permutations (alt_len alt) pointers). queue_permutation alt p s' = Some s''})"
    "pointers \<noteq> [] \<Longrightarrow> queue_permutations alt s' (permutations (alt_len alt) pointers) = Some ps"
proof -
  obtain alt1 alt where 1: "n < length (slots mp)"
    "gather mp idx s el Outward (out_slots (slots mp ! n)) Map.empty = Inr alt1"
    "gather mp idx s el Inward (in_slots (slots mp ! n)) alt1 = Inr alt"
    using assms by (auto simp: expand_def res_bind_Inr split: if_splits)
  obtain s1 pointers where 2: "queue_single alt (it (dom alt)) (s, []) = Some (s1, pointers)"
    using assms 1 by (auto simp: expand_def split: option.splits)
  show thesis
  proof (cases "pointers = []")
    case True
    then show thesis using that [OF 1, of pointers] assms 1 2 by (simp add: expand_def)
  next
    case False
    then obtain qs where "queue_permutations alt s1 (permutations (alt_len alt) pointers) = Some qs"
      using assms 1 2 by (auto simp: expand_def split: option.splits)
    from this queue_permutations_set [OF this] show thesis
      using that [OF 1, of pointers] assms 1 2 False by (auto simp: expand_def)
  qed
qed

lemma expand_open_work:
  assumes "expand mp idx it s n el = Inr (ps, s')"
  shows "open_work s' = open_work s" "p \<in> set ps \<Longrightarrow> open_work p = open_work s"
  using assms
  by (auto elim!: expand_InrE split: if_splits
      simp: queue_single_open_work dest!: queue_permutation_open_work)

function try_complete_solution ::
    "signature_hash \<Rightarrow> 'x match_path \<Rightarrow> ('e, 'v) index_ops \<Rightarrow> nat iter \<Rightarrow> 'v solution \<Rightarrow>
     ('e, 'v) command list" where
  "try_complete_solution h mp idx it sol =
     (case slot_cursors sol of
        [] \<Rightarrow> [Unsolvable]
      | (n, el) # cs \<Rightarrow>
          let s1 = mark_slot_solved h n el (sol\<lparr>slot_cursors := cs\<rparr>) in
          (case solution_signature s1 of
             Some sig \<Rightarrow> [Complete sig s1]
           | None \<Rightarrow>
               (case expand mp idx it s1 n el of
                  Inl (IndexFailure e) \<Rightarrow> [Error e]
                | Inl IndexOutOfBounds \<Rightarrow> [Panic]
                | Inr (ps, s2) \<Rightarrow> map Partial ps @ try_complete_solution h mp idx it s2)))"
  by pat_completeness auto
termination
proof (relation "measure (\<lambda>(h, mp, idx, it, s). open_work s)", goal_cases)
  case (2 h mp idx it sol a b n el s1 c ps s2)
  then show ?case
    using expand_open_work(1) [of mp idx it s1 n el] by (auto simp: open_work_def)
qed simp

declare try_complete_solution.simps [simp del]

lemma try_complete_partial_open_work:
  "Partial p \<in> set (try_complete_solution h mp idx it s) \<Longrightarrow> open_work p < open_work s"
proof (induction h mp idx it s rule: try_complete_solution.induct)
  case (1 h mp idx it sol)
  show ?case
  proof (cases "slot_cursors sol")
    case Nil
    then show ?thesis using "1.prems" by (simp add: try_complete_solution.simps)
  next
    case (Cons c cs)
    obtain n el where c: "c = (n, el)" by (cases c)
    define s1 where "s1 = mark_slot_solved h n el (sol\<lparr>slot_cursors := cs\<rparr>)"
    have w: "open_work s1 < open_work sol" by (simp add: s1_def open_work_def Cons)
    obtain ps s2 where e: "solution_signature s1 = None" "expand mp idx it s1 n el = Inr (ps, s2)"
      and p: "p \<in> set ps \<or> Partial p \<in> set (try_complete_solution h mp idx it s2)"
      using "1.prems" Cons unfolding try_complete_solution.simps [of h mp idx it sol]
      by (auto simp: c s1_def [symmetric] Let_def split: option.splits sum.splits task_failure.splits)
    show ?thesis
      using p w expand_open_work [OF e(2)] "1.IH" [OF Cons c [symmetric] s1_def e(1) e(2)]
      by auto
  qed
qed

subsection \<open>The command loop\<close>

datatype ('e, 'v) stream_item =
    Yield u64 "'v solution"
  | YieldErr 'e
  | StreamPanic
  | StreamBlocked

fun command_weight :: "('e, 'v) command \<Rightarrow> nat" where
  "command_weight (Partial s) = Suc (open_work s)"
| "command_weight _ = 0"

text \<open>
  Receiving commands in order; \<open>StreamBlocked\<close> is a receive on the empty channel, whose
  sender the loop itself keeps alive.
\<close>

function solution_stream ::
    "signature_hash \<Rightarrow> 'x match_path \<Rightarrow> ('e, 'v) index_ops \<Rightarrow> nat iter \<Rightarrow>
     ('e, 'v) command list \<Rightarrow> int \<Rightarrow> ('e, 'v) stream_item list" where
  "solution_stream h mp idx it [] inflight = [StreamBlocked]"
| "solution_stream h mp idx it (Partial s # q) inflight =
     (if inflight + 1 = 0 then []
      else solution_stream h mp idx it (q @ try_complete_solution h mp idx it s) (inflight + 1))"
| "solution_stream h mp idx it (Complete sig s # q) inflight =
     Yield sig s # (if inflight - 1 = 0 then [] else solution_stream h mp idx it q (inflight - 1))"
| "solution_stream h mp idx it (Error e # q) inflight = [YieldErr e]"
| "solution_stream h mp idx it (Panic # q) inflight = [StreamPanic]"
| "solution_stream h mp idx it (Unsolvable # q) inflight =
     (if inflight - 1 = 0 then [] else solution_stream h mp idx it q (inflight - 1))"
  by pat_completeness auto


termination
proof (relation "inv_image (mult less_than) (\<lambda>(h, mp, idx, it, q, i). mset (map command_weight q))",
       goal_cases)
  case 1
  then show ?case by (simp add: wf_mult)
next
  case (2 h mp idx it s q inflight)
  have "\<forall>k \<in># mset (map command_weight (try_complete_solution h mp idx it s)).
          \<exists>j \<in># {#Suc (open_work s)#}. (k, j) \<in> less_than"
  proof -
    have "command_weight k < Suc (open_work s)" if k: "k \<in> set (try_complete_solution h mp idx it s)" for k
    proof (cases k)
      case (Partial p)
      with k show ?thesis by (simp add: try_complete_partial_open_work)
    qed simp_all
    then show ?thesis by auto
  qed
  then show ?case
    using one_step_implies_mult
      [of "{#Suc (open_work s)#}" "mset (map command_weight (try_complete_solution h mp idx it s))"
          less_than "mset (map command_weight q)"]
    by simp
next
  case (3 h mp idx it sig s q inflight)
  then show ?case
    using one_step_implies_mult [of "{#0#}" "{#}" less_than "mset (map command_weight q)"] by simp
next
  case (4 h mp idx it q inflight)
  then show ?case
    using one_step_implies_mult [of "{#0#}" "{#}" less_than "mset (map command_weight q)"] by simp
qed

definition create_solution_stream ::
    "signature_hash \<Rightarrow> 'x match_path \<Rightarrow> ('e, 'v) index_ops \<Rightarrow> nat iter \<Rightarrow> 'v solution \<Rightarrow>
     ('e, 'v) stream_item list" where
  "create_solution_stream h mp idx it initial = solution_stream h mp idx it [Partial initial] 0"

datatype 'e solve_failure = SolveError 'e | SolvePanic | SolveBlocked

fun collect :: "('e, 'v) stream_item list \<Rightarrow> (u64 \<rightharpoonup> 'v solution) \<Rightarrow>
    'e solve_failure + (u64 \<rightharpoonup> 'v solution)" where
  "collect [] result = Inr result"
| "collect (Yield sig s # rest) result = collect rest (result(sig \<mapsto> s))"
| "collect (YieldErr e # rest) result = Inl (SolveError e)"
| "collect (StreamPanic # rest) result = Inl SolvePanic"
| "collect (StreamBlocked # rest) result = Inl SolveBlocked"

definition solve ::
    "signature_hash \<Rightarrow> nat iter \<Rightarrow> ('e, 'v) index_ops \<Rightarrow> 'x match_path \<Rightarrow> 'v element \<Rightarrow> nat \<Rightarrow>
     'e solve_failure + (u64 \<rightharpoonup> 'v solution)" where
  "solve h it idx mp anchor_element anchor =
     (case enqueue_slot anchor (Some anchor_element) (new_solution (length (slots mp)) anchor) of
        None \<Rightarrow> Inl SolvePanic
      | Some initial \<Rightarrow> collect (create_solution_stream h mp idx it initial) Map.empty)"

subsection \<open>The channel protocol, for any interleaving\<close>

text \<open>
  With the feature \<^verbatim>\<open>parallel_solver\<close> a received partial solution starts a task, and the
  tasks' commands reach the channel in any interleaving that keeps the order of each task.
  The state is the channel, the commands the running tasks have still to send, the counter,
  the yielded items and whether the loop has ended. \<open>task\<close> gives the commands of a task.
\<close>

record ('e, 'v) pstate =
  channel :: "('e, 'v) command list"
  running :: "('e, 'v) command list list"
  inflight :: int
  yielded :: "('e, 'v) stream_item list"
  ended :: bool

inductive pstep ::
    "('v solution \<Rightarrow> ('e, 'v) command list) \<Rightarrow> ('e, 'v) pstate \<Rightarrow> ('e, 'v) pstate \<Rightarrow> bool"
  for task where
  recv_partial: "\<not> ended st \<Longrightarrow> channel st = Partial s # q \<Longrightarrow>
    pstep task st (st\<lparr>channel := q, running := running st @ [task s], inflight := inflight st + 1,
                      ended := (inflight st + 1 = 0)\<rparr>)"
| recv_complete: "\<not> ended st \<Longrightarrow> channel st = Complete sig s # q \<Longrightarrow>
    pstep task st (st\<lparr>channel := q, yielded := yielded st @ [Yield sig s], inflight := inflight st - 1,
                      ended := (inflight st - 1 = 0)\<rparr>)"
| recv_unsolvable: "\<not> ended st \<Longrightarrow> channel st = Unsolvable # q \<Longrightarrow>
    pstep task st (st\<lparr>channel := q, inflight := inflight st - 1, ended := (inflight st - 1 = 0)\<rparr>)"
| recv_error: "\<not> ended st \<Longrightarrow> channel st = Error e # q \<Longrightarrow>
    pstep task st (st\<lparr>channel := q, yielded := yielded st @ [YieldErr e], ended := True\<rparr>)"
| recv_panic: "\<not> ended st \<Longrightarrow> channel st = Panic # q \<Longrightarrow>
    pstep task st (st\<lparr>channel := q, yielded := yielded st @ [StreamPanic], ended := True\<rparr>)"
| send: "\<not> ended st \<Longrightarrow> running st = ts @ (c # cs) # us \<Longrightarrow>
    pstep task st (st\<lparr>channel := channel st @ [c], running := ts @ (if cs = [] then [] else [cs]) @ us\<rparr>)"

definition pinit :: "'v solution \<Rightarrow> ('e, 'v) pstate" where
  "pinit s = \<lparr>channel = [Partial s], running = [], inflight = 0, yielded = [], ended = False\<rparr>"

definition preach :: "('v solution \<Rightarrow> ('e, 'v) command list) \<Rightarrow> 'v solution \<Rightarrow> ('e, 'v) pstate \<Rightarrow> bool" where
  "preach task s st \<longleftrightarrow> (pstep task)\<^sup>*\<^sup>* (pinit s) st"

text \<open>The complete solutions below a partial one in the tree of tasks.\<close>

inductive completes :: "('v solution \<Rightarrow> ('e, 'v) command list) \<Rightarrow> 'v solution \<Rightarrow> u64 \<Rightarrow> 'v solution \<Rightarrow> bool"
  for task where
  here: "Complete sig s \<in> set (task p) \<Longrightarrow> completes task p sig s"
| below: "Partial p' \<in> set (task p) \<Longrightarrow> completes task p' sig s \<Longrightarrow> completes task p sig s"

fun is_partial :: "('e, 'v) command \<Rightarrow> bool" where
  "is_partial (Partial s) = True"
| "is_partial _ = False"

definition task_ok :: "('e, 'v) command list \<Rightarrow> bool" where
  "task_ok cs \<longleftrightarrow> cs \<noteq> [] \<and> \<not> is_partial (last cs) \<and> list_all is_partial (butlast cs)"

text \<open>
  While the loop runs, the counter is the number of running tasks plus the final commands in
  the channel, and the channel ends with a final command unless a task is running.
\<close>

definition protocol_ok :: "('e, 'v) pstate \<Rightarrow> bool" where
  "protocol_ok st \<longleftrightarrow>
     list_all task_ok (running st) \<and>
     inflight st = int (length (running st)) + int (length (filter (Not \<circ> is_partial) (channel st))) \<and>
     inflight st > 0 \<and>
     (running st = [] \<and> channel st \<noteq> [] \<longrightarrow> \<not> is_partial (last (channel st)))"

definition failed :: "('e, 'v) pstate \<Rightarrow> bool" where
  "failed st \<longleftrightarrow> (\<exists>e. YieldErr e \<in> set (yielded st)) \<or> StreamPanic \<in> set (yielded st)"

definition finished_ok :: "('e, 'v) pstate \<Rightarrow> bool" where
  "finished_ok st \<longleftrightarrow> channel st = [] \<and> running st = [] \<and> inflight st = 0"

definition pinv :: "'v solution \<Rightarrow> ('e, 'v) pstate \<Rightarrow> bool" where
  "pinv s st \<longleftrightarrow>
     st = pinit s \<or> (\<not> ended st \<and> \<not> failed st \<and> protocol_ok st) \<or>
     (ended st \<and> \<not> failed st \<and> finished_ok st) \<or> (ended st \<and> failed st)"

lemma recv_final:
  assumes "protocol_ok st" "channel st = c # q" "\<not> is_partial c"
  shows "inflight st - 1 = 0 \<Longrightarrow> q = [] \<and> running st = []"
    and "inflight st - 1 \<noteq> 0 \<Longrightarrow> inflight st > 1"
    and "inflight st = 1 + int (length (running st)) + int (length (filter (Not \<circ> is_partial) q))"
    and "running st = [] \<Longrightarrow> q \<noteq> [] \<Longrightarrow> \<not> is_partial (last q)"
proof -
  show 1: "inflight st = 1 + int (length (running st)) + int (length (filter (Not \<circ> is_partial) q))"
    and 2: "running st = [] \<Longrightarrow> q \<noteq> [] \<Longrightarrow> \<not> is_partial (last q)"
    using assms by (auto simp: protocol_ok_def)
  show "inflight st - 1 \<noteq> 0 \<Longrightarrow> inflight st > 1" using assms by (simp add: protocol_ok_def)
  show "q = [] \<and> running st = []" if "inflight st - 1 = 0"
  proof -
    have "int (length (running st)) = 0" "int (length (filter (Not \<circ> is_partial) q)) = 0"
      using 1 that by linarith+
    then have "running st = []" "filter (Not \<circ> is_partial) q = []" by simp_all
    with 2 show ?thesis by (cases q rule: rev_cases) (auto split: if_splits)
  qed
qed

lemma pinvI:
  "\<not> ended st \<Longrightarrow> \<not> failed st \<Longrightarrow> protocol_ok st \<Longrightarrow> pinv s st"
  "ended st \<Longrightarrow> \<not> failed st \<Longrightarrow> finished_ok st \<Longrightarrow> pinv s st"
  "ended st \<Longrightarrow> failed st \<Longrightarrow> pinv s st"
  by (simp_all add: pinv_def)

lemma pinv_live:
  assumes "pinv s st" "\<not> ended st" "st \<noteq> pinit s"
  shows "protocol_ok st" "\<not> failed st"
  using assms by (auto simp: pinv_def)

lemma recv_final_inv:
  assumes "protocol_ok st" "\<not> failed st" "channel st = c # q" "\<not> is_partial c"
    and "channel st' = q" "running st' = running st" "inflight st' = inflight st - 1"
    and "ended st' \<longleftrightarrow> inflight st - 1 = 0" "\<not> failed st'"
  shows "pinv s st'"
proof (cases "inflight st - 1 = 0")
  case True
  then show ?thesis using recv_final(1) [OF assms(1,3,4)] assms by (intro pinvI(2)) (simp_all add: finished_ok_def)
next
  case False
  have "list_all task_ok (running st)" using assms(1) by (simp add: protocol_ok_def)
  then show ?thesis
    using False recv_final(2,3,4) [OF assms(1,3,4)] assms
    by (intro pinvI(1)) (simp_all add: protocol_ok_def)
qed

lemma pinv_step:
  assumes step: "pstep task st st'" and inv: "pinv s st" and task: "\<And>s. task_ok (task s)"
  shows "pinv s st'"
  using step
proof cases
  case (recv_partial p q)
  show ?thesis
  proof (cases "st = pinit s")
    case True
    then show ?thesis using recv_partial task
      by (intro pinvI(1)) (simp_all add: pinit_def protocol_ok_def failed_def)
  next
    case False
    then have "protocol_ok st" "\<not> failed st" using inv recv_partial pinv_live by blast+
    then show ?thesis using recv_partial task
      by (intro pinvI(1)) (auto simp: protocol_ok_def failed_def)
  qed
next
  case (recv_complete sig p q)
  then have "protocol_ok st" "\<not> failed st" using inv pinv_live by (fastforce simp: pinit_def)+
  with recv_complete show ?thesis by (intro recv_final_inv [of st]) (auto simp: failed_def)
next
  case (recv_unsolvable q)
  then have "protocol_ok st" "\<not> failed st" using inv pinv_live by (fastforce simp: pinit_def)+
  with recv_unsolvable show ?thesis by (intro recv_final_inv [of st]) (auto simp: failed_def)
next
  case (recv_error e q)
  then show ?thesis by (intro pinvI(3)) (auto simp: failed_def)
next
  case (recv_panic q)
  then show ?thesis by (intro pinvI(3)) (auto simp: failed_def)
next
  case (send ts c cs us)
  then have "protocol_ok st" "\<not> failed st" using inv pinv_live by (fastforce simp: pinit_def)+
  moreover have "task_ok (c # cs)" using \<open>protocol_ok st\<close> send by (simp add: protocol_ok_def)
  ultimately show ?thesis using send
    by (intro pinvI(1)) (auto simp: protocol_ok_def failed_def task_ok_def split: if_splits)
qed

lemma preach_pinv:
  assumes "preach task s st" "\<And>s. task_ok (task s)"
  shows "pinv s st"
  using assms(1) unfolding preach_def
proof (induction rule: rtranclp_induct)
  case base
  then show ?case by (simp add: pinv_def)
next
  case (step st st')
  then show ?case using assms(2) by (blast intro: pinv_step)
qed

lemma preach_ended:
  assumes "preach task s st" "\<And>s. task_ok (task s)" "ended st" "\<not> failed st"
  shows "finished_ok st"
  using preach_pinv [OF assms(1,2)] assms(3,4) by (auto simp: pinv_def pinit_def)

lemma preach_progress:
  assumes "preach task s st" "\<And>s. task_ok (task s)" "\<not> ended st"
  shows "\<exists>st'. pstep task st st'"
proof -
  consider "st = pinit s" | "protocol_ok st"
    using preach_pinv [OF assms(1,2)] assms(3) by (auto simp: pinv_def)
  then show ?thesis
  proof cases
    case 1
    then have "channel st = Partial s # []" by (simp add: pinit_def)
    with assms(3) show ?thesis by (blast intro: pstep.recv_partial)
  next
    case 2
    show ?thesis
    proof (cases "running st")
      case Nil
      then obtain c q where "channel st = c # q"
        using 2 by (cases "channel st") (auto simp: protocol_ok_def)
      then show ?thesis using assms(3)
        by (cases c) (blast intro: pstep.intros)+
    next
      case (Cons t ts)
      then have "t \<noteq> []" using 2 by (simp add: protocol_ok_def task_ok_def)
      then obtain c cs where "running st = [] @ (c # cs) # ts" using Cons by (cases t) auto
      then show ?thesis using assms(3) by (blast intro: pstep.send)
    qed
  qed
qed

subsection \<open>What is yielded\<close>

fun cmd_completes ::
    "('v solution \<Rightarrow> ('e, 'v) command list) \<Rightarrow> ('e, 'v) command \<Rightarrow> u64 \<Rightarrow> 'v solution \<Rightarrow> bool" where
  "cmd_completes task (Complete sig' s') sig s \<longleftrightarrow> sig = sig' \<and> s = s'"
| "cmd_completes task (Partial p) sig s \<longleftrightarrow> completes task p sig s"
| "cmd_completes task _ sig s \<longleftrightarrow> False"

lemma completes_iff: "completes task p sig s \<longleftrightarrow> (\<exists>c \<in> set (task p). cmd_completes task c sig s)"
proof
  assume "completes task p sig s"
  then show "\<exists>c \<in> set (task p). cmd_completes task c sig s"
    by cases (metis cmd_completes.simps(1), metis cmd_completes.simps(2))
next
  assume "\<exists>c \<in> set (task p). cmd_completes task c sig s"
  then obtain c where c: "c \<in> set (task p)" "cmd_completes task c sig s" by blast
  show "completes task p sig s"
  proof (cases c)
    case (Partial p')
    with c show ?thesis by (auto intro: completes.below)
  next
    case (Complete sig' s')
    with c show ?thesis by (auto intro: completes.here)
  qed (use c in simp_all)
qed

definition pending :: "('e, 'v) pstate \<Rightarrow> ('e, 'v) command set" where
  "pending st = set (channel st) \<union> \<Union> (set ` set (running st))"

definition accounted ::
    "('v solution \<Rightarrow> ('e, 'v) command list) \<Rightarrow> ('e, 'v) pstate \<Rightarrow> u64 \<Rightarrow> 'v solution \<Rightarrow> bool" where
  "accounted task st sig s \<longleftrightarrow>
     Yield sig s \<in> set (yielded st) \<or> (\<exists>c \<in> pending st. cmd_completes task c sig s)"

lemma accounted_step: "pstep task st st' \<Longrightarrow> accounted task st' = accounted task st"
proof (induction rule: pstep.induct)
  case (recv_partial st s q)
  then show ?case by (auto simp: fun_eq_iff accounted_def pending_def completes_iff [of task s])
next
  case (send st ts c cs us)
  have "pending (st\<lparr>channel := channel st @ [c], running := ts @ (if cs = [] then [] else [cs]) @ us\<rparr>)
      = pending st"
    using send by (auto simp: pending_def)
  then show ?case by (simp add: fun_eq_iff accounted_def)
qed (auto simp: fun_eq_iff accounted_def pending_def)

lemma preach_accounted:
  assumes "preach task p st"
  shows "accounted task st = completes task p"
  using assms unfolding preach_def
proof (induction rule: rtranclp_induct)
  case base
  then show ?case by (simp add: fun_eq_iff accounted_def pending_def pinit_def)
qed (simp add: accounted_step)

lemma preach_yields:
  assumes "preach task p st" "\<And>s. task_ok (task s)" "ended st" "\<not> failed st"
  shows "Yield sig s \<in> set (yielded st) \<longleftrightarrow> completes task p sig s"
proof -
  have "pending st = {}" using preach_ended [OF assms] by (simp add: finished_ok_def pending_def)
  then show ?thesis
    using preach_accounted [OF assms(1)] by (simp add: accounted_def fun_eq_iff)
qed

subsection \<open>The sequential build is one schedule\<close>

lemma flush_task:
  "\<not> ended st \<Longrightarrow> running st = [cs] \<Longrightarrow> cs \<noteq> [] \<Longrightarrow>
     (pstep task)\<^sup>*\<^sup>* st (st\<lparr>channel := channel st @ cs, running := []\<rparr>)"
proof (induction cs arbitrary: st)
  case (Cons c cs)
  let ?st = "st\<lparr>channel := channel st @ [c], running := [] @ (if cs = [] then [] else [cs]) @ []\<rparr>"
  have 1: "pstep task st ?st" using Cons.prems by (intro pstep.send) simp_all
  show ?case
  proof (cases "cs = []")
    case True
    then show ?thesis using 1 by simp
  next
    case False
    then have "(pstep task)\<^sup>*\<^sup>* ?st (?st\<lparr>channel := channel ?st @ cs, running := []\<rparr>)"
      using Cons.prems by (intro Cons.IH) simp_all
    with 1 show ?thesis by (simp add: False converse_rtranclp_into_rtranclp)
  qed
qed simp

definition scheduled ::
    "('v solution \<Rightarrow> ('e, 'v) command list) \<Rightarrow> ('e, 'v) pstate \<Rightarrow> ('e, 'v) stream_item list \<Rightarrow> bool" where
  "scheduled task st items \<longleftrightarrow> (\<exists>st'. (pstep task)\<^sup>*\<^sup>* st st' \<and>
     (if StreamBlocked \<in> set items then \<not> ended st' \<and> channel st' = [] \<and> running st' = []
      else ended st' \<and> yielded st' = yielded st @ items))"

lemma scheduled_end:
  "pstep task st st1 \<Longrightarrow> ended st1 \<Longrightarrow> yielded st1 = yielded st @ items \<Longrightarrow> StreamBlocked \<notin> set items \<Longrightarrow>
     scheduled task st items"
  unfolding scheduled_def by (intro exI [of _ st1]) auto

lemma scheduled_steps:
  assumes "(pstep task)\<^sup>*\<^sup>* st st1" "scheduled task st1 items"
    and "yielded st1 = yielded st @ pre" "StreamBlocked \<notin> set pre"
  shows "scheduled task st (pre @ items)"
proof -
  obtain st' where "(pstep task)\<^sup>*\<^sup>* st1 st'"
    "if StreamBlocked \<in> set items then \<not> ended st' \<and> channel st' = [] \<and> running st' = []
     else ended st' \<and> yielded st' = yielded st1 @ items"
    using assms(2) by (auto simp: scheduled_def)
  then show ?thesis using assms unfolding scheduled_def
    by (intro exI [of _ st']) (auto intro: rtranclp_trans)
qed

lemma sequential_schedule:
  assumes "\<not> ended st" "running st = []" "\<And>s. try_complete_solution h mp idx it s \<noteq> []"
  shows "scheduled (try_complete_solution h mp idx it) st
           (solution_stream h mp idx it (channel st) (inflight st))"
  using assms
proof (induction h mp idx it "channel st" "inflight st" arbitrary: st rule: solution_stream.induct)
  case (1 h mp idx it)
  then show ?case by (auto simp: scheduled_def \<open>[] = channel st\<close> [symmetric])
next
  case (2 h mp idx it s q)
  let ?t = "try_complete_solution h mp idx it"
  note ch = \<open>Partial s # q = channel st\<close> [symmetric]
  define st1 where "st1 = st\<lparr>channel := q, running := running st @ [?t s], inflight := inflight st + 1,
                            ended := (inflight st + 1 = 0)\<rparr>"
  have step: "pstep ?t st st1"
    unfolding st1_def using 2 ch by (intro pstep.recv_partial) auto
  show ?case
  proof (cases "inflight st + 1 = 0")
    case True
    then show ?thesis using step by (intro scheduled_end [of _ st st1]) (auto simp: st1_def ch)
  next
    case False
    define st2 where "st2 = st1\<lparr>channel := channel st1 @ ?t s, running := []\<rparr>"
    have "(pstep ?t)\<^sup>*\<^sup>* st1 st2"
      unfolding st2_def using False "2.prems" by (intro flush_task) (simp_all add: st1_def)
    with step have "(pstep ?t)\<^sup>*\<^sup>* st st2" by simp
    moreover have "scheduled ?t st2 (solution_stream h mp idx it (channel st2) (inflight st2))"
      using False "2.prems" by (intro "2.hyps"(1)) (simp_all add: st2_def st1_def)
    ultimately show ?thesis
      using False scheduled_steps [of ?t st st2 _ "[]"] by (simp add: st2_def st1_def ch)
  qed
next
  case (3 h mp idx it sig s q)
  let ?t = "try_complete_solution h mp idx it"
  note ch = \<open>Complete sig s # q = channel st\<close> [symmetric]
  define st1 where "st1 = st\<lparr>channel := q, yielded := yielded st @ [Yield sig s],
                            inflight := inflight st - 1, ended := (inflight st - 1 = 0)\<rparr>"
  have step: "pstep ?t st st1" unfolding st1_def using 3 ch by (intro pstep.recv_complete) auto
  show ?case
  proof (cases "inflight st - 1 = 0")
    case True
    then show ?thesis using step by (intro scheduled_end [of _ st st1]) (auto simp: st1_def ch)
  next
    case False
    then have "scheduled ?t st1 (solution_stream h mp idx it (channel st1) (inflight st1))"
      using "3.prems" by (intro "3.hyps"(1)) (simp_all add: st1_def)
    then show ?thesis
      using False scheduled_steps [OF r_into_rtranclp [of "pstep ?t", OF step], of _ "[Yield sig s]"]
      by (simp add: st1_def ch)
  qed
next
  case (4 h mp idx it e q)
  let ?t = "try_complete_solution h mp idx it"
  note ch = \<open>Error e # q = channel st\<close> [symmetric]
  show ?case
    using pstep.recv_error [OF \<open>\<not> ended st\<close> ch, of ?t] by (rule scheduled_end) (simp_all add: ch)
next
  case (5 h mp idx it q)
  let ?t = "try_complete_solution h mp idx it"
  note ch = \<open>Panic # q = channel st\<close> [symmetric]
  show ?case
    using pstep.recv_panic [OF \<open>\<not> ended st\<close> ch, of ?t] by (rule scheduled_end) (simp_all add: ch)
next
  case (6 h mp idx it q)
  let ?t = "try_complete_solution h mp idx it"
  note ch = \<open>Unsolvable # q = channel st\<close> [symmetric]
  define st1 where "st1 = st\<lparr>channel := q, inflight := inflight st - 1, ended := (inflight st - 1 = 0)\<rparr>"
  have step: "pstep ?t st st1" unfolding st1_def using 6 ch by (intro pstep.recv_unsolvable) auto
  show ?case
  proof (cases "inflight st - 1 = 0")
    case True
    then show ?thesis using step by (intro scheduled_end [of _ st st1]) (auto simp: st1_def ch)
  next
    case False
    then have "scheduled ?t st1 (solution_stream h mp idx it (channel st1) (inflight st1))"
      using "6.prems" by (intro "6.hyps"(1)) (simp_all add: st1_def)
    then show ?thesis
      using False scheduled_steps [OF r_into_rtranclp [of "pstep ?t", OF step], of _ "[]"]
      by (simp add: st1_def ch)
  qed
qed

lemma try_complete_task_ok: "task_ok (try_complete_solution h mp idx it s)"
proof (induction h mp idx it s rule: try_complete_solution.induct)
  case (1 h mp idx it s)
  have prep: "task_ok (map Partial ps @ cs)" if "task_ok cs" for ps cs
    using that by (auto simp: task_ok_def butlast_append list_all_iff)
  show ?case
    unfolding try_complete_solution.simps [of h mp idx it s]
    by (auto simp: Let_def task_ok_def [of "[_]"] split: list.splits option.splits sum.splits
        task_failure.splits intro!: prep 1)
qed

lemma try_complete_nonempty: "try_complete_solution h mp idx it s \<noteq> []"
  using try_complete_task_ok [of h mp idx it s] by (simp add: task_ok_def)

subsection \<open>Every schedule ends\<close>

definition pweight :: "('e, 'v) pstate \<Rightarrow> nat multiset" where
  "pweight st = mset (map (\<lambda>c. 2 * command_weight c) (channel st)) +
     mset (map (\<lambda>c. Suc (2 * command_weight c)) (concat (running st)))"

lemma pstep_decreases:
  assumes "pstep task st st'" and "\<And>s p. Partial p \<in> set (task s) \<Longrightarrow> open_work p < open_work s"
  shows "(pweight st', pweight st) \<in> mult less_than"
  using assms(1)
proof cases
  case (recv_partial s q)
  have w: "command_weight c < Suc (open_work s)" if c: "c \<in> set (task s)" for c
  proof (cases c)
    case (Partial p)
    with c show ?thesis using assms(2) by simp
  qed simp_all
  let ?J = "{#2 * Suc (open_work s)#}" and ?K = "mset (map (\<lambda>c. Suc (2 * command_weight c)) (task s))"
  let ?I = "mset (map (\<lambda>c. 2 * command_weight c) q) +
            mset (map (\<lambda>c. Suc (2 * command_weight c)) (concat (running st)))"
  have "(?I + ?K, ?I + ?J) \<in> mult less_than"
    by (rule one_step_implies_mult) (use w in fastforce)+
  then show ?thesis using recv_partial by (simp add: pweight_def ac_simps)
next
  case (send ts c cs us)
  let ?w = "\<lambda>c. Suc (2 * command_weight c)"
  let ?I = "mset (map (\<lambda>c. 2 * command_weight c) (channel st)) +
            mset (map ?w (concat ts @ cs @ concat us))"
  have "(?I + {#2 * command_weight c#}, ?I + {#?w c#}) \<in> mult less_than"
    by (rule one_step_implies_mult) auto
  moreover have "concat (if cs = [] then [] else [cs]) = cs" by simp
  ultimately show ?thesis using send by (simp add: pweight_def ac_simps)
qed (use one_step_implies_mult [of "{#0#}" "{#}" less_than] in \<open>force simp: pweight_def\<close>)+

lemma pstep_wf:
  "wfP (\<lambda>st' st. pstep (try_complete_solution h mp idx it) st st')"
proof -
  have "wf (inv_image (mult less_than) pweight)" by (simp add: wf_mult)
  moreover have "{(st', st). pstep (try_complete_solution h mp idx it) st st'}
      \<subseteq> inv_image (mult less_than) pweight"
    using pstep_decreases [OF _ try_complete_partial_open_work] by auto
  ultimately show ?thesis unfolding wfp_def by (rule wf_subset)
qed

text \<open>
  C9. Parallel solver: nothing is lost. In every interleaving of the solution tasks, when the
  loop has ended without an error the channel is empty and no task is running, and the
  yielded solutions are exactly the complete solutions of the task tree of the initial one.
\<close>

theorem parallel_stream_exact:
  assumes "preach (try_complete_solution h mp idx it) s0 st" "ended st" "\<not> failed st"
  shows "channel st = [] \<and> running st = [] \<and> inflight st = 0 \<and>
    (\<forall>sig s. Yield sig s \<in> set (yielded st) \<longleftrightarrow>
             completes (try_complete_solution h mp idx it) s0 sig s)"
  using preach_ended [OF assms(1) try_complete_task_ok assms(2,3)]
    preach_yields [OF assms(1) try_complete_task_ok assms(2,3)]
  by (simp add: finished_ok_def)


lemma sequential_not_blocked:
  shows "StreamBlocked \<notin> set (create_solution_stream h mp idx it s0)"
    and "\<exists>st. preach (try_complete_solution h mp idx it) s0 st \<and> ended st \<and>
           yielded st = create_solution_stream h mp idx it s0"
proof -
  let ?t = "try_complete_solution h mp idx it" and ?items = "create_solution_stream h mp idx it s0"
  have "scheduled ?t (pinit s0) ?items"
    using sequential_schedule [of "pinit s0" h mp idx it, OF _ _ try_complete_nonempty]
    by (simp add: pinit_def create_solution_stream_def)
  then obtain st where st: "preach ?t s0 st"
    "if StreamBlocked \<in> set ?items then \<not> ended st \<and> channel st = [] \<and> running st = []
     else ended st \<and> yielded st = ?items"
    by (auto simp: scheduled_def preach_def pinit_def)
  show nb: "StreamBlocked \<notin> set ?items"
  proof
    assume "StreamBlocked \<in> set ?items"
    then have e: "\<not> ended st" "channel st = []" "running st = []" using st(2) by auto
    then obtain st' where "pstep ?t st st'"
      using preach_progress [OF st(1) try_complete_task_ok] by blast
    then show False by cases (use e in auto)
  qed
  then show "\<exists>st. preach ?t s0 st \<and> ended st \<and> yielded st = ?items" using st by auto
qed

end
