(* ===== verification/Path_Solver_Steps.thy ===== *)
theory Path_Solver_Steps
  imports Path_Solver
begin

text \<open>
  The steps of the path solver: what the two loops over the neighbours of a slot gather, the
  invariant of partial solutions, the queueing loops, the permutation loop, and the expansion
  of one slot that composes them.
\<close>

subsection \<open>What the index offers for a slot\<close>

definition adj_list :: "('e, 'v) index_ops \<Rightarrow> 'v element option \<Rightarrow> nat \<Rightarrow> solve_direction \<Rightarrow> 'v element list" where
  "adj_list idx el n d = (case adjacent idx el n d of Inr es \<Rightarrow> es | Inl _ \<Rightarrow> [])"

definition offers ::
    "'x match_path \<Rightarrow> ('e, 'v) index_ops \<Rightarrow> 'v element option \<Rightarrow> nat \<Rightarrow> solve_direction \<Rightarrow> 'v element option list"
  where
  "offers mp idx el n d =
     map Some (adj_list idx el n d) @
     (if optional (slots mp ! n) \<and> adj_list idx el n d = [] then [None] else [])"

definition neighbours :: "'x match_path \<Rightarrow> nat \<Rightarrow> nat set" where
  "neighbours mp i = set (out_slots (slots mp ! i)) \<union> set (in_slots (slots mp ! i))"

definition choices ::
    "'x match_path \<Rightarrow> ('e, 'v) index_ops \<Rightarrow> nat \<Rightarrow> 'v element option \<Rightarrow> nat \<Rightarrow> 'v element option set" where
  "choices mp idx i el n =
     (if n \<in> set (out_slots (slots mp ! i)) then set (offers mp idx el n Outward) else {}) \<union>
     (if n \<in> set (in_slots (slots mp ! i)) then set (offers mp idx el n Inward) else {})"

text \<open>The index answers without an error.\<close>

definition index_total :: "('e, 'v) index_ops \<Rightarrow> bool" where
  "index_total idx \<longleftrightarrow> (\<forall>el n d. \<exists>es. adjacent idx el n d = Inr es)"

lemma gather_Cons:
  assumes "gather mp idx s el d (k # ns) alt = Inr alt'" "\<not> is_slot_solved s k"
  shows "k < length (slots mp)"
    and "gather mp idx s el d ns
           (alt(k \<mapsto> (case alt k of Some vs \<Rightarrow> vs | None \<Rightarrow> []) @ offers mp idx el k d)) = Inr alt'"
  using assms by (auto simp: offers_def adj_list_def split: sum.splits if_splits)

lemma gather_frame:
  assumes "gather mp idx s el d ns alt = Inr alt'" "is_slot_solved s n \<or> n \<notin> set ns"
  shows "alt' n = alt n"
  using assms
proof (induction ns arbitrary: alt)
  case (Cons k ns)
  show ?case
  proof (cases "is_slot_solved s k")
    case True
    then show ?thesis using Cons by auto
  next
    case False
    then show ?thesis using Cons.IH [OF gather_Cons(2) [OF Cons.prems(1) False]] Cons.prems(2) by auto
  qed
qed simp

lemma gather_offers:
  assumes "gather mp idx s el d ns alt = Inr alt'" "n \<in> set ns" "\<not> is_slot_solved s n"
  shows "\<exists>vs. alt' n = Some vs \<and>
    set vs = (case alt n of Some ws \<Rightarrow> set ws | None \<Rightarrow> {}) \<union> set (offers mp idx el n d)"
  using assms
proof (induction ns arbitrary: alt)
  case (Cons k ns)
  show ?case
  proof (cases "is_slot_solved s k")
    case True
    then show ?thesis using Cons by auto
  next
    case False
    note g = gather_Cons(2) [OF Cons.prems(1) False]
    show ?thesis
    proof (cases "n \<in> set ns")
      case True
      from Cons.IH [OF g this Cons.prems(3)] show ?thesis
        by (cases "n = k"; cases "alt n"; force)
    next
      case nin: False
      then have "n = k" using Cons.prems(2) by simp
      then show ?thesis using gather_frame [OF g] nin by (auto split: option.splits)
    qed
  qed
qed simp

lemma gather_defined:
  assumes "index_total idx" "set ns \<subseteq> {..<length (slots mp)}"
  shows "\<exists>alt'. gather mp idx s el d ns alt = Inr alt'"
  using assms(2)
proof (induction ns arbitrary: alt)
  case (Cons k ns)
  obtain es where "adjacent idx el k d = Inr es" using assms(1) unfolding index_total_def by blast
  with Cons show ?case by simp
qed simp

lemma gather_no_panic:
  assumes "set ns \<subseteq> {..<length (slots mp)}"
  shows "gather mp idx s el d ns alt \<noteq> Inl IndexOutOfBounds"
  using assms by (induction ns arbitrary: alt) (simp_all split: sum.split)

text \<open>The alternatives after both loops.\<close>

definition alt_ok ::
    "'x match_path \<Rightarrow> ('e, 'v) index_ops \<Rightarrow> nat \<Rightarrow> 'v element option \<Rightarrow> 'v solution \<Rightarrow> 'v alternatives \<Rightarrow> bool" where
  "alt_ok mp idx i el s alt \<longleftrightarrow>
     dom alt = {n \<in> neighbours mp i. \<not> is_slot_solved s n} \<and>
     (\<forall>n vs. alt n = Some vs \<longrightarrow> set vs = choices mp idx i el n)"

lemma gather_alt_ok:
  assumes "gather mp idx s el Outward (out_slots (slots mp ! i)) Map.empty = Inr alt1"
    and "gather mp idx s el Inward (in_slots (slots mp ! i)) alt1 = Inr alt"
  shows "alt_ok mp idx i el s alt"
proof -
  note out = gather_frame [OF assms(1)] gather_offers [OF assms(1)]
    and in' = gather_frame [OF assms(2)] gather_offers [OF assms(2)]
  let ?O = "set (out_slots (slots mp ! i))" and ?I = "set (in_slots (slots mp ! i))"
  have none: "alt n = None" if "is_slot_solved s n \<or> n \<notin> neighbours mp i" for n
    using that out(1) [of n] in'(1) [of n] by (auto simp: neighbours_def)
  have some: "\<exists>vs. alt n = Some vs \<and> set vs = choices mp idx i el n"
    if n: "\<not> is_slot_solved s n" "n \<in> neighbours mp i" for n
  proof (cases "n \<in> ?O")
    case True
    then obtain vs where "alt1 n = Some vs" "set vs = set (offers mp idx el n Outward)"
      using out(2) [of n] n by auto
    then show ?thesis
      using True in'(1) [of n] in'(2) [of n] n by (cases "n \<in> ?I") (auto simp: choices_def)
  next
    case False
    then have "alt1 n = None" "n \<in> ?I" using out(1) [of n] n by (auto simp: neighbours_def)
    then show ?thesis using False in'(2) [of n] n by (auto simp: choices_def)
  qed
  show ?thesis unfolding alt_ok_def
  proof (intro conjI allI impI)
    have "n \<in> dom alt \<longleftrightarrow> n \<in> neighbours mp i \<and> \<not> is_slot_solved s n" for n
      using none [of n] some [of n] by (cases "is_slot_solved s n \<or> n \<notin> neighbours mp i") auto
    then show "dom alt = {n \<in> neighbours mp i. \<not> is_slot_solved s n}" by blast
    show "set vs = choices mp idx i el n" if "alt n = Some vs" for n vs
      using none [of n] some [of n] that by (cases "is_slot_solved s n \<or> n \<notin> neighbours mp i") auto
  qed
qed

subsection \<open>The invariant of solutions\<close>

definition bound :: "'v solution \<Rightarrow> nat \<Rightarrow> 'v element option \<Rightarrow> bool" where
  "bound s n v \<longleftrightarrow> bt_get (solved_slots s) n = Some v \<or> (n, v) \<in> set (slot_cursors s)"

text \<open>A slot's element is the anchor's, or one the index offers from a solved slot.\<close>

definition justified ::
    "'x match_path \<Rightarrow> ('e, 'v) index_ops \<Rightarrow> nat \<Rightarrow> 'v element \<Rightarrow> 'v solution \<Rightarrow> nat \<Rightarrow> 'v element option \<Rightarrow> bool"
  where
  "justified mp idx anchor a s n v \<longleftrightarrow>
     n = anchor \<and> v = Some a \<or>
     (\<exists>i w. i < length (slots mp) \<and> bt_get (solved_slots s) i = Some w \<and>
            n \<in> neighbours mp i \<and> v \<in> choices mp idx i w n)"

definition frontier_ok :: "'x match_path \<Rightarrow> 'v solution \<Rightarrow> bool" where
  "frontier_ok mp s \<longleftrightarrow>
     total_slots s = length (slots mp) \<and> length (queued_slots s) = total_slots s \<and>
     bt_ok (solved_slots s) \<and> dom (bt_get (solved_slots s)) \<subseteq> {..<total_slots s} \<and>
     distinct (map fst (slot_cursors s)) \<and> fst ` set (slot_cursors s) \<subseteq> {..<total_slots s} \<and>
     (\<forall>n < total_slots s. queued_slots s ! n \<longleftrightarrow> (\<exists>v. bound s n v)) \<and>
     dom (bt_get (solved_slots s)) \<inter> fst ` set (slot_cursors s) = {}"

definition sol_ok ::
    "'x match_path \<Rightarrow> ('e, 'v) index_ops \<Rightarrow> nat \<Rightarrow> 'v element \<Rightarrow> 'v solution \<Rightarrow> bool" where
  "sol_ok mp idx anchor a s \<longleftrightarrow>
     frontier_ok mp s \<and> solution_signature s = None \<and>
     dom (bt_get (solved_slots s)) \<noteq> {..<total_slots s} \<and>
     (\<forall>n v. bound s n v \<longrightarrow> justified mp idx anchor a s n v) \<and>
     (\<exists>v. bound s anchor v) \<and> (\<forall>v. bound s anchor v \<longrightarrow> v = Some a)"

lemma enqueue_cases:
  assumes "n < length (queued_slots s)"
  obtains "queued_slots s ! n" "enqueue_slot n v s = Some s"
  | "\<not> queued_slots s ! n"
    "enqueue_slot n v s = Some (s\<lparr>slot_cursors := slot_cursors s @ [(n, v)],
                                  queued_slots := (queued_slots s)[n := True]\<rparr>)"
  using assms by (cases "queued_slots s ! n") (auto simp: enqueue_slot_def)

text \<open>What queueing a slot does to a solution in good order.\<close>

definition queued_from :: "'v solution \<Rightarrow> 'v solution \<Rightarrow> bool" where
  "queued_from s s' \<longleftrightarrow>
     solved_slots s' = solved_slots s \<and> total_slots s' = total_slots s \<and>
     solution_signature s' = solution_signature s \<and> anchor_slot s' = anchor_slot s \<and>
     (\<forall>n v. bound s n v \<longrightarrow> bound s' n v)"

lemma queued_from_refl [simp]: "queued_from s s"
  by (simp add: queued_from_def)

lemma queued_from_trans: "queued_from s s' \<Longrightarrow> queued_from s' s'' \<Longrightarrow> queued_from s s''"
  by (auto simp: queued_from_def)

lemma enqueue_frontier:
  assumes "frontier_ok mp s" "n < length (slots mp)"
  obtains s' where "enqueue_slot n v s = Some s'" "frontier_ok mp s'" "queued_from s s'"
    "\<exists>w. bound s' n w"
    "\<And>k w. bound s' k w \<longleftrightarrow> bound s k w \<or> k = n \<and> w = v \<and> (\<nexists>u. bound s n u)"
proof -
  have n: "n < length (queued_slots s)" using assms by (simp add: frontier_ok_def)
  then show thesis
  proof (cases rule: enqueue_cases [where v = v])
    case 1
    then show thesis using that [of s] assms n by (auto simp: frontier_ok_def)
  next
    case 2
    let ?s = "s\<lparr>slot_cursors := slot_cursors s @ [(n, v)], queued_slots := (queued_slots s)[n := True]\<rparr>"
    have nb: "\<nexists>u. bound s n u" using assms 2(1) n by (auto simp: frontier_ok_def)
    then have fresh: "n \<notin> dom (bt_get (solved_slots s))" "n \<notin> fst ` set (slot_cursors s)"
      by (auto simp: bound_def)
    have b: "bound ?s k w \<longleftrightarrow> bound s k w \<or> k = n \<and> w = v" for k w
      by (auto simp: bound_def)
    have "frontier_ok mp ?s"
      using assms n fresh b by (auto simp: frontier_ok_def nth_list_update)
    moreover have "queued_from s ?s" by (simp add: queued_from_def b)
    ultimately show thesis using that [of ?s] 2(2) b nb by auto
  qed
qed

subsection \<open>The loops of the body\<close>

text \<open>Both queueing loops queue a list of slots with elements.\<close>

fun queue_list :: "(nat \<times> 'v element option) list \<Rightarrow> 'v solution \<Rightarrow> 'v solution option" where
  "queue_list [] s = Some s"
| "queue_list ((n, v) # xs) s =
     (case enqueue_slot n v s of Some s' \<Rightarrow> queue_list xs s' | None \<Rightarrow> None)"

definition queued_with :: "(nat \<times> 'v element option) list \<Rightarrow> 'v solution \<Rightarrow> 'v solution \<Rightarrow> bool" where
  "queued_with xs s s' \<longleftrightarrow>
     queued_from s s' \<and>
     (\<forall>k w. bound s' k w \<longrightarrow> bound s k w \<or> (k, w) \<in> set xs \<and> (\<nexists>u. bound s k u)) \<and>
     (\<forall>k \<in> fst ` set xs. \<exists>u. bound s' k u)"

lemma queue_list_spec:
  assumes "frontier_ok mp s" "fst ` set xs \<subseteq> {..<length (slots mp)}"
  shows "\<exists>s'. queue_list xs s = Some s' \<and> frontier_ok mp s' \<and> queued_with xs s s'"
  using assms
proof (induction xs arbitrary: s)
  case Nil
  then show ?case by (simp add: queued_with_def)
next
  case (Cons x xs)
  obtain n v where x: "x = (n, v)" by (cases x)
  obtain s1 where s1: "enqueue_slot n v s = Some s1" "frontier_ok mp s1" "queued_from s s1"
      "\<exists>w. bound s1 n w"
      "\<And>k w. bound s1 k w \<longleftrightarrow> bound s k w \<or> k = n \<and> w = v \<and> (\<nexists>u. bound s n u)"
    using enqueue_frontier [of mp s n v] Cons.prems by (auto simp: x)
  obtain s' where s': "queue_list xs s1 = Some s'" "frontier_ok mp s'" "queued_with xs s1 s'"
    using Cons.IH [OF s1(2)] Cons.prems by auto
  have "queued_with (x # xs) s s'"
    unfolding queued_with_def
  proof (intro conjI allI impI ballI)
    show "queued_from s s'" using s1(3) s'(3) queued_from_trans by (auto simp: queued_with_def)
    show "bound s k w \<or> (k, w) \<in> set (x # xs) \<and> (\<nexists>u. bound s k u)" if b: "bound s' k w" for k w
    proof -
      consider "bound s1 k w" | "(k, w) \<in> set xs" "\<nexists>u. bound s1 k u"
        using b s'(3) unfolding queued_with_def by blast
      then show ?thesis
      proof cases
        case 1
        then show ?thesis by (auto simp: s1(5) x)
      next
        case 2
        then have "\<nexists>u. bound s k u" by (simp add: s1(5))
        with 2 show ?thesis by simp
      qed
    qed
    show "\<exists>u. bound s' k u" if "k \<in> fst ` set (x # xs)" for k
      using that s'(3) s1(4) by (auto simp: queued_with_def queued_from_def x)
  qed
  then show ?case using s1(1) s'(1,2) by (simp add: x)
qed

definition singles :: "'v alternatives \<Rightarrow> nat list \<Rightarrow> (nat \<times> 'v element option) list" where
  "singles alt ns = concat (map (\<lambda>n. case alt n of Some [v] \<Rightarrow> [(n, v)] | _ \<Rightarrow> []) ns)"

definition pointers_of :: "'v alternatives \<Rightarrow> nat list \<Rightarrow> (nat, nat) btree \<Rightarrow> (nat, nat) btree" where
  "pointers_of alt ns ps = fold (\<lambda>n ps. if alt_len alt n \<ge> 2 then bt_insert n 0 ps else ps) ns ps"

lemma queue_single_list:
  "queue_single alt ns (s, ps) =
     map_option (\<lambda>s'. (s', pointers_of alt ns ps)) (queue_list (singles alt ns) s)"
  by (induction alt ns "(s, ps)" arbitrary: s ps rule: queue_single.induct)
    (simp_all add: singles_def pointers_of_def alt_len_def split: option.split list.split)

lemma singles_set: "(k, w) \<in> set (singles alt ns) \<longleftrightarrow> k \<in> set ns \<and> alt k = Some [w]"
  by (auto simp: singles_def split: option.splits list.splits)

lemma pointers_of_ok: "bt_ok ps \<Longrightarrow> bt_ok (pointers_of alt ns ps)"
  unfolding pointers_of_def by (rule fold_invariant [where P = bt_ok]) auto

lemma pointers_of_get:
  "bt_get (pointers_of alt ns ps) k =
     (if k \<in> set ns \<and> alt_len alt k \<ge> 2 then Some 0 else bt_get ps k)"
  unfolding pointers_of_def by (induction ns arbitrary: ps) (auto simp: bt_simps)

definition picks :: "'v alternatives \<Rightarrow> (nat \<times> nat) list \<Rightarrow> (nat \<times> 'v element option) list" where
  "picks alt ps = concat (map (\<lambda>(n, p). case alt n of
       Some vs \<Rightarrow> if p < length vs then [(n, vs ! p)] else [] | None \<Rightarrow> []) ps)"

lemma queue_permutation_list:
  "fst ` set ps \<subseteq> dom alt \<Longrightarrow> queue_permutation alt ps s = queue_list (picks alt ps) s"
  by (induction alt ps s rule: queue_permutation.induct)
    (auto simp: picks_def split: option.split)

lemma picks_set:
  "(k, w) \<in> set (picks alt ps) \<longleftrightarrow> (\<exists>p vs. (k, p) \<in> set ps \<and> alt k = Some vs \<and> p < length vs \<and> w = vs ! p)"
  by (force simp: picks_def split: option.splits if_splits)

subsection \<open>The odometer\<close>

definition digits_ok :: "(nat \<Rightarrow> nat) \<Rightarrow> (nat \<times> nat) list \<Rightarrow> bool" where
  "digits_ok len ps \<longleftrightarrow> (\<forall>(n, p) \<in> set ps. p < len n)"

lemma digits_ok_Cons [simp]: "digits_ok len ((n, p) # ps) \<longleftrightarrow> p < len n \<and> digits_ok len ps"
  by (auto simp: digits_ok_def)

lemma digits_ok_Nil [simp]: "digits_ok len []"
  by (simp add: digits_ok_def)

lemma advance_keys: "advance len ps = Some ps' \<Longrightarrow> map fst ps' = map fst ps"
  by (induction len ps arbitrary: ps' rule: advance.induct) (auto split: if_splits)

lemma advance_digits: "advance len ps = Some ps' \<Longrightarrow> digits_ok len ps \<Longrightarrow> digits_ok len ps'"
  by (induction len ps arbitrary: ps' rule: advance.induct) (auto split: if_splits)

lemma advance_exact:
  assumes "digits_ok len ps"
  shows "case advance len ps of None \<Rightarrow> remaining len ps = 0
         | Some ps' \<Rightarrow> remaining len ps = Suc (remaining len ps')"
  using assms
proof (induction len ps rule: advance.induct)
  case (2 len n p ps)
  show ?case
  proof (cases "p < len n - 1")
    case True
    then show ?thesis by simp
  next
    case False
    then have p: "p = len n - 1" "len n > 0" using "2.prems" by auto
    then show ?thesis using "2.IH" [OF False] "2.prems"
      by (cases "advance len ps") (auto simp: max_def algebra_simps)
  qed
qed simp

lemma remaining_inj:
  assumes "digits_ok len ps" "digits_ok len qs" "map fst ps = map fst qs"
    and "remaining len ps = remaining len qs"
  shows "ps = qs"
  using assms
proof (induction ps arbitrary: qs)
  case (Cons x ps)
  obtain n p where x: "x = (n, p)" by (cases x)
  obtain q qs' where qs: "qs = (n, q) # qs'" using Cons.prems(3) x by (cases qs) auto
  have lt: "p < len n" "q < len n" using Cons.prems by (simp_all add: x qs)
  let ?L = "len n"
  have L: "max 1 ?L = ?L" using lt by simp
  have eq: "(?L - 1 - p) + ?L * remaining len ps = (?L - 1 - q) + ?L * remaining len qs'"
    using Cons.prems(4) by (simp only: x qs remaining.simps L)
  have "(?L - 1 - p) mod ?L = (?L - 1 - q) mod ?L" using arg_cong [OF eq, of "\<lambda>k. k mod ?L"] by simp
  then have digit: "?L - 1 - p = ?L - 1 - q" using lt by simp
  then have "p = q" using lt by linarith
  moreover have "?L * remaining len ps = ?L * remaining len qs'" using eq digit by linarith
  then have "remaining len ps = remaining len qs'" using lt by simp
  ultimately show ?case using Cons.IH [of qs'] Cons.prems by (simp add: x qs)
qed simp

lemma permutations_step:
  "set (permutations len ps) =
     insert ps (case advance len ps of None \<Rightarrow> {} | Some ps' \<Rightarrow> set (permutations len ps'))"
  by (subst permutations.simps) (simp split: option.split)

lemma permutations_self: "ps \<in> set (permutations len ps)"
  by (simp add: permutations_step [of len ps])

lemma permutations_mem:
  assumes "digits_ok len ps" "digits_ok len qs" "map fst ps = map fst qs"
    and "remaining len qs \<le> remaining len ps"
  shows "qs \<in> set (permutations len ps)"
  using assms
proof (induction "remaining len ps" arbitrary: ps)
  case 0
  then have "remaining len ps = remaining len qs" by linarith
  with "0.prems" have "ps = qs" by (intro remaining_inj)
  then show ?case by (simp only: permutations_self)
next
  case (Suc r)
  obtain ps' where ps': "advance len ps = Some ps'" "r = remaining len ps'"
    using advance_exact [OF Suc.prems(1)] Suc.hyps(2) by (cases "advance len ps") simp_all
  show ?case
  proof (cases "remaining len qs = remaining len ps")
    case True
    with Suc.prems have "ps = qs" by (intro remaining_inj [of len]) (assumption | rule sym)+
    then show ?thesis by (simp only: permutations_self)
  next
    case False
    then have "remaining len qs \<le> remaining len ps'" using Suc.prems(4) Suc.hyps(2) ps'(2) by linarith
    moreover have "map fst ps' = map fst qs" using advance_keys [OF ps'(1)] Suc.prems(3) by simp
    ultimately have "qs \<in> set (permutations len ps')"
      using Suc.hyps(1) [OF ps'(2)] advance_digits [OF ps'(1) Suc.prems(1)] Suc.prems(2) by blast
    then show ?thesis by (simp only: permutations_step [of len ps] ps'(1) option.case insert_iff simp_thms)
  qed
qed

lemma permutations_keys:
  "qs \<in> set (permutations len ps) \<Longrightarrow> map fst qs = map fst ps \<and> (digits_ok len ps \<longrightarrow> digits_ok len qs) \<and>
     remaining len qs \<le> remaining len ps"
proof (induction "remaining len ps" arbitrary: ps rule: less_induct)
  case less
  show ?case
  proof (cases "qs = ps")
    case False
    then obtain ps' where ps': "advance len ps = Some ps'" "qs \<in> set (permutations len ps')"
      using less.prems by (auto simp: permutations_step [of len ps] split: option.splits)
    then show ?thesis
      using less.hyps [OF advance_remaining [OF ps'(1)] ps'(2)] advance_keys [OF ps'(1)]
        advance_digits [OF ps'(1)] advance_remaining [OF ps'(1)] by simp
  qed simp
qed

lemma permutations_distinct: "distinct (permutations len ps)"
proof (induction len ps rule: permutations.induct)
  case (1 len ps)
  show ?case
  proof (cases "advance len ps")
    case None
    then show ?thesis by (simp add: permutations.simps [of len ps])
  next
    case (Some ps')
    have "ps \<notin> set (permutations len ps')"
      using permutations_keys [of ps len ps'] advance_remaining [OF Some] by force
    then show ?thesis using 1 Some by (simp add: permutations.simps [of len ps])
  qed
qed

lemma remaining_zero_max:
  assumes "digits_ok len qs" "map fst qs = ns"
  shows "remaining len qs \<le> remaining len (map (\<lambda>n. (n, 0)) ns)"
  using assms
proof (induction qs arbitrary: ns)
  case (Cons x qs)
  obtain n p where x: "x = (n, p)" by (cases x)
  have "remaining len qs \<le> remaining len (map (\<lambda>n. (n, 0)) (map fst qs))"
    using Cons by (simp add: x)
  then have "max 1 (len n) * remaining len qs \<le> max 1 (len n) * remaining len (map (\<lambda>n. (n, 0)) (map fst qs))"
    by (rule mult_le_mono2)
  then have "remaining len ((n, p) # qs) \<le> remaining len ((n, 0) # map (\<lambda>n. (n, 0)) (map fst qs))"
    unfolding remaining.simps by linarith
  moreover have "ns = n # map fst qs" using Cons.prems(2) x by simp
  ultimately show ?case by (simp only: x list.map)
qed simp

lemma permutations_zero:
  assumes "\<And>n. n \<in> set ns \<Longrightarrow> len n > 0"
  shows "set (permutations len (map (\<lambda>n. (n, 0)) ns)) = {qs. map fst qs = ns \<and> digits_ok len qs}"
proof -
  have 0: "digits_ok len (map (\<lambda>n. (n, 0)) ns)" using assms by (auto simp: digits_ok_def)
  have "qs \<in> set (permutations len (map (\<lambda>n. (n, 0)) ns))" if "map fst qs = ns" "digits_ok len qs" for qs
    using permutations_mem [OF 0 that(2)] remaining_zero_max [OF that(2,1)] that by (simp add: comp_def)
  moreover have "map fst qs = ns \<and> digits_ok len qs"
    if "qs \<in> set (permutations len (map (\<lambda>n. (n, 0)) ns))" for qs
    using permutations_keys [OF that] 0 by (simp add: comp_def)
  ultimately show ?thesis by blast
qed

text \<open>
  C13. The permutation loop. Starting from all pointers at zero it visits every combination of
  one alternative per slot, each exactly once.
\<close>

theorem permutations_exact:
  assumes "\<And>n. n \<in> set ns \<Longrightarrow> len n > 0"
  shows "distinct (permutations len (map (\<lambda>n. (n, 0)) ns)) \<and>
    set (permutations len (map (\<lambda>n. (n, 0)) ns)) = {qs. map fst qs = ns \<and> (\<forall>(n, p) \<in> set qs. p < len n)}"
  using permutations_zero [OF assms] by (simp add: permutations_distinct digits_ok_def)

theorem permutations_exact_witness:
  "set (permutations (\<lambda>n. n + 1) [(1, 0), (2, 0)]) = {qs. map fst qs = [1, 2] \<and> (\<forall>(n, p) \<in> set qs. p < n + 1)} \<and>
   length (permutations (\<lambda>n. n + 1) [(1, 0), (2, 0)]) = 6"
  using permutations_exact [of "[1, 2]" "\<lambda>n. n + 1"] by (simp add: permutations.simps)

subsection \<open>One expansion\<close>

lemma pointers_zero:
  assumes "bt_ok ps" "\<And>k v. bt_get ps k = Some v \<Longrightarrow> v = (0::nat)"
  shows "ps = map (\<lambda>n. (n, 0)) (map fst ps)"
  using assms bt_get_mem [OF assms(1)] by (auto intro!: nth_equalityI) (metis nth_mem prod.collapse)

text \<open>
  The alternatives an expansion of slot \<open>i\<close> works with, the slots it queues at once and the
  slots it branches over.
\<close>

definition expansion ::
    "'x match_path \<Rightarrow> ('e, 'v) index_ops \<Rightarrow> nat iter \<Rightarrow> nat \<Rightarrow> 'v element option \<Rightarrow> 'v solution \<Rightarrow>
     'v solution list \<Rightarrow> 'v solution \<Rightarrow> bool" where
  "expansion mp idx it i el s ps s' \<longleftrightarrow>
     (\<exists>alt ns. alt_ok mp idx i el s alt \<and>
        frontier_ok mp s' \<and> queued_with (singles alt (it (dom alt))) s s' \<and>
        set ns = {k \<in> dom alt. alt_len alt k \<ge> 2} \<and>
        (if ns = [] then ps = []
         else (\<forall>p \<in> set ps. \<exists>qs. map fst qs = ns \<and> digits_ok (alt_len alt) qs \<and>
                  frontier_ok mp p \<and> queued_with (picks alt qs) s' p) \<and>
              (\<forall>qs. map fst qs = ns \<and> digits_ok (alt_len alt) qs \<longrightarrow>
                  (\<exists>p \<in> set ps. frontier_ok mp p \<and> queued_with (picks alt qs) s' p))))"

lemma queue_permutations_defined:
  "(\<forall>p \<in> set ps. \<exists>s'. queue_permutation alt p s = Some s') \<Longrightarrow> \<exists>ss. queue_permutations alt s ps = Some ss"
  by (induction ps) auto

lemma finite_neighbours: "finite (neighbours mp i)"
  by (simp add: neighbours_def)

lemma expand_ok:
  assumes wf: "slots_wf (slots mp)" and it: "iter_ok it" and s: "frontier_ok mp s" and i: "i < length (slots mp)"
    and g1: "gather mp idx s el Outward (out_slots (slots mp ! i)) Map.empty = Inr alt1"
    and g2: "gather mp idx s el Inward (in_slots (slots mp ! i)) alt1 = Inr alt"
  shows "\<exists>ps s'. expand mp idx it s i el = Inr (ps, s') \<and> expansion mp idx it i el s ps s'"
proof -
  have alt: "alt_ok mp idx i el s alt" by (rule gather_alt_ok [OF g1 g2])
  have sub: "dom alt \<subseteq> {..<length (slots mp)}"
    using alt slots_wf_range [OF wf i] by (auto simp: alt_ok_def neighbours_def)
  then have "finite (dom alt)" using finite_subset by blast
  then have itd: "set (it (dom alt)) = dom alt" using it by (simp add: iter_ok_def)
  have "fst ` set (singles alt (it (dom alt))) \<subseteq> dom alt" by (auto simp: singles_set itd)
  then have "fst ` set (singles alt (it (dom alt))) \<subseteq> {..<length (slots mp)}" using sub by blast
  then obtain s' where s': "queue_list (singles alt (it (dom alt))) s = Some s'" "frontier_ok mp s'"
      "queued_with (singles alt (it (dom alt))) s s'"
    using queue_list_spec [OF s] by blast
  define ptr where "ptr = pointers_of alt (it (dom alt)) []"
  define ns where "ns = map fst ptr"
  have ptr0: "ptr = map (\<lambda>n. (n, 0)) ns"
    unfolding ns_def by (rule pointers_zero) (auto simp: ptr_def pointers_of_ok pointers_of_get split: if_splits)
  have "k \<in> dom (bt_get ptr) \<longleftrightarrow> k \<in> dom alt \<and> alt_len alt k \<ge> 2" for k
    unfolding ptr_def domIff [of _ "bt_get _"] pointers_of_get itd by simp
  then have "dom (bt_get ptr) = {k \<in> dom alt. alt_len alt k \<ge> 2}" by blast
  then have ns: "set ns = {k \<in> dom alt. alt_len alt k \<ge> 2}"
    by (simp add: ns_def dom_map_of_conv_image_fst)
  have perm: "set (permutations (alt_len alt) ptr) = {qs. map fst qs = ns \<and> digits_ok (alt_len alt) qs}"
    unfolding ptr0 by (rule permutations_zero) (auto simp: ns)
  have run: "\<exists>p. queue_permutation alt qs s' = Some p \<and> frontier_ok mp p \<and> queued_with (picks alt qs) s' p"
    if "map fst qs = ns" for qs
  proof -
    have "fst ` set qs = set ns" using that by (metis list.set_map)
    then have "fst ` set qs \<subseteq> dom alt" using ns by auto
    moreover have "fst ` set (picks alt qs) \<subseteq> dom alt" by (auto simp: picks_set)
    then have "fst ` set (picks alt qs) \<subseteq> {..<length (slots mp)}" using sub by blast
    ultimately show ?thesis
      using queue_list_spec [OF s'(2), of "picks alt qs"] by (simp add: queue_permutation_list)
  qed
  have single: "queue_single alt (it (dom alt)) (s, []) = Some (s', ptr)"
    by (simp add: queue_single_list s' ptr_def)
  show ?thesis
  proof (cases "ptr = []")
    case True
    then have "expand mp idx it s i el = Inr ([], s')" by (simp add: expand_def i g1 g2 single)
    moreover have "expansion mp idx it i el s [] s'"
      unfolding expansion_def using alt s' ns True by (intro exI [of _ alt] exI [of _ "[]"]) (simp add: ns_def)
    ultimately show ?thesis by blast
  next
    case False
    obtain ps where ps: "queue_permutations alt s' (permutations (alt_len alt) ptr) = Some ps"
      using queue_permutations_defined [of "permutations (alt_len alt) ptr" alt s'] run perm by auto
    have set: "set ps = {p. \<exists>qs. map fst qs = ns \<and> digits_ok (alt_len alt) qs \<and> queue_permutation alt qs s' = Some p}"
      using queue_permutations_set [OF ps] perm by auto
    have "expand mp idx it s i el = Inr (ps, s')" by (simp add: expand_def i g1 g2 single False ps)
    moreover have "expansion mp idx it i el s ps s'"
      unfolding expansion_def
    proof (intro exI [of _ alt] exI [of _ ns] conjI)
      show "if ns = [] then ps = [] else
         (\<forall>p \<in> set ps. \<exists>qs. map fst qs = ns \<and> digits_ok (alt_len alt) qs \<and>
            frontier_ok mp p \<and> queued_with (picks alt qs) s' p) \<and>
         (\<forall>qs. map fst qs = ns \<and> digits_ok (alt_len alt) qs \<longrightarrow>
            (\<exists>p \<in> set ps. frontier_ok mp p \<and> queued_with (picks alt qs) s' p))"
      proof -
        have "ns \<noteq> []" using False ptr0 by auto
        moreover have "\<exists>qs. map fst qs = ns \<and> digits_ok (alt_len alt) qs \<and>
            frontier_ok mp p \<and> queued_with (picks alt qs) s' p" if "p \<in> set ps" for p
          using that run unfolding set by fastforce
        moreover have "\<exists>p \<in> set ps. frontier_ok mp p \<and> queued_with (picks alt qs) s' p"
          if "map fst qs = ns" "digits_ok (alt_len alt) qs" for qs
          using that run [OF that(1)] unfolding set by blast
        ultimately show ?thesis by simp
      qed
    qed (fact alt s' ns)+
    ultimately show ?thesis by blast
  qed
qed

end
