(* ===== verification/Path_Solver_Correct.thy ===== *)
theory Path_Solver_Correct
  imports Path_Solver_Steps
begin

text \<open>
  Correctness of the path solver: it never panics on the slot graphs the compiler makes, every
  solution it returns is complete and each of its slots is justified by a neighbouring slot,
  and every match of a connected pattern is found. A match is an assignment of elements to
  slots in which the element of each slot is among those the index offers from each of its
  neighbours.
\<close>

subsection \<open>Soundness\<close>

definition result_ok ::
    "signature_hash \<Rightarrow> 'x match_path \<Rightarrow> ('e, 'v) index_ops \<Rightarrow> nat \<Rightarrow> 'v element \<Rightarrow> u64 \<Rightarrow> 'v solution \<Rightarrow> bool" where
  "result_ok h mp idx anchor a sig s \<longleftrightarrow>
     complete h s \<and> solution_signature s = Some sig \<and> total_slots s = length (slots mp) \<and>
     bt_get (solved_slots s) anchor = Some (Some a) \<and>
     (\<forall>n v. bt_get (solved_slots s) n = Some v \<longrightarrow> justified mp idx anchor a s n v)"

lemma mark_frontier:
  assumes "frontier_ok mp s" "slot_cursors s = (n, el) # cs"
    and s1_def: "s1 = mark_slot_solved h n el (s\<lparr>slot_cursors := cs\<rparr>)"
  shows "frontier_ok mp s1" "bound s1 = bound s" "bt_get (solved_slots s1) = (bt_get (solved_slots s))(n \<mapsto> el)"
    "total_slots s1 = total_slots s" "n < length (slots mp)"
proof -
  show get: "bt_get (solved_slots s1) = (bt_get (solved_slots s))(n \<mapsto> el)"
    by (simp add: s1_def bt_simps)
  have fresh: "bt_get (solved_slots s) n = None" "n \<notin> fst ` set cs"
    using assms(1,2) by (auto simp: frontier_ok_def dom_def)
  show b: "bound s1 = bound s"
    using fresh by (auto simp: fun_eq_iff bound_def get s1_def assms(2) bt_simps)
  show "total_slots s1 = total_slots s" by (simp add: s1_def)
  show "n < length (slots mp)" using assms(1,2) by (simp add: frontier_ok_def)
  have "dom (bt_get (solved_slots s1)) = insert n (dom (bt_get (solved_slots s)))" by (simp add: get)
  then show "frontier_ok mp s1"
    using assms(1) fresh unfolding frontier_ok_def b by (auto simp: s1_def assms(2))
qed

lemma mark_signature:
  assumes "frontier_ok mp s" "slot_cursors s = (n, el) # cs" "solution_signature s = None"
    and s1_def: "s1 = mark_slot_solved h n el (s\<lparr>slot_cursors := cs\<rparr>)"
  shows "solution_signature s1 =
    (if dom (bt_get (solved_slots s1)) = {..<total_slots s1} then Some (h (signature_input (solved_slots s1))) else None)"
proof -
  have f: "frontier_ok mp s1" by (rule mark_frontier(1) [OF assms(1,2) s1_def])
  then have len: "length (solved_slots s1) = card (dom (bt_get (solved_slots s1)))"
    and sub: "dom (bt_get (solved_slots s1)) \<subseteq> {..<total_slots s1}"
    using bt_length by (auto simp: frontier_ok_def)
  then have "length (solved_slots s1) = total_slots s1 \<longleftrightarrow> dom (bt_get (solved_slots s1)) = {..<total_slots s1}"
    by (metis card_lessThan card_subset_eq finite_lessThan)
  then show ?thesis using assms(3) by (simp add: s1_def mark_slot_solved_signature)
qed

lemma justified_mono:
  assumes "justified mp idx anchor a s n v"
    and "\<And>k w. bt_get (solved_slots s) k = Some w \<Longrightarrow> bt_get (solved_slots s') k = Some w"
  shows "justified mp idx anchor a s' n v"
  using assms by (auto simp: justified_def)

lemma sol_ok_mark:
  assumes "sol_ok mp idx anchor a s" "slot_cursors s = (n, el) # cs"
    and s1_def: "s1 = mark_slot_solved h n el (s\<lparr>slot_cursors := cs\<rparr>)"
  shows "case solution_signature s1 of
      None \<Rightarrow> sol_ok mp idx anchor a s1 | Some sig \<Rightarrow> result_ok h mp idx anchor a sig s1"
proof -
  note f = mark_frontier [OF _ assms(2) s1_def]
  have fr: "frontier_ok mp s" and sg: "solution_signature s = None" using assms(1) by (simp_all add: sol_ok_def)
  note sig = mark_signature [OF fr assms(2) sg s1_def]
  have fresh: "n \<notin> dom (bt_get (solved_slots s))" using fr assms(2) by (auto simp: frontier_ok_def)
  have mono: "bt_get (solved_slots s1) k = Some w" if "bt_get (solved_slots s) k = Some w" for k w
    using that fresh unfolding f(3) [OF fr] by (cases "k = n") auto
  have just: "justified mp idx anchor a s1 k v" if "bound s k v" for k v
    using assms(1) that unfolding sol_ok_def by (blast intro: justified_mono mono)
  have anchor: "bound s anchor (Some a)" using assms(1) by (auto simp: sol_ok_def)
  show ?thesis
  proof (cases "dom (bt_get (solved_slots s1)) = {..<total_slots s1}")
    case True
    have solved: "bt_get (solved_slots s1) k = Some v" if "bound s k v" for k v
    proof -
      have "bound s1 k v" using that f(2) [OF fr] by simp
      moreover have "k \<notin> fst ` set (slot_cursors s1)"
      proof
        assume k: "k \<in> fst ` set (slot_cursors s1)"
        then have "k \<in> dom (bt_get (solved_slots s1))"
          unfolding True using f(1) [OF fr] unfolding frontier_ok_def by blast
        with k show False using f(1) [OF fr] unfolding frontier_ok_def by blast
      qed
      ultimately show ?thesis by (force simp: bound_def)
    qed
    have "justified mp idx anchor a s1 k v" if "bt_get (solved_slots s1) k = Some v" for k v
      using that just f(2) [OF fr] by (metis bound_def)
    moreover have "complete h s1" using True sig f(1) [OF fr] by (simp add: complete_def frontier_ok_def)
    moreover have "total_slots s1 = length (slots mp)" using f(1) [OF fr] by (simp add: frontier_ok_def)
    ultimately show ?thesis using True sig solved [OF anchor] by (simp add: result_ok_def)
  next
    case False
    have "\<forall>n v. bound s1 n v \<longrightarrow> justified mp idx anchor a s1 n v" using just f(2) [OF fr] by simp
    with False show ?thesis using sig f(1,2) [OF fr] assms(1) by (simp add: sol_ok_def)
  qed
qed

lemma sol_ok_queued:
  assumes "sol_ok mp idx anchor a s" "frontier_ok mp s'" "queued_with xs s s'"
    and "\<And>k w. (k, w) \<in> set xs \<Longrightarrow> justified mp idx anchor a s k w"
  shows "sol_ok mp idx anchor a s'"
proof -
  have q: "queued_from s s'" and new: "\<And>k w. bound s' k w \<Longrightarrow> bound s k w \<or> (k, w) \<in> set xs \<and> (\<nexists>u. bound s k u)"
    using assms(3) by (auto simp: queued_with_def)
  have eq: "solved_slots s' = solved_slots s" "total_slots s' = total_slots s"
    "solution_signature s' = solution_signature s"
    using q by (simp_all add: queued_from_def)
  have "justified mp idx anchor a s' k w" if "bound s' k w" for k w
    using new [OF that] assms(1,4) by (auto simp: sol_ok_def justified_def eq)
  moreover have "\<exists>v. bound s' anchor v" using assms(1) q unfolding sol_ok_def queued_from_def by blast
  moreover have "v = Some a" if "bound s' anchor v" for v
    using new [OF that] assms(1) by (auto simp: sol_ok_def)
  ultimately show ?thesis using assms(1,2) by (simp add: sol_ok_def eq)
qed

lemma alt_justified:
  assumes "alt_ok mp idx i el s alt" "alt k = Some vs" "w \<in> set vs"
    and "i < length (slots mp)" "bt_get (solved_slots s') i = Some el"
  shows "justified mp idx anchor a s' k w"
proof -
  have "k \<in> neighbours mp i" "w \<in> choices mp idx i el k"
    using assms(1-3) unfolding alt_ok_def by auto
  then show ?thesis using assms(4,5) by (auto simp: justified_def)
qed

lemma expansion_sol_ok:
  assumes "expansion mp idx it i el s ps s'" "sol_ok mp idx anchor a s"
    and i: "i < length (slots mp)" "bt_get (solved_slots s) i = Some el"
  shows "sol_ok mp idx anchor a s' \<and> (\<forall>p \<in> set ps. sol_ok mp idx anchor a p)"
proof -
  obtain alt ns where alt: "alt_ok mp idx i el s alt" and fr: "frontier_ok mp s'"
    and q: "queued_with (singles alt (it (dom alt))) s s'"
    and ps: "\<And>p. p \<in> set ps \<Longrightarrow> \<exists>qs. frontier_ok mp p \<and> queued_with (picks alt qs) s' p"
    using assms(1) unfolding expansion_def by (auto split: if_splits) blast
  have s': "sol_ok mp idx anchor a s'"
    using assms(2) fr q by (rule sol_ok_queued) (auto simp: singles_set intro: alt_justified [OF alt] i)
  have i': "bt_get (solved_slots s') i = Some el"
    using q i by (simp add: queued_with_def queued_from_def)
  have "sol_ok mp idx anchor a p" if p: "p \<in> set ps" for p
  proof -
    obtain qs where "frontier_ok mp p" "queued_with (picks alt qs) s' p" using ps [OF p] by blast
    with s' show ?thesis
      by (rule sol_ok_queued) (auto simp: picks_set intro: alt_justified [OF alt] i i')
  qed
  with s' show ?thesis by blast
qed

lemma expand_cases:
  assumes wf: "slots_wf (slots mp)" and it: "iter_ok it" and s: "frontier_ok mp s" and i: "i < length (slots mp)"
  obtains e where "expand mp idx it s i el = Inl (IndexFailure e)" "\<not> index_total idx"
  | ps s' where "expand mp idx it s i el = Inr (ps, s')" "expansion mp idx it i el s ps s'"
proof -
  note rng = slots_wf_range [OF wf i]
  note np = gather_no_panic [of _ mp idx s el]
  show thesis
  proof (cases "gather mp idx s el Outward (out_slots (slots mp ! i)) Map.empty")
    case (Inl f)
    then have "\<not> index_total idx" using gather_defined [OF _ rng(1)] by (metis Inl_Inr_False)
    moreover obtain e where "f = IndexFailure e" using Inl np [OF rng(1)] by (cases f) auto
    ultimately show thesis using that(1) [of e] Inl by (simp add: expand_def i)
  next
    case out: (Inr alt1)
    show thesis
    proof (cases "gather mp idx s el Inward (in_slots (slots mp ! i)) alt1")
      case (Inl f)
      then have "\<not> index_total idx" using gather_defined [OF _ rng(2)] by (metis Inl_Inr_False)
      moreover obtain e where "f = IndexFailure e" using Inl np [OF rng(2)] by (cases f) auto
      ultimately show thesis using that(1) [of e] Inl out by (simp add: expand_def i)
    next
      case (Inr alt)
      then show thesis using expand_ok [OF wf it s i out Inr] that(2) by blast
    qed
  qed
qed

fun command_ok ::
    "signature_hash \<Rightarrow> 'x match_path \<Rightarrow> ('e, 'v) index_ops \<Rightarrow> nat \<Rightarrow> 'v element \<Rightarrow> ('e, 'v) command \<Rightarrow> bool" where
  "command_ok h mp idx anchor a (Partial p) \<longleftrightarrow> sol_ok mp idx anchor a p"
| "command_ok h mp idx anchor a (Complete sig s) \<longleftrightarrow> result_ok h mp idx anchor a sig s"
| "command_ok h mp idx anchor a (Error e) \<longleftrightarrow> \<not> index_total idx"
| "command_ok h mp idx anchor a Panic \<longleftrightarrow> False"
| "command_ok h mp idx anchor a Unsolvable \<longleftrightarrow> True"

text \<open>One round of the loop: the slot popped, and either its outcome or the expansion.\<close>

lemma try_complete_cases:
  assumes wf: "slots_wf (slots mp)" and it: "iter_ok it" and s: "sol_ok mp idx anchor a s"
  obtains (empty) "slot_cursors s = []" "try_complete_solution h mp idx it s = [Unsolvable]"
  | (solved) n el cs sig s1 where "slot_cursors s = (n, el) # cs"
      "s1 = mark_slot_solved h n el (s\<lparr>slot_cursors := cs\<rparr>)"
      "result_ok h mp idx anchor a sig s1" "try_complete_solution h mp idx it s = [Complete sig s1]"
  | (failed) e where "\<not> index_total idx" "try_complete_solution h mp idx it s = [Error e]"
  | (expanded) n el cs s1 ps s2 where "slot_cursors s = (n, el) # cs"
      "s1 = mark_slot_solved h n el (s\<lparr>slot_cursors := cs\<rparr>)" "sol_ok mp idx anchor a s1"
      "bt_get (solved_slots s1) n = Some el" "n < length (slots mp)"
      "expansion mp idx it n el s1 ps s2" "open_work s1 < open_work s" "open_work s2 = open_work s1"
      "\<And>p. p \<in> set ps \<Longrightarrow> open_work p = open_work s1"
      "try_complete_solution h mp idx it s = map Partial ps @ try_complete_solution h mp idx it s2"
proof (cases "slot_cursors s")
  case Nil
  then show thesis using empty by (simp add: try_complete_solution.simps)
next
  case (Cons c cs)
  obtain n el where c: "c = (n, el)" by (cases c)
  define s1 where "s1 = mark_slot_solved h n el (s\<lparr>slot_cursors := cs\<rparr>)"
  have cur: "slot_cursors s = (n, el) # cs" by (simp add: Cons c)
  note mk = sol_ok_mark [OF s cur s1_def]
  have fr: "frontier_ok mp s" using s by (simp add: sol_ok_def)
  note f = mark_frontier [OF fr cur s1_def]
  show thesis
  proof (cases "solution_signature s1")
    case (Some sig)
    then show thesis
      using solved [OF cur s1_def] mk cur
      by (simp add: try_complete_solution.simps [of h mp idx it s] s1_def [symmetric])
  next
    case None
    then have ok1: "sol_ok mp idx anchor a s1" using mk by simp
    have run: "try_complete_solution h mp idx it s = (case expand mp idx it s1 n el of
                  Inl (IndexFailure e) \<Rightarrow> [Error e]
                | Inl IndexOutOfBounds \<Rightarrow> [Panic]
                | Inr (ps, s2) \<Rightarrow> map Partial ps @ try_complete_solution h mp idx it s2)"
      using None cur by (simp add: try_complete_solution.simps [of h mp idx it s] s1_def [symmetric])
    show thesis
    proof (cases rule: expand_cases [OF wf it f(1,5), of idx el])
      case (1 e)
      then show thesis using failed run by simp
    next
      case (2 ps s2)
      have "open_work s1 < open_work s" by (simp add: s1_def open_work_def cur)
      moreover have "bt_get (solved_slots s1) n = Some el" using f(3) by simp
      ultimately show thesis
        using expanded [OF cur s1_def ok1 _ f(5) 2(2)] expand_open_work [OF 2(1)] run 2(1) by simp
    qed
  qed
qed

lemma try_complete_sound:
  assumes wf: "slots_wf (slots mp)" and it: "iter_ok it" and s: "sol_ok mp idx anchor a s"
  shows "list_all (command_ok h mp idx anchor a) (try_complete_solution h mp idx it s)"
  using s
proof (induction "open_work s" arbitrary: s rule: less_induct)
  case less
  show ?case
  proof (cases rule: try_complete_cases [OF wf it less.prems, of h])
    case (4 n el cs s1 ps s2)
    note ok = expansion_sol_ok [OF 4(6,3,5,4)]
    then have "list_all (command_ok h mp idx anchor a) (try_complete_solution h mp idx it s2)"
      using less.hyps [of s2] 4 by simp
    then show ?thesis using ok 4(10) by (auto simp: list_all_iff)
  qed simp_all
qed

fun item_ok ::
    "signature_hash \<Rightarrow> 'x match_path \<Rightarrow> ('e, 'v) index_ops \<Rightarrow> nat \<Rightarrow> 'v element \<Rightarrow> ('e, 'v) stream_item \<Rightarrow> bool" where
  "item_ok h mp idx anchor a (Yield sig s) \<longleftrightarrow> result_ok h mp idx anchor a sig s"
| "item_ok h mp idx anchor a (YieldErr e) \<longleftrightarrow> \<not> index_total idx"
| "item_ok h mp idx anchor a StreamPanic \<longleftrightarrow> False"
| "item_ok h mp idx anchor a StreamBlocked \<longleftrightarrow> True"

definition run_ok ::
    "signature_hash \<Rightarrow> 'x match_path \<Rightarrow> ('e, 'v) index_ops \<Rightarrow> nat \<Rightarrow> 'v element \<Rightarrow> ('e, 'v) pstate \<Rightarrow> bool" where
  "run_ok h mp idx anchor a st \<longleftrightarrow>
     (\<forall>c \<in> pending st. command_ok h mp idx anchor a c) \<and> (\<forall>y \<in> set (yielded st). item_ok h mp idx anchor a y)"

lemma run_ok_step:
  assumes "pstep (try_complete_solution h mp idx it) st st'" "run_ok h mp idx anchor a st"
    and wf: "slots_wf (slots mp)" "iter_ok it"
  shows "run_ok h mp idx anchor a st'"
  using assms(1)
proof cases
  case (recv_partial s q)
  then have "sol_ok mp idx anchor a s" using assms(2) by (auto simp: run_ok_def pending_def)
  then have "list_all (command_ok h mp idx anchor a) (try_complete_solution h mp idx it s)"
    using try_complete_sound wf by blast
  then show ?thesis using assms(2) recv_partial by (auto simp: run_ok_def pending_def list_all_iff)
next
  case (send ts c cs us)
  then have "pending st' = pending st" by (auto simp: pending_def)
  then show ?thesis using assms(2) send by (simp add: run_ok_def)
qed (use assms(2) in \<open>auto simp: run_ok_def pending_def\<close>)

lemma preach_run_ok:
  assumes "preach (try_complete_solution h mp idx it) s st" "sol_ok mp idx anchor a s"
    and wf: "slots_wf (slots mp)" "iter_ok it"
  shows "run_ok h mp idx anchor a st"
  using assms(1) unfolding preach_def
proof (induction rule: rtranclp_induct)
  case base
  then show ?case using assms(2) by (simp add: run_ok_def pending_def pinit_def)
next
  case (step st st')
  then show ?case using run_ok_step wf by blast
qed

lemma initial_ok:
  assumes "anchor < length (slots mp)"
  obtains s where "enqueue_slot anchor (Some a) (new_solution (length (slots mp)) anchor) = Some s"
    "sol_ok mp idx anchor a s" "\<And>n v. bound s n v \<longleftrightarrow> n = anchor \<and> v = Some a" "solved_slots s = []"
proof -
  let ?s = "new_solution (length (slots mp)) anchor"
  have nb: "\<not> bound ?s n v" for n v by (simp add: bound_def new_solution_def)
  have fr: "frontier_ok mp ?s"
    by (auto simp: frontier_ok_def new_solution_def bound_def)
  obtain s where s: "enqueue_slot anchor (Some a) ?s = Some s" "frontier_ok mp s" "queued_from ?s s"
      "\<And>k w. bound s k w \<longleftrightarrow> k = anchor \<and> w = Some a"
    using enqueue_frontier [OF fr assms, of "Some a"] nb by metis
  have eq: "solved_slots s = []" "total_slots s = length (slots mp)" "solution_signature s = None"
    using s(3) by (simp_all add: queued_from_def new_solution_def)
  then have "sol_ok mp idx anchor a s"
    using s(2) assms by (auto simp: sol_ok_def s(4) justified_def)
  with s eq show thesis using that by blast
qed

lemma collect_spec:
  assumes "StreamPanic \<notin> set items" "StreamBlocked \<notin> set items"
  shows "(\<exists>e. YieldErr e \<in> set items \<and> collect items m = Inl (SolveError e)) \<or>
    (\<exists>res. collect items m = Inr res \<and> (\<forall>e. YieldErr e \<notin> set items) \<and>
       (\<forall>sig s. res sig = Some s \<longrightarrow> Yield sig s \<in> set items \<or> m sig = Some s) \<and>
       dom res = dom m \<union> {sig. \<exists>s. Yield sig s \<in> set items})"
  using assms
proof (induction items m rule: collect.induct)
  case (2 sig s rest m)
  have "StreamPanic \<notin> set rest" "StreamBlocked \<notin> set rest" using "2.prems" by simp_all
  from "2.IH" [OF this] show ?case
  proof (elim disjE exE conjE)
    fix e assume "YieldErr e \<in> set rest" "collect rest (m(sig \<mapsto> s)) = Inl (SolveError e)"
    then show ?thesis by auto
  next
    fix res
    assume r: "collect rest (m(sig \<mapsto> s)) = Inr res" "\<forall>e. YieldErr e \<notin> set rest"
      "\<forall>sig' s'. res sig' = Some s' \<longrightarrow> Yield sig' s' \<in> set rest \<or> (m(sig \<mapsto> s)) sig' = Some s'"
      "dom res = dom (m(sig \<mapsto> s)) \<union> {sig. \<exists>s. Yield sig s \<in> set rest}"
    have "\<forall>sig' s'. res sig' = Some s' \<longrightarrow> Yield sig' s' \<in> set (Yield sig s # rest) \<or> m sig' = Some s'"
      using r(3) by (metis fun_upd_apply list.set_intros option.inject)
    moreover have "dom res = dom m \<union> {sig'. \<exists>s'. Yield sig' s' \<in> set (Yield sig s # rest)}"
      unfolding r(4) by auto
    ultimately show ?thesis using r(1,2) by simp
  qed
qed auto

text \<open>The solver's result: it never panics or blocks, and what it returns is sound.\<close>

lemma solve_cases:
  assumes wf: "slots_wf (slots mp)" "iter_ok it" and anchor: "anchor < length (slots mp)"
  obtains (error) e where "\<not> index_total idx" "solve h it idx mp a anchor = Inl (SolveError e)"
  | (result) res s0 where "solve h it idx mp a anchor = Inr res"
      "\<And>sig s. res sig = Some s \<Longrightarrow> result_ok h mp idx anchor a sig s"
      "sol_ok mp idx anchor a s0" "\<And>n v. bound s0 n v \<longleftrightarrow> n = anchor \<and> v = Some a" "solved_slots s0 = []"
      "\<And>sig. sig \<in> dom res \<longleftrightarrow> (\<exists>s. completes (try_complete_solution h mp idx it) s0 sig s)"
proof -
  obtain s0 where s0: "enqueue_slot anchor (Some a) (new_solution (length (slots mp)) anchor) = Some s0"
    "sol_ok mp idx anchor a s0" "\<And>n v. bound s0 n v \<longleftrightarrow> n = anchor \<and> v = Some a" "solved_slots s0 = []"
    using initial_ok [OF anchor, of a idx] by metis
  define items where "items = create_solution_stream h mp idx it s0"
  have run: "solve h it idx mp a anchor = collect items Map.empty"
    by (simp add: solve_def s0 items_def)
  obtain st where st: "preach (try_complete_solution h mp idx it) s0 st" "ended st" "yielded st = items"
    using sequential_not_blocked(2) [of h mp idx it s0] by (auto simp: items_def)
  have ok: "item_ok h mp idx anchor a y" if "y \<in> set items" for y
    using preach_run_ok [OF st(1) s0(2) wf] that st(3) by (simp add: run_ok_def)
  have no: "StreamPanic \<notin> set items" "StreamBlocked \<notin> set items"
    using ok sequential_not_blocked(1) [of h mp idx it s0] by (force simp: items_def)+
  from collect_spec [OF no, of Map.empty] show thesis
  proof (elim disjE exE conjE)
    fix e assume "YieldErr e \<in> set items" "collect items Map.empty = Inl (SolveError e)"
    then show thesis using error ok [of "YieldErr e"] run by simp
  next
    fix res
    assume r: "collect items Map.empty = Inr res" "\<forall>e. YieldErr e \<notin> set items"
      "\<forall>sig s. res sig = Some s \<longrightarrow> Yield sig s \<in> set items \<or> Map.empty sig = Some s"
      "dom res = dom Map.empty \<union> {sig. \<exists>s. Yield sig s \<in> set items}"
    have "\<not> failed st" using r(2) no st(3) by (simp add: failed_def)
    then have y: "Yield sig s \<in> set items \<longleftrightarrow> completes (try_complete_solution h mp idx it) s0 sig s" for sig s
      using preach_yields [OF st(1) try_complete_task_ok st(2)] st(3) by simp
    show thesis
    proof (rule result)
      show "solve h it idx mp a anchor = Inr res" using run r(1) by simp
      show "result_ok h mp idx anchor a sig s" if "res sig = Some s" for sig s
        using r(3) that ok [of "Yield sig s"] by auto
      show "sig \<in> dom res \<longleftrightarrow> (\<exists>s. completes (try_complete_solution h mp idx it) s0 sig s)" for sig
        using r(4) y by auto
    qed (fact s0)+
  qed
qed

subsection \<open>Completeness\<close>

definition connected :: "'x match_path \<Rightarrow> nat \<Rightarrow> bool" where
  "connected mp anchor \<longleftrightarrow>
     (\<forall>j < length (slots mp). (\<lambda>i j. i < length (slots mp) \<and> j \<in> neighbours mp i)\<^sup>*\<^sup>* anchor j)"

definition is_match ::
    "'x match_path \<Rightarrow> ('e, 'v) index_ops \<Rightarrow> nat \<Rightarrow> 'v element \<Rightarrow> (nat \<Rightarrow> 'v element option) \<Rightarrow> bool" where
  "is_match mp idx anchor a m \<longleftrightarrow>
     m anchor = Some a \<and>
     (\<forall>i < length (slots mp). \<forall>j \<in> neighbours mp i. m j \<in> choices mp idx i (m i) j)"

definition match_map :: "nat \<Rightarrow> (nat \<Rightarrow> 'v element option) \<Rightarrow> (nat, 'v element option) btree" where
  "match_map n m = map (\<lambda>k. (k, m k)) [0..<n]"

definition follows :: "(nat \<Rightarrow> 'v element option) \<Rightarrow> 'v solution \<Rightarrow> bool" where
  "follows m s \<longleftrightarrow> (\<forall>n v. bound s n v \<longrightarrow> v = m n)"

definition closed :: "'x match_path \<Rightarrow> 'v solution \<Rightarrow> bool" where
  "closed mp s \<longleftrightarrow>
     (\<forall>i w. bt_get (solved_slots s) i = Some w \<longrightarrow> (\<forall>j \<in> neighbours mp i. \<exists>u. bound s j u))"

lemma match_map_ok: "bt_ok (match_map n m)" "bt_get (match_map n m) k = (if k < n then Some (m k) else None)"
proof -
  show "bt_ok (match_map n m)" by (simp add: bt_ok_def match_map_def comp_def)
  have "map_of (map (\<lambda>k. (k, m k)) xs) k = (if k \<in> set xs then Some (m k) else None)" for xs
    by (induction xs) auto
  then show "bt_get (match_map n m) k = (if k < n then Some (m k) else None)"
    by (simp add: match_map_def)
qed

lemma frontier_okD:
  assumes "frontier_ok mp s"
  shows "total_slots s = length (slots mp)" "dom (bt_get (solved_slots s)) \<subseteq> {..<length (slots mp)}"
proof -
  show "total_slots s = length (slots mp)" using assms unfolding frontier_ok_def by blast
  then show "dom (bt_get (solved_slots s)) \<subseteq> {..<length (slots mp)}"
    using assms unfolding frontier_ok_def by auto
qed

lemma connected_closed:
  assumes "connected mp anchor" "closed mp s" "frontier_ok mp s" "slot_cursors s = []" "\<exists>v. bound s anchor v"
  shows "dom (bt_get (solved_slots s)) = {..<length (slots mp)}"
proof
  show "dom (bt_get (solved_slots s)) \<subseteq> {..<length (slots mp)}"
    using frontier_okD [OF assms(3)] by simp
  show "{..<length (slots mp)} \<subseteq> dom (bt_get (solved_slots s))"
  proof
    fix j assume "j \<in> {..<length (slots mp)}"
    then have "(\<lambda>i j. i < length (slots mp) \<and> j \<in> neighbours mp i)\<^sup>*\<^sup>* anchor j"
      using assms(1) by (simp add: connected_def)
    then show "j \<in> dom (bt_get (solved_slots s))"
    proof (induction rule: rtranclp_induct)
      case base
      then show ?case using assms(4,5) by (auto simp: bound_def)
    next
      case (step i k)
      then show ?case using assms(2,4) by (fastforce simp: closed_def bound_def)
    qed
  qed
qed

text \<open>An expansion has a successor that keeps following a match.\<close>

lemma expansion_follows:
  assumes ex: "expansion mp idx it n (m n) s1 ps s2" and it: "iter_ok it"
    and m: "is_match mp idx anchor a m" and n: "n < length (slots mp)"
    and fol: "follows m s1"
    and old: "\<And>i w. bt_get (solved_slots s1) i = Some w \<Longrightarrow> i \<noteq> n \<Longrightarrow> \<forall>j \<in> neighbours mp i. \<exists>u. bound s1 j u"
  shows "ps = [] \<and> follows m s2 \<and> closed mp s2 \<or> (\<exists>p \<in> set ps. follows m p \<and> closed mp p)"
proof -
  obtain alt ns where alt: "alt_ok mp idx n (m n) s1 alt"
    and q: "queued_with (singles alt (it (dom alt))) s1 s2"
    and ns: "set ns = {k \<in> dom alt. alt_len alt k \<ge> 2}"
    and br: "if ns = [] then ps = []
         else (\<forall>p \<in> set ps. \<exists>qs. map fst qs = ns \<and> digits_ok (alt_len alt) qs \<and>
                  frontier_ok mp p \<and> queued_with (picks alt qs) s2 p) \<and>
              (\<forall>qs. map fst qs = ns \<and> digits_ok (alt_len alt) qs \<longrightarrow>
                  (\<exists>p \<in> set ps. frontier_ok mp p \<and> queued_with (picks alt qs) s2 p))"
    using ex unfolding expansion_def by blast
  have da: "dom alt = {k \<in> neighbours mp n. \<not> is_slot_solved s1 k}" using alt by (simp add: alt_ok_def)
  then have "finite (dom alt)" using finite_neighbours [of mp n] by simp
  then have itd: "set (it (dom alt)) = dom alt" using it by (simp add: iter_ok_def)
  have mem: "m k \<in> set vs" if "alt k = Some vs" for k vs
  proof -
    have "k \<in> neighbours mp n" using that da by (auto simp: dom_def set_eq_iff)
    then show ?thesis using that alt m n by (auto simp: alt_ok_def is_match_def)
  qed
  have f2: "follows m s2"
    unfolding follows_def
  proof (intro allI impI)
    fix k w assume "bound s2 k w"
    then consider "bound s1 k w" | "alt k = Some [w]"
      using q unfolding queued_with_def singles_set by blast
    then show "w = m k" using fol mem [of k "[w]"] by cases (auto simp: follows_def)
  qed
  have nb: "\<exists>u. bound s2 j u" if j: "j \<in> neighbours mp n" "j \<notin> set ns" for j
  proof (cases "is_slot_solved s1 j")
    case True
    then show ?thesis using q by (auto simp: is_slot_solved_def bound_def queued_with_def queued_from_def)
  next
    case False
    then obtain vs where vs: "alt j = Some vs" using da j by (auto simp: dom_def set_eq_iff)
    then have "vs \<noteq> []" "\<not> length vs \<ge> 2" using mem [OF vs] j(2) ns by (auto simp: alt_len_def)
    then obtain w where "vs = [w]" by (cases vs rule: list.exhaust) (auto simp: Suc_le_eq)
    then have "(j, w) \<in> set (singles alt (it (dom alt)))" using vs by (auto simp: singles_set itd)
    then show ?thesis using q unfolding queued_with_def by force
  qed
  have solved2: "solved_slots s2 = solved_slots s1" and keep2: "\<And>k u. bound s1 k u \<Longrightarrow> bound s2 k u"
    using q by (auto simp: queued_with_def queued_from_def)
  show ?thesis
  proof (cases "ns = []")
    case True
    have "closed mp s2"
      unfolding closed_def solved2
    proof (intro allI impI ballI)
      fix i w j assume i: "bt_get (solved_slots s1) i = Some w" and j: "j \<in> neighbours mp i"
      show "\<exists>u. bound s2 j u"
      proof (cases "i = n")
        case eq: True
        then show ?thesis using nb [of j] j True by simp
      next
        case False
        then show ?thesis using old [OF i False] keep2 j by blast
      qed
    qed
    then show ?thesis using f2 br True by simp
  next
    case False
    define f where "f k = (SOME p. \<exists>vs. alt k = Some vs \<and> p < length vs \<and> vs ! p = m k)" for k
    have f: "\<exists>vs. alt k = Some vs \<and> f k < length vs \<and> vs ! f k = m k" if "k \<in> dom alt" for k
      unfolding f_def by (rule someI_ex) (use mem [of k] that in \<open>auto simp: in_set_conv_nth dom_def\<close>)
    let ?qs = "map (\<lambda>k. (k, f k)) ns"
    have "digits_ok (alt_len alt) ?qs" using f ns by (fastforce simp: digits_ok_def alt_len_def)
    moreover have "map fst ?qs = ns" by (simp add: comp_def)
    ultimately obtain p where p: "p \<in> set ps" "queued_with (picks alt ?qs) s2 p"
      using br False by (metis (no_types, lifting))
    have pick: "(k, w) \<in> set (picks alt ?qs) \<longleftrightarrow> k \<in> set ns \<and> w = m k" for k w
    proof (cases "k \<in> set ns")
      case True
      then have "k \<in> dom alt" using ns by blast
      then obtain vs where "alt k = Some vs" "f k < length vs" "vs ! f k = m k" using f by blast
      moreover have "(k, p) \<in> set ?qs \<longleftrightarrow> p = f k" for p using True by auto
      ultimately show ?thesis using True unfolding picks_set by auto
    next
      case False
      then have "(k, p) \<notin> set ?qs" for p by auto
      then show ?thesis using False unfolding picks_set by blast
    qed
    have "follows m p"
      using p(2) f2 unfolding queued_with_def follows_def pick by blast
    moreover have "closed mp p"
      unfolding closed_def
    proof (intro allI impI ballI)
      fix i w j assume i: "bt_get (solved_slots p) i = Some w" and j: "j \<in> neighbours mp i"
      have eq: "solved_slots p = solved_slots s1" and keep: "\<And>k u. bound s2 k u \<Longrightarrow> bound p k u"
        using p(2) solved2 by (auto simp: queued_with_def queued_from_def)
      show "\<exists>u. bound p j u"
      proof (cases "i = n")
        case True
        show ?thesis
        proof (cases "j \<in> set ns")
          case True
          then have "(j, m j) \<in> set (picks alt ?qs)" by (simp add: pick)
          then show ?thesis using p(2) unfolding queued_with_def by force
        next
          case False
          then show ?thesis using nb [of j] j \<open>i = n\<close> keep by blast
        qed
      next
        case False
        then show ?thesis using old [of i w] i j eq keep keep2 by metis
      qed
    qed
    ultimately show ?thesis using p(1) by blast
  qed
qed

lemma complete_branch:
  assumes wf: "slots_wf (slots mp)" and it: "iter_ok it" and idx: "index_total idx"
    and conn: "connected mp anchor" and m: "is_match mp idx anchor a m"
    and s: "sol_ok mp idx anchor a s" "follows m s" "closed mp s"
  shows "\<exists>sig s'. completes (try_complete_solution h mp idx it) s sig s' \<and>
    solved_slots s' = match_map (length (slots mp)) m \<and> result_ok h mp idx anchor a sig s'"
  using s
proof (induction "open_work s" arbitrary: s rule: less_induct)
  case less
  have fr: "frontier_ok mp s" using less.prems(1) by (simp add: sol_ok_def)
  show ?case
  proof (cases rule: try_complete_cases [OF wf it less.prems(1), of h])
    case 1
    then have "dom (bt_get (solved_slots s)) = {..<length (slots mp)}"
      using connected_closed [OF conn less.prems(3) fr] less.prems(1) by (simp add: sol_ok_def)
    then have False using less.prems(1) frontier_okD(1) [OF fr] by (simp add: sol_ok_def)
    then show ?thesis ..
  next
    case (2 n el cs sig s1)
    note f = mark_frontier [OF fr 2(1,2)]
    have "completes (try_complete_solution h mp idx it) s sig s1" using 2(4) by (intro completes.here) simp
    moreover have "solved_slots s1 = match_map (length (slots mp)) m"
    proof (rule bt_ok_eqI)
      show "bt_ok (solved_slots s1)" "bt_ok (match_map (length (slots mp)) m)"
        using 2(3) by (simp_all add: result_ok_def complete_def match_map_ok)
      have "bt_get (solved_slots s1) k = (if k < length (slots mp) then Some (m k) else None)" for k
      proof -
        have "k \<in> dom (bt_get (solved_slots s1)) \<longleftrightarrow> k < length (slots mp)"
          using 2(3) by (simp add: result_ok_def complete_def)
        moreover have "v = m k" if "bt_get (solved_slots s1) k = Some v" for v
          using less.prems(2) that f(2) by (metis bound_def follows_def)
        ultimately show ?thesis by (cases "bt_get (solved_slots s1) k") auto
      qed
      then show "bt_get (solved_slots s1) = bt_get (match_map (length (slots mp)) m)"
        by (simp add: fun_eq_iff match_map_ok)
    qed
    ultimately show ?thesis using 2(3) by blast
  next
    case (3 e)
    then show ?thesis using idx by simp
  next
    case (4 n el cs s1 ps s2)
    note f = mark_frontier [OF fr 4(1,2)]
    have fol: "follows m s1" using less.prems(2) f(2) by (simp add: follows_def)
    have el: "el = m n" using fol 4(4) by (simp add: follows_def bound_def)
    have old: "\<forall>j \<in> neighbours mp i. \<exists>u. bound s1 j u"
      if "bt_get (solved_slots s1) i = Some w" "i \<noteq> n" for i w
      using less.prems(3) that unfolding closed_def f(2,3) by auto
    note ok = expansion_sol_ok [OF 4(6,3,5,4)]
    have "ps = [] \<and> follows m s2 \<and> closed mp s2 \<or> (\<exists>p \<in> set ps. follows m p \<and> closed mp p)"
      by (rule expansion_follows [OF 4(6) [unfolded el] it m 4(5) fol]) (use old in blast)
    then consider "ps = []" "follows m s2" "closed mp s2" | p where "p \<in> set ps" "follows m p" "closed mp p"
      by blast
    then show ?thesis
    proof cases
      case 1
      then obtain sig s' where "completes (try_complete_solution h mp idx it) s2 sig s'"
          "solved_slots s' = match_map (length (slots mp)) m" "result_ok h mp idx anchor a sig s'"
        using less.hyps [of s2] 4(7,8) ok by auto
      then show ?thesis using 4(10) 1(1) by (metis append_Nil completes_iff list.map(1))
    next
      case p: (2 p)
      then obtain sig s' where "completes (try_complete_solution h mp idx it) p sig s'"
          "solved_slots s' = match_map (length (slots mp)) m" "result_ok h mp idx anchor a sig s'"
        using less.hyps [of p] 4(7,9) ok by auto
      moreover have "Partial p \<in> set (try_complete_solution h mp idx it s)" using p(1) 4(10) by simp
      ultimately show ?thesis by (meson completes.below)
    qed
  qed
qed

lemma solve_sound_wf:
  assumes wf: "slots_wf (slots mp)" and it: "iter_ok it" and anchor: "anchor < length (slots mp)"
  shows "(\<exists>e. solve h it idx mp a anchor = Inl (SolveError e) \<and> \<not> index_total idx) \<or>
    (\<exists>res. solve h it idx mp a anchor = Inr res \<and>
       (\<forall>sig s. res sig = Some s \<longrightarrow>
          dom (bt_get (solved_slots s)) = {..<length (slots mp)} \<and>
          sig = h (signature_input (solved_slots s)) \<and>
          bt_get (solved_slots s) anchor = Some (Some a) \<and>
          (\<forall>n v. bt_get (solved_slots s) n = Some v \<longrightarrow> justified mp idx anchor a s n v)))"
proof (cases rule: solve_cases [OF wf it anchor, of idx h a])
  case (1 e)
  then show ?thesis by blast
next
  case (2 res s0)
  have "dom (bt_get (solved_slots s)) = {..<length (slots mp)} \<and>
        sig = h (signature_input (solved_slots s)) \<and>
        bt_get (solved_slots s) anchor = Some (Some a) \<and>
        (\<forall>n v. bt_get (solved_slots s) n = Some v \<longrightarrow> justified mp idx anchor a s n v)"
    if "res sig = Some s" for sig s
    using 2(2) [OF that] by (auto simp: result_ok_def complete_def)
  with 2(1) show ?thesis by blast
qed

lemma solve_complete_wf:
  assumes wf: "slots_wf (slots mp)" and it: "iter_ok it" and anchor: "anchor < length (slots mp)"
    and idx: "index_total idx" and conn: "connected mp anchor" and m: "is_match mp idx anchor a m"
  shows "\<exists>res. solve h it idx mp a anchor = Inr res \<and>
    h (signature_input (match_map (length (slots mp)) m)) \<in> dom res"
proof (cases rule: solve_cases [OF wf it anchor, of idx h a])
  case (1 e)
  then show ?thesis using idx by blast
next
  case (2 res s0)
  have "follows m s0" using 2(4) m by (simp add: follows_def is_match_def)
  moreover have "closed mp s0" by (simp add: closed_def 2(5))
  ultimately obtain sig s' where "completes (try_complete_solution h mp idx it) s0 sig s'"
      "solved_slots s' = match_map (length (slots mp)) m" "result_ok h mp idx anchor a sig s'"
    using complete_branch [OF wf it idx conn m 2(3)] by blast
  then show ?thesis using 2(1) 2(6) [of sig] by (auto simp: result_ok_def complete_def)
qed

subsection \<open>Properties\<close>

text \<open>
  C2. The solver is safe and sound on every compiled pattern, for every anchor slot: it
  returns an index error only if the index reported one, it never panics or blocks, and each
  solution it returns is complete, is stored under the hash of its slots and references, binds
  the anchor's element to the anchor slot, and binds to every other slot an element the index
  offers from a neighbouring slot of the solution (or nothing, where the slot is optional and
  the index offers nothing).
\<close>

theorem solve_sound:
  assumes "mp = from_query mcs" "iter_ok it" "anchor < length (slots mp)"
  shows "(\<exists>e. solve h it idx mp a anchor = Inl (SolveError e) \<and> \<not> index_total idx) \<or>
    (\<exists>res. solve h it idx mp a anchor = Inr res \<and>
       (\<forall>sig s. res sig = Some s \<longrightarrow>
          dom (bt_get (solved_slots s)) = {..<length (slots mp)} \<and>
          sig = h (signature_input (solved_slots s)) \<and>
          bt_get (solved_slots s) anchor = Some (Some a) \<and>
          (\<forall>n v. bt_get (solved_slots s) n = Some v \<longrightarrow> justified mp idx anchor a s n v)))"
  using solve_sound_wf [OF _ assms(2,3)] from_query_slots_wf assms(1) by blast

text \<open>
  C1. The solver is complete on connected patterns. When the index answers without errors,
  every assignment of elements to slots in which the anchor has its element and each slot's
  element is among those the index offers from each of its neighbours is found: the result
  has an entry under the signature of that assignment.
\<close>

theorem solve_complete:
  assumes "mp = from_query mcs" "iter_ok it" "anchor < length (slots mp)"
    and "index_total idx" "connected mp anchor" "is_match mp idx anchor a m"
  shows "\<exists>res. solve h it idx mp a anchor = Inr res \<and>
    h (signature_input (match_map (length (slots mp)) m)) \<in> dom res"
  using solve_complete_wf [OF _ assms(2-6)] from_query_slots_wf assms(1) by blast

subsection \<open>Examples\<close>

text \<open>An index over a list of elements with the slot each belongs to.\<close>

definition list_index :: "(nat \<times> 'v element) list \<Rightarrow> (unit, 'v) index_ops" where
  "list_index xs =
     \<lparr>op_get_slot_element_by_ref = (\<lambda>n r. Inr (map_option snd (find (\<lambda>(k, e). k = n \<and> get_reference e = r) xs))),
      op_get_slot_elements_by_inbound = (\<lambda>n r. Inr (map (Inr \<circ> snd)
        (filter (\<lambda>(k, e). k = n \<and> (case e of Relation _ i _ _ \<Rightarrow> i = r | _ \<Rightarrow> False)) xs))),
      op_get_slot_elements_by_outbound = (\<lambda>n r. Inr (map (Inr \<circ> snd)
        (filter (\<lambda>(k, e). k = n \<and> (case e of Relation _ _ out _ \<Rightarrow> out = r | _ \<Rightarrow> False)) xs)))\<rparr>"

lemma drain_Inr [simp]: "drain (map (Inr \<circ> f) xs) = Inr (map f xs)"
  by (induction xs) auto

lemma list_index_total: "index_total (list_index xs)"
  unfolding index_total_def
proof (intro allI)
  fix el :: "'a element option" and n d
  show "\<exists>es. adjacent (list_index xs) el n d = Inr es"
  proof (cases el)
    case (Some e)
    then show ?thesis by (cases e; cases d) (auto simp: adjacent_def list_index_def split: option.split)
  qed (simp add: adjacent_def)
qed

definition knows :: "string \<Rightarrow> 'v element \<Rightarrow> 'v element \<Rightarrow> 'v element" where
  "knows k x y = Relation \<lparr>reference = ElementReference ''hr'' k, labels = [''KNOWS''], effective_from = 0\<rparr>
     (get_reference x) (get_reference y) []"

definition pair_index :: "(unit, unit) index_ops" where
  "pair_index = list_index [(0, ann 1), (1, knows ''r'' (ann 1) (ann 2)), (2, ann 2)]"

definition pair_match :: "nat \<Rightarrow> unit element option" where
  "pair_match n = (if n = 0 then Some (ann 1) else if n = 1 then Some (knows ''r'' (ann 1) (ann 2)) else Some (ann 2))"

lemmas solve_simps =
  pair_index_def list_index_def pair_match_def knows_def ann_def get_reference_def
  adjacent_def adj_list_def offers_def

lemma pair_slots:
  "slots (from_query [person_knows False ''b'']) =
     [\<lparr>spec = \<lparr>annotation = Some ''a'', spec_labels = [''Person''], predicates = []\<rparr>,
       in_slots = [], out_slots = [1], paths = {0}, optional = False\<rparr>,
      \<lparr>spec = \<lparr>annotation = None, spec_labels = [''KNOWS''], predicates = []\<rparr>,
       in_slots = [0], out_slots = [2], paths = {0}, optional = False\<rparr>,
      \<lparr>spec = \<lparr>annotation = Some ''b'', spec_labels = [''Person''], predicates = []\<rparr>,
       in_slots = [1], out_slots = [], paths = {0}, optional = False\<rparr>]"
  by (simp add: compile_simps)

lemma pair_connected: "connected (from_query [person_knows False ''b'']) 0"
proof -
  define R where "R i j \<longleftrightarrow> i < length (slots (from_query [person_knows False ''b''])) \<and>
                  j \<in> neighbours (from_query [person_knows False ''b'']) i" for i j
  have "R 0 1" "R 1 2" by (simp_all add: R_def neighbours_def pair_slots)
  then have "R\<^sup>*\<^sup>* 0 1" "R\<^sup>*\<^sup>* 0 2" using rtranclp.rtrancl_into_rtrancl [of R 0 1 2] by blast+
  moreover have "j = 0 \<or> j = 1 \<or> j = 2" if "j < length (slots (from_query [person_knows False ''b'']))" for j
    using that by (auto simp: pair_slots less_Suc_eq)
  ultimately show ?thesis unfolding connected_def R_def [abs_def, symmetric] by auto
qed

lemma pair_is_match: "is_match (from_query [person_knows False ''b'']) pair_index 0 (ann 1) pair_match"
  by (auto simp: is_match_def pair_slots neighbours_def choices_def solve_simps less_Suc_eq)

theorem solve_sound_witness:
  "\<exists>res. solve (\<lambda>_. 7) sorted_list_of_set pair_index (from_query [person_knows False ''b'']) (ann 1) 0 = Inr res \<and>
     (\<forall>sig s. res sig = Some s \<longrightarrow> sig = 7 \<and> bt_get (solved_slots s) 0 = Some (Some (ann 1)))"
proof -
  have "0 < length (slots (from_query [person_knows False ''b'']))" by (simp add: pair_slots)
  from solve_sound [OF refl iter_ok_sorted this, of "\<lambda>_. 7" pair_index "ann 1"] show ?thesis
    by (auto simp: pair_index_def list_index_total)
qed

theorem solve_complete_witness:
  "\<exists>res. solve (\<lambda>_. 7) sorted_list_of_set pair_index (from_query [person_knows False ''b'']) (ann 1) 0 = Inr res \<and>
     7 \<in> dom res"
proof -
  have "0 < length (slots (from_query [person_knows False ''b'']))" by (simp add: pair_slots)
  from solve_complete [OF refl iter_ok_sorted this _ pair_connected pair_is_match, of "\<lambda>_. 7"] show ?thesis
    by (simp add: pair_index_def list_index_total)
qed

text \<open>Two relations from \<open>a\<close> to the same \<open>b\<close>, and an optional relation in either direction.\<close>

definition edge_clause :: "bool \<Rightarrow> direction \<Rightarrow> string \<Rightarrow> unit match_clause" where
  "edge_clause opt d l =
     \<lparr>start = \<lparr>node_annotation = Some ''a'', node_labels = [''Person''], node_predicates = []\<rparr>,
      path = [(\<lparr>rel_direction = d, rel_annotation = None, rel_variable_length = None,
                 rel_labels = [l], rel_predicates = []\<rparr>,
               \<lparr>node_annotation = Some ''b'', node_labels = [''Person''], node_predicates = []\<rparr>)],
      clause_optional = opt\<rparr>"

definition node_clause :: "unit match_clause" where
  "node_clause =
     \<lparr>start = \<lparr>node_annotation = Some ''a'', node_labels = [''Person''], node_predicates = []\<rparr>,
      path = [], clause_optional = False\<rparr>"

definition two_edges :: "unit match_path" where
  "two_edges = from_query [edge_clause False Right ''KNOWS'', edge_clause False Right ''LIKES'']"

definition two_targets :: "(unit, unit) index_ops" where
  "two_targets = list_index [(0, ann 1), (1, knows ''k'' (ann 1) (ann 2)), (3, knows ''l'' (ann 1) (ann 3)),
                             (2, ann 2), (2, ann 3)]"

lemma two_edges_slots:
  "slots two_edges =
     [\<lparr>spec = \<lparr>annotation = Some ''a'', spec_labels = [''Person''], predicates = []\<rparr>,
       in_slots = [], out_slots = [1, 3], paths = {1, 0}, optional = False\<rparr>,
      \<lparr>spec = \<lparr>annotation = None, spec_labels = [''KNOWS''], predicates = []\<rparr>,
       in_slots = [0], out_slots = [2], paths = {0}, optional = False\<rparr>,
      \<lparr>spec = \<lparr>annotation = Some ''b'', spec_labels = [''Person''], predicates = []\<rparr>,
       in_slots = [1, 3], out_slots = [], paths = {1, 0}, optional = False\<rparr>,
      \<lparr>spec = \<lparr>annotation = None, spec_labels = [''LIKES''], predicates = []\<rparr>,
       in_slots = [0], out_slots = [2], paths = {1}, optional = False\<rparr>]"
  by (simp add: two_edges_def compile_simps edge_clause_def)

lemmas run_simps =
  solve_def create_solution_stream_def new_solution_def enqueue_slot_def mark_slot_solved_def
  signature_input_def try_complete_solution.simps expand_def is_slot_solved_def permutations.simps
  alt_len_def adjacent_def list_index_def get_reference_def knows_def ann_def


definition optional_either :: "unit match_path" where
  "optional_either = from_query [node_clause, edge_clause True Either ''KNOWS'']"

definition known_by :: "(unit, unit) index_ops" where
  "known_by = list_index [(0, ann 1), (1, knows ''k'' (ann 2) (ann 1)), (2, ann 2)]"

lemma replicate_2: "replicate 2 x = [x, x]"
  by (simp add: numeral_2_eq_2)

lemma optional_either_slots:
  "slots optional_either =
     [\<lparr>spec = \<lparr>annotation = Some ''a'', spec_labels = [''Person''], predicates = []\<rparr>,
       in_slots = [1], out_slots = [1], paths = {1, 0}, optional = False\<rparr>,
      \<lparr>spec = \<lparr>annotation = None, spec_labels = [''KNOWS''], predicates = []\<rparr>,
       in_slots = [0, 2], out_slots = [0, 2], paths = {1}, optional = True\<rparr>,
      \<lparr>spec = \<lparr>annotation = Some ''b'', spec_labels = [''Person''], predicates = []\<rparr>,
       in_slots = [1], out_slots = [1], paths = {1}, optional = True\<rparr>]"
  by (simp add: optional_either_def compile_simps edge_clause_def node_clause_def)


text \<open>Witnesses for the channel protocol, on the single slot of a one-node pattern.\<close>

definition node_index :: "(unit, unit) index_ops" where
  "node_index = list_index []"

definition node_start :: "unit solution" where
  "node_start = \<lparr>solved_slots = [], total_slots = 1, queued_slots = [True],
     slot_cursors = [(0, Some (ann 1))], solution_signature = None, anchor_slot = 0\<rparr>"

lemma node_stream:
  "create_solution_stream (\<lambda>_. 7) (from_query [node_clause]) node_index sorted_list_of_set node_start =
     [Yield 7 \<lparr>solved_slots = [(0, Some (ann 1))], total_slots = 1, queued_slots = [True],
               slot_cursors = [], solution_signature = Some 7, anchor_slot = 0\<rparr>]"
  by (simp add: node_start_def create_solution_stream_def try_complete_solution.simps mark_slot_solved_def)

theorem parallel_stream_exact_witness:
  "\<exists>st. preach (try_complete_solution (\<lambda>_. 7) (from_query [node_clause]) node_index sorted_list_of_set) node_start st \<and>
     ended st \<and> \<not> failed st \<and> channel st = [] \<and> running st = [] \<and>
     (\<exists>s. completes (try_complete_solution (\<lambda>_. 7) (from_query [node_clause]) node_index sorted_list_of_set)
            node_start 7 s)"
proof -
  let ?t = "try_complete_solution (\<lambda>_. 7) (from_query [node_clause]) node_index sorted_list_of_set"
  obtain st where st: "preach ?t node_start st" "ended st"
    "yielded st = create_solution_stream (\<lambda>_. 7) (from_query [node_clause]) node_index sorted_list_of_set node_start"
    using sequential_not_blocked(2) [of "\<lambda>_. 7" "from_query [node_clause]" node_index sorted_list_of_set node_start]
    by blast
  then have nf: "\<not> failed st" by (simp add: failed_def node_stream)
  from parallel_stream_exact [OF st(1,2) nf] show ?thesis
    using st nf by (auto simp: node_stream)
qed


end
