(* ===== verification/Element_Index.thy ===== *)
theory Element_Index
  imports Match_Path
begin

text \<open>
  The in-memory element index, \<^verbatim>\<open>src/core/src/in_memory_index/in_memory_element_index.rs\<close>:
  the stored elements, the tables by slot, the virtual relations of source joins and the
  archive of past versions.

  Every operation of this index returns \<open>Ok\<close>, so operations are functions on the state. The
  deletion of an element can delete virtual relations, which are again elements: the mutually
  recursive operations take fuel and return \<open>None\<close> when it runs out. A hash of a property
  value and the iteration orders of hashed collections are the fields of \<open>index_env\<close>.
\<close>

subsection \<open>State\<close>

record 'v element_index =
  elements :: "element_reference \<rightharpoonup> 'v element"
  slot_affinity :: "element_reference \<rightharpoonup> nat set"
  element_by_slot :: "(nat \<times> element_reference) set"
  element_by_slot_in :: "nat \<times> element_reference \<rightharpoonup> element_reference set"
  element_by_slot_out :: "nat \<times> element_reference \<rightharpoonup> element_reference set"
  element_archive :: "element_reference \<rightharpoonup> (u64, 'v element) btree"
  archive_enabled :: bool
  join_spec_by_label :: "string \<rightharpoonup> (query_join \<times> nat list) list"
  partial_joins :: "string \<times> u64 \<rightharpoonup> (query_join_key \<rightharpoonup> element_reference set)"

record 'v index_env =
  value_hash :: "'v \<Rightarrow> u64"
  it_slot :: "nat iter"
  it_label :: "string iter"
  it_ref :: "element_reference iter"

definition new_index :: "'v element_index" where
  "new_index =
     \<lparr>elements = Map.empty, slot_affinity = Map.empty, element_by_slot = {},
      element_by_slot_in = Map.empty, element_by_slot_out = Map.empty, element_archive = Map.empty,
      archive_enabled = False, join_spec_by_label = Map.empty, partial_joins = Map.empty\<rparr>"

definition enable_archive :: "'v element_index \<Rightarrow> 'v element_index" where
  "enable_archive s = s\<lparr>archive_enabled := True\<rparr>"

subsection \<open>Slot tables\<close>

text \<open>Removing a reference from an entry drops the entry once it is empty.\<close>

definition remove_ref :: "'k \<Rightarrow> 'a \<Rightarrow> ('k \<rightharpoonup> 'a set) \<Rightarrow> ('k \<rightharpoonup> 'a set)" where
  "remove_ref k r t =
     (case t k of
        Some S \<Rightarrow> if S - {r} = {} then t(k := None) else t(k \<mapsto> S - {r})
      | None \<Rightarrow> t)"

definition insert_ref :: "'k \<Rightarrow> 'a \<Rightarrow> ('k \<rightharpoonup> 'a set) \<Rightarrow> ('k \<rightharpoonup> 'a set)" where
  "insert_ref k r t = t(k \<mapsto> insert r (case t k of Some S \<Rightarrow> S | None \<Rightarrow> {}))"

definition clear_slot_affinity :: "'v index_env \<Rightarrow> 'v element \<Rightarrow> 'v element_index \<Rightarrow> 'v element_index" where
  "clear_slot_affinity env e s =
     (case slot_affinity s (get_reference e) of
        None \<Rightarrow> s
      | Some affinity \<Rightarrow>
          let s1 = s\<lparr>slot_affinity := (slot_affinity s)(get_reference e := None)\<rparr> in
          (case e of
             Node m p \<Rightarrow>
               s1\<lparr>element_by_slot := fold (\<lambda>n t. t - {(n, reference m)}) (it_slot env affinity) (element_by_slot s1)\<rparr>
           | Relation m in_node out_node p \<Rightarrow>
               s1\<lparr>element_by_slot_in := fold (\<lambda>n. remove_ref (n, in_node) (reference m)) (it_slot env affinity)
                                          (element_by_slot_in s1),
                  element_by_slot_out := fold (\<lambda>n. remove_ref (n, out_node) (reference m)) (it_slot env affinity)
                                          (element_by_slot_out s1)\<rparr>))"

definition set_slot_affinity :: "'v element \<Rightarrow> nat list \<Rightarrow> 'v element_index \<Rightarrow> 'v element_index" where
  "set_slot_affinity e ns s =
     (let affinity = (case slot_affinity s (get_reference e) of Some A \<Rightarrow> A | None \<Rightarrow> {});
          s1 = s\<lparr>slot_affinity := (slot_affinity s)(get_reference e \<mapsto> fold insert ns affinity)\<rparr>
      in case e of
           Node m p \<Rightarrow>
             s1\<lparr>element_by_slot := fold (\<lambda>n. insert (n, reference m)) ns (element_by_slot s1)\<rparr>
         | Relation m in_node out_node p \<Rightarrow>
             s1\<lparr>element_by_slot_in := fold (\<lambda>n. insert_ref (n, in_node) (reference m)) ns (element_by_slot_in s1),
                element_by_slot_out := fold (\<lambda>n. insert_ref (n, out_node) (reference m)) ns (element_by_slot_out s1)\<rparr>)"

subsection \<open>Source joins\<close>

definition get_join_virtual_ref :: "element_reference \<Rightarrow> element_reference \<Rightarrow> element_reference" where
  "get_join_virtual_ref r1 r2 = ElementReference ''&join'' (element_id r1 @ '':'' @ element_id r2)"

text \<open>The loops over the join keys that apply to a node, shared by insertion and deletion.\<close>

definition for_join_keys ::
    "'v index_env \<Rightarrow> element_metadata \<Rightarrow> 'v element_index \<Rightarrow>
     (query_join \<Rightarrow> nat list \<Rightarrow> query_join_key \<Rightarrow> 'v element_index \<Rightarrow> 'v element_index option) \<Rightarrow>
     'v element_index option" where
  "for_join_keys env m s body =
     (let spec = join_spec_by_label s in
      opt_foldl (\<lambda>s label.
        if label \<notin> set (labels m) then Some s
        else case spec label of
          None \<Rightarrow> Some s
        | Some joins \<Rightarrow>
            opt_foldl (\<lambda>s (qj, ns).
              opt_foldl (\<lambda>s qjk. if key_label qjk \<noteq> label then Some s else body qj ns qjk s)
                s (join_keys qj)) s joins)
        s (it_label env (dom spec)))"

definition delete_source_join ::
    "'v index_env \<Rightarrow> (element_reference \<Rightarrow> 'v element_index \<Rightarrow> 'v element_index option) \<Rightarrow>
     element_reference \<Rightarrow> query_join \<Rightarrow> query_join_key \<Rightarrow> 'v \<Rightarrow> 'v element_index \<Rightarrow> 'v element_index option" where
  "delete_source_join env del old qj key v s =
     (let outer = (join_id qj, value_hash env v) in
      case partial_joins s outer of
        None \<Rightarrow> Some s
      | Some pj \<Rightarrow>
          let did_remove = (case pj key of Some S \<Rightarrow> old \<in> S | None \<Rightarrow> False);
              pj1 = remove_ref key old pj;
              to_delete =
                (if did_remove then
                   concat (map (\<lambda>qjk2.
                     if key = qjk2 then []
                     else case pj1 qjk2 of
                       None \<Rightarrow> []
                     | Some others \<Rightarrow>
                         concat (map (\<lambda>other. [get_join_virtual_ref old other, get_join_virtual_ref other old])
                           (it_ref env others))) (join_keys qj))
                 else []);
              s1 = s\<lparr>partial_joins := (if dom pj1 = {} then (partial_joins s)(outer := None)
                                       else (partial_joins s)(outer \<mapsto> pj1))\<rparr>
          in opt_foldl (\<lambda>s r. del r s) s1 to_delete)"

definition delete_source_joins ::
    "'v index_env \<Rightarrow> (element_reference \<Rightarrow> 'v element_index \<Rightarrow> 'v element_index option) \<Rightarrow>
     'v element \<Rightarrow> 'v element_index \<Rightarrow> 'v element_index option" where
  "delete_source_joins env del old s =
     (case old of
        Relation m i out p \<Rightarrow> Some s
      | Node m p \<Rightarrow>
          for_join_keys env m s (\<lambda>qj ns qjk s.
            case property_get p (key_property qjk) of
              None \<Rightarrow> Some s
            | Some v \<Rightarrow> delete_source_join env del (get_reference old) qj qjk v s))"

definition virtual_relation :: "string \<Rightarrow> u64 \<Rightarrow> element_reference \<Rightarrow> element_reference \<Rightarrow> 'v element" where
  "virtual_relation label t in_node out_node =
     Relation \<lparr>reference = get_join_virtual_ref in_node out_node, labels = [label], effective_from = t\<rparr>
       in_node out_node []"

text \<open>The body of the loop of \<open>update_source_joins\<close> for one join key of the node.\<close>

definition update_join_key ::
    "'v index_env \<Rightarrow> ('v element \<Rightarrow> nat list \<Rightarrow> 'v element_index \<Rightarrow> 'v element_index option) \<Rightarrow>
     (element_reference \<Rightarrow> 'v element_index \<Rightarrow> 'v element_index option) \<Rightarrow>
     'v element option \<Rightarrow> 'v element \<Rightarrow>
     query_join \<Rightarrow> nat list \<Rightarrow> query_join_key \<Rightarrow> 'v element_index \<Rightarrow> 'v element_index option" where
  "update_join_key env setv del old new qj ns qjk s =
     (case property_get (get_properties new) (key_property qjk) of
        None \<Rightarrow> Some s
      | Some v \<Rightarrow>
          let old_v = (case old of Some (Node m p) \<Rightarrow> property_get p (key_property qjk) | _ \<Rightarrow> None) in
          if old_v = Some v then Some s
          else
            let r = get_reference new;
                outer = (join_id qj, value_hash env v);
                pj0 = (case partial_joins s outer of Some pj \<Rightarrow> pj | None \<Rightarrow> Map.empty);
                did_insert = (case pj0 qjk of Some S \<Rightarrow> r \<notin> S | None \<Rightarrow> True);
                pj = insert_ref qjk r pj0;
                s1 = s\<lparr>partial_joins := (partial_joins s)(outer \<mapsto> pj)\<rparr>;
                to_delete = (if did_insert then (case old_v of Some w \<Rightarrow> [w] | None \<Rightarrow> []) else []);
                to_set =
                  (if did_insert then
                     concat (map (\<lambda>qjk2.
                       if qjk = qjk2 then []
                       else case pj qjk2 of
                         None \<Rightarrow> []
                       | Some others \<Rightarrow>
                           concat (map (\<lambda>other.
                             [virtual_relation (join_id qj) (get_effective_from new) r other,
                              virtual_relation (join_id qj) (get_effective_from new) other r])
                             (it_ref env others))) (join_keys qj))
                   else []);
                s2 = (case old of
                        None \<Rightarrow> Some s1
                      | Some oe \<Rightarrow>
                          opt_foldl (\<lambda>s w. delete_source_join env del (get_reference oe) qj qjk w s) s1 to_delete)
            in case s2 of None \<Rightarrow> None | Some s2 \<Rightarrow> opt_foldl (\<lambda>s e. setv e ns s) s2 to_set)"

definition update_source_joins ::
    "'v index_env \<Rightarrow> ('v element \<Rightarrow> nat list \<Rightarrow> 'v element_index \<Rightarrow> 'v element_index option) \<Rightarrow>
     (element_reference \<Rightarrow> 'v element_index \<Rightarrow> 'v element_index option) \<Rightarrow>
     'v element option \<Rightarrow> 'v element \<Rightarrow> 'v element_index \<Rightarrow> 'v element_index option" where
  "update_source_joins env setv del old new s =
     (case new of
        Relation m i out p \<Rightarrow> Some s
      | Node m p \<Rightarrow> for_join_keys env m s (update_join_key env setv del old new))"

definition extract_join_spec_by_label ::
    "'x match_path \<Rightarrow> query_join list \<Rightarrow> (string \<rightharpoonup> (query_join \<times> nat list) list)" where
  "extract_join_spec_by_label mp joins =
     fold (\<lambda>j result.
       let ns = map fst (filter (\<lambda>(n, sl). join_id j \<in> set (spec_labels (spec sl))) (enumerate 0 (slots mp))) in
       if ns = [] then result
       else fold (\<lambda>jk result.
              result(key_label jk \<mapsto>
                (case result (key_label jk) of Some js \<Rightarrow> js | None \<Rightarrow> []) @ [(j, ns)])) (join_keys j) result)
       joins Map.empty"

subsection \<open>The archive\<close>

definition archive_insert :: "'v element \<Rightarrow> (u64, 'v element) btree \<Rightarrow> (u64, 'v element) btree" where
  "archive_insert e a = bt_insert (get_effective_from e) e a"

definition retrieve_previous_start_timestamp :: "(u64, 'v element) btree \<Rightarrow> u64 \<Rightarrow> u64 option" where
  "retrieve_previous_start_timestamp a t =
     (case next_back (map fst (bt_between 0 t a)) of None \<Rightarrow> Some 0 | Some v \<Rightarrow> Some v)"

definition archive_get :: "(u64, 'v element) btree \<Rightarrow> u64 \<Rightarrow> 'v element option" where
  "archive_get a t = map_option snd (next_back (bt_upto t a))"

text \<open>\<open>BTreeMap::range\<close> panics when the range starts after its end.\<close>

definition archive_get_range :: "(u64, 'v element) btree \<Rightarrow> u64 \<Rightarrow> u64 \<Rightarrow> 'v element list option" where
  "archive_get_range a lo hi = (if lo > hi then None else Some (map snd (bt_between lo hi a)))"

subsection \<open>The index interface\<close>

definition get_slot_element_by_ref :: "'v element_index \<Rightarrow> nat \<Rightarrow> element_reference \<Rightarrow> 'v element option" where
  "get_slot_element_by_ref s n r = (if (n, r) \<in> element_by_slot s then elements s r else None)"

definition get_slot_elements_by_inbound ::
    "'v index_env \<Rightarrow> 'v element_index \<Rightarrow> nat \<Rightarrow> element_reference \<Rightarrow> 'v element list" where
  "get_slot_elements_by_inbound env s n r =
     (case element_by_slot_in s (n, r) of
        None \<Rightarrow> []
      | Some refs \<Rightarrow> List.map_filter (elements s) (it_ref env refs))"

definition get_slot_elements_by_outbound ::
    "'v index_env \<Rightarrow> 'v element_index \<Rightarrow> nat \<Rightarrow> element_reference \<Rightarrow> 'v element list" where
  "get_slot_elements_by_outbound env s n r =
     (case element_by_slot_out s (n, r) of
        None \<Rightarrow> []
      | Some refs \<Rightarrow> List.map_filter (elements s) (it_ref env refs))"

definition get_element :: "'v element_index \<Rightarrow> element_reference \<Rightarrow> 'v element option" where
  "get_element s r = elements s r"

text \<open>Both operations of the recursion, by fuel.\<close>

fun delete_element :: "'v index_env \<Rightarrow> nat \<Rightarrow> element_reference \<Rightarrow> 'v element_index \<Rightarrow> 'v element_index option" where
  "delete_element env 0 r s = None"
| "delete_element env (Suc fuel) r s =
     (let s1 = s\<lparr>elements := (elements s)(r := None)\<rparr> in
      case elements s r of
        None \<Rightarrow> Some s1
      | Some old \<Rightarrow> delete_source_joins env (delete_element env fuel) old (clear_slot_affinity env old s1))"

definition archive_element :: "'v element \<Rightarrow> 'v element_index \<Rightarrow> 'v element_index" where
  "archive_element e s =
     (if archive_enabled s then
        s\<lparr>element_archive := (element_archive s)(get_reference e \<mapsto>
            archive_insert e (case element_archive s (get_reference e) of Some a \<Rightarrow> a | None \<Rightarrow> []))\<rparr>
      else s)"

fun set_element ::
    "'v index_env \<Rightarrow> nat \<Rightarrow> 'v element \<Rightarrow> nat list \<Rightarrow> 'v element_index \<Rightarrow> 'v element_index option" where
  "set_element env 0 e ns s = None"
| "set_element env (Suc fuel) e ns s =
     (let old = elements s (get_reference e);
          s1 = s\<lparr>elements := (elements s)(get_reference e \<mapsto> e)\<rparr>;
          s2 = (case old of Some prev \<Rightarrow> clear_slot_affinity env prev s1 | None \<Rightarrow> s1);
          s3 = set_slot_affinity e ns s2
      in map_option (archive_element e)
           (update_source_joins env (set_element env fuel) (delete_element env fuel) old e s3))"

definition clear_index :: "'v element_index \<Rightarrow> 'v element_index" where
  "clear_index s =
     s\<lparr>elements := Map.empty, slot_affinity := Map.empty, element_by_slot := {},
       element_by_slot_in := Map.empty, element_by_slot_out := Map.empty, partial_joins := Map.empty\<rparr>"

definition set_joins :: "'x match_path \<Rightarrow> query_join list \<Rightarrow> 'v element_index \<Rightarrow> 'v element_index" where
  "set_joins mp joins s = s\<lparr>join_spec_by_label := extract_join_spec_by_label mp joins\<rparr>"

definition get_element_as_at ::
    "'v element_index \<Rightarrow> element_reference \<Rightarrow> u64 \<Rightarrow> index_error + 'v element option" where
  "get_element_as_at s r t =
     (if \<not> archive_enabled s then Inl ArchiveNotEnabled
      else Inr (case element_archive s r of None \<Rightarrow> None | Some a \<Rightarrow> archive_get a t))"

definition get_element_versions ::
    "'v element_index \<Rightarrow> element_reference \<Rightarrow> timestamp_bound \<Rightarrow> u64 \<Rightarrow> index_error + 'v element list" where
  "get_element_versions s r lo hi =
     (if \<not> archive_enabled s then Inl ArchiveNotEnabled
      else case element_archive s r of
        None \<Rightarrow> Inr []
      | Some a \<Rightarrow>
          (case (case lo of
                   Included t \<Rightarrow> archive_get_range a t hi
                 | StartFromPrevious t \<Rightarrow>
                     (case retrieve_previous_start_timestamp a t of
                        None \<Rightarrow> None | Some t0 \<Rightarrow> archive_get_range a t0 hi)) of
             None \<Rightarrow> Inl RangePanic | Some es \<Rightarrow> Inr es))"

definition clear_archive :: "'v element_index \<Rightarrow> index_error + 'v element_index" where
  "clear_archive s =
     (if \<not> archive_enabled s then Inl NotSupported else Inr (s\<lparr>element_archive := Map.empty\<rparr>))"

subsection \<open>The tables follow the stored elements\<close>

definition env_ok :: "'v index_env \<Rightarrow> bool" where
  "env_ok env \<longleftrightarrow> iter_ok (it_slot env) \<and> iter_ok (it_label env) \<and> iter_ok (it_ref env)"

definition entry :: "('k \<rightharpoonup> 'a set) \<Rightarrow> 'k \<Rightarrow> 'a set" where
  "entry t k = (case t k of Some S \<Rightarrow> S | None \<Rightarrow> {})"

definition no_empty :: "('k \<rightharpoonup> 'a set) \<Rightarrow> bool" where
  "no_empty t \<longleftrightarrow> (\<forall>k S. t k = Some S \<longrightarrow> S \<noteq> {} \<and> finite S)"

text \<open>An element is at home in a slot: stored, with the slot among its affinities.\<close>

definition at_slot :: "'v element_index \<Rightarrow> nat \<Rightarrow> 'v element \<Rightarrow> bool" where
  "at_slot s n e \<longleftrightarrow> elements s (get_reference e) = Some e \<and> n \<in> entry (slot_affinity s) (get_reference e)"

text \<open>
  Agreement of the tables with the stored elements, for every reference other than those of
  \<open>X\<close>, of which the tables hold nothing.
\<close>

definition tables_except :: "element_reference set \<Rightarrow> 'v element_index \<Rightarrow> bool" where
  "tables_except X s \<longleftrightarrow>
     (\<forall>r e. elements s r = Some e \<longrightarrow> get_reference e = r) \<and>
     (\<forall>r A. slot_affinity s r = Some A \<longrightarrow> finite A) \<and>
     dom (slot_affinity s) = dom (elements s) - X \<and>
     (\<forall>n r. (n, r) \<in> element_by_slot s \<longleftrightarrow>
        r \<notin> X \<and> (\<exists>m p. elements s r = Some (Node m p)) \<and> n \<in> entry (slot_affinity s) r) \<and>
     (\<forall>n i r. r \<in> entry (element_by_slot_in s) (n, i) \<longleftrightarrow>
        r \<notin> X \<and> (\<exists>m out p. elements s r = Some (Relation m i out p)) \<and> n \<in> entry (slot_affinity s) r) \<and>
     (\<forall>n out r. r \<in> entry (element_by_slot_out s) (n, out) \<longleftrightarrow>
        r \<notin> X \<and> (\<exists>m i p. elements s r = Some (Relation m i out p)) \<and> n \<in> entry (slot_affinity s) r) \<and>
     no_empty (element_by_slot_in s) \<and> no_empty (element_by_slot_out s)"

definition tables_ok :: "'v element_index \<Rightarrow> bool" where
  "tables_ok s \<longleftrightarrow> tables_except {} s"

lemma entry_upd [simp]:
  "entry (t(k := v)) j = (if j = k then (case v of Some S \<Rightarrow> S | None \<Rightarrow> {}) else entry t j)"
  by (simp add: entry_def)

lemma entry_remove_ref: "entry (remove_ref k r t) j = (if j = k then entry t j - {r} else entry t j)"
  by (auto simp: remove_ref_def entry_def split: option.splits if_splits)

lemma entry_insert_ref: "entry (insert_ref k r t) j = (if j = k then insert r (entry t j) else entry t j)"
  by (auto simp: insert_ref_def entry_def split: option.splits if_splits)

lemma no_empty_remove_ref: "no_empty t \<Longrightarrow> no_empty (remove_ref k r t)"
  by (auto simp: remove_ref_def no_empty_def split: option.splits if_splits)

lemma no_empty_insert_ref: "no_empty t \<Longrightarrow> no_empty (insert_ref k r t)"
  by (auto simp: insert_ref_def no_empty_def split: option.splits if_splits)

lemma entry_fold_remove:
  "entry (fold (\<lambda>n. remove_ref (n, i) r) ns t) (n, j) =
     entry t (n, j) - (if n \<in> set ns \<and> i = j then {r} else {})"
  by (induction ns arbitrary: t) (auto simp: entry_remove_ref)

lemma entry_fold_insert:
  "entry (fold (\<lambda>n. insert_ref (n, i) r) ns t) (n, j) =
     entry t (n, j) \<union> (if n \<in> set ns \<and> i = j then {r} else {})"
  by (induction ns arbitrary: t) (auto simp: entry_insert_ref)

lemma no_empty_fold_remove: "no_empty t \<Longrightarrow> no_empty (fold (\<lambda>n. remove_ref (n, i) r) ns t)"
  by (rule fold_invariant [where P = no_empty]) (auto simp: no_empty_remove_ref)

lemma no_empty_fold_insert: "no_empty t \<Longrightarrow> no_empty (fold (\<lambda>n. insert_ref (n, i) r) ns t)"
  by (rule fold_invariant [where P = no_empty]) (auto simp: no_empty_insert_ref)

lemma fold_minus_slots: "fold (\<lambda>n t. t - {(n, r)}) ns t = t - (\<lambda>n. (n, r)) ` set ns"
  by (induction ns arbitrary: t) auto

lemma fold_insert_slots: "fold (\<lambda>n. insert (n, r)) ns t = t \<union> (\<lambda>n. (n, r)) ` set ns"
  by (induction ns arbitrary: t) auto

lemma fold_insert_set: "fold insert ns A = A \<union> set ns"
  by (induction ns arbitrary: A) auto

lemma tables_exceptI:
  assumes "\<And>r e. elements s r = Some e \<Longrightarrow> get_reference e = r"
    and "\<And>r A. slot_affinity s r = Some A \<Longrightarrow> finite A"
    and "dom (slot_affinity s) = dom (elements s) - X"
    and "\<And>n r. (n, r) \<in> element_by_slot s \<longleftrightarrow>
        r \<notin> X \<and> (\<exists>m p. elements s r = Some (Node m p)) \<and> n \<in> entry (slot_affinity s) r"
    and "\<And>n i r. r \<in> entry (element_by_slot_in s) (n, i) \<longleftrightarrow>
        r \<notin> X \<and> (\<exists>m out p. elements s r = Some (Relation m i out p)) \<and> n \<in> entry (slot_affinity s) r"
    and "\<And>n out r. r \<in> entry (element_by_slot_out s) (n, out) \<longleftrightarrow>
        r \<notin> X \<and> (\<exists>m i p. elements s r = Some (Relation m i out p)) \<and> n \<in> entry (slot_affinity s) r"
    and "no_empty (element_by_slot_in s)" "no_empty (element_by_slot_out s)"
  shows "tables_except X s"
  unfolding tables_except_def by (intro conjI allI impI) (rule assms; assumption)+

lemma tables_exceptD:
  assumes "tables_except X s"
  shows "elements s r = Some e \<Longrightarrow> get_reference e = r"
    and "slot_affinity s r = Some A \<Longrightarrow> finite A"
    and "dom (slot_affinity s) = dom (elements s) - X"
    and "(n, r) \<in> element_by_slot s \<longleftrightarrow>
        r \<notin> X \<and> (\<exists>m p. elements s r = Some (Node m p)) \<and> n \<in> entry (slot_affinity s) r"
    and "r \<in> entry (element_by_slot_in s) (n, i) \<longleftrightarrow>
        r \<notin> X \<and> (\<exists>m out p. elements s r = Some (Relation m i out p)) \<and> n \<in> entry (slot_affinity s) r"
    and "r \<in> entry (element_by_slot_out s) (n, out) \<longleftrightarrow>
        r \<notin> X \<and> (\<exists>m i p. elements s r = Some (Relation m i out p)) \<and> n \<in> entry (slot_affinity s) r"
    and "no_empty (element_by_slot_in s)" "no_empty (element_by_slot_out s)"
  using assms unfolding tables_except_def by simp_all

lemma clear_frame [simp]:
  "elements (clear_slot_affinity env e s) = elements s"
  "partial_joins (clear_slot_affinity env e s) = partial_joins s"
  "join_spec_by_label (clear_slot_affinity env e s) = join_spec_by_label s"
  "element_archive (clear_slot_affinity env e s) = element_archive s"
  "archive_enabled (clear_slot_affinity env e s) = archive_enabled s"
  by (simp_all add: clear_slot_affinity_def Let_def split: option.split element.split)

lemma clear_fields:
  assumes "env_ok env" "slot_affinity s (get_reference e) = Some A" "finite A"
  defines "s' \<equiv> clear_slot_affinity env e s"
  shows "slot_affinity s' = (slot_affinity s)(get_reference e := None)"
    and "(n, r) \<in> element_by_slot s' \<longleftrightarrow>
      (n, r) \<in> element_by_slot s \<and> \<not> ((\<exists>m p. e = Node m p) \<and> r = get_reference e \<and> n \<in> A)"
    and "r \<in> entry (element_by_slot_in s') (n, i) \<longleftrightarrow>
      r \<in> entry (element_by_slot_in s) (n, i) \<and> \<not> ((\<exists>m out p. e = Relation m i out p) \<and> r = get_reference e \<and> n \<in> A)"
    and "r \<in> entry (element_by_slot_out s') (n, i) \<longleftrightarrow>
      r \<in> entry (element_by_slot_out s) (n, i) \<and> \<not> ((\<exists>m j p. e = Relation m j i p) \<and> r = get_reference e \<and> n \<in> A)"
    and "no_empty (element_by_slot_in s) \<Longrightarrow> no_empty (element_by_slot_in s')"
    and "no_empty (element_by_slot_out s) \<Longrightarrow> no_empty (element_by_slot_out s')"
proof -
  have it: "set (it_slot env A) = A" using assms by (simp add: env_ok_def iter_ok_def)
  note d = s'_def clear_slot_affinity_def it
  show "slot_affinity s' = (slot_affinity s)(get_reference e := None)"
    using assms(2) by (cases e) (simp_all add: d)
  show "(n, r) \<in> element_by_slot s' \<longleftrightarrow>
      (n, r) \<in> element_by_slot s \<and> \<not> ((\<exists>m p. e = Node m p) \<and> r = get_reference e \<and> n \<in> A)"
    using assms(2) by (cases e) (auto simp: d fold_minus_slots)
  show "r \<in> entry (element_by_slot_in s') (n, i) \<longleftrightarrow>
      r \<in> entry (element_by_slot_in s) (n, i) \<and> \<not> ((\<exists>m out p. e = Relation m i out p) \<and> r = get_reference e \<and> n \<in> A)"
    using assms(2) by (cases e) (auto simp: d entry_fold_remove split: if_splits)
  show "r \<in> entry (element_by_slot_out s') (n, i) \<longleftrightarrow>
      r \<in> entry (element_by_slot_out s) (n, i) \<and> \<not> ((\<exists>m j p. e = Relation m j i p) \<and> r = get_reference e \<and> n \<in> A)"
    using assms(2) by (cases e) (auto simp: d entry_fold_remove split: if_splits)
  show "no_empty (element_by_slot_in s) \<Longrightarrow> no_empty (element_by_slot_in s')"
    "no_empty (element_by_slot_out s) \<Longrightarrow> no_empty (element_by_slot_out s')"
    using assms(2) by (cases e; simp add: d no_empty_fold_remove)+
qed

text \<open>Taking an element out of the tables.\<close>

lemma tables_clear:
  assumes env: "env_ok env" and s: "tables_except {} s" and old: "elements s r = Some e"
    and v: "\<And>e'. v = Some e' \<Longrightarrow> get_reference e' = r"
  shows "tables_except {r} (clear_slot_affinity env e (s\<lparr>elements := (elements s)(r := v)\<rparr>))"
proof -
  note D = tables_exceptD [OF s]
  have r: "get_reference e = r" using D(1) old by blast
  obtain A where A: "slot_affinity s r = Some A" using D(3) old by (metis Diff_empty domD domI)
  note F = clear_fields [OF env, of "s\<lparr>elements := (elements s)(r := v)\<rparr>" e A, simplified, unfolded r, OF A D(2) [OF A]]
  show ?thesis
  proof (rule tables_exceptI, goal_cases)
    case (1 k d)
    then show ?case using D(1) v by (cases "k = r") auto
  next
    case (2 k B)
    then show ?case using D(2) by (cases "k = r") (auto simp: F)
  next
    case 3
    then show ?case using D(3) by (auto simp: F split: if_splits)
  next
    case (4 n k)
    then show ?case using D(4) [of n k] old A by (auto simp: F entry_def)
  next
    case (5 n i k)
    then show ?case using D(5) [of k n i] old A by (auto simp: F entry_def [of "slot_affinity s"])
  next
    case (6 n i k)
    then show ?case using D(6) [of k n i] old A by (auto simp: F entry_def [of "slot_affinity s"])
  qed (simp_all add: F D)
qed

lemma tables_absent:
  assumes s: "tables_except {} s" and old: "elements s r = None"
    and v: "\<And>e'. v = Some e' \<Longrightarrow> get_reference e' = r"
  shows "tables_except {r} (s\<lparr>elements := (elements s)(r := v)\<rparr>)"
proof -
  note D = tables_exceptD [OF s]
  have A: "slot_affinity s r = None" using D(3) old by (metis Diff_empty domIff)
  show ?thesis
  proof (rule tables_exceptI, goal_cases)
    case (1 k d)
    then show ?case using D(1) v by (cases "k = r") auto
  next
    case (2 k B)
    then show ?case using D(2) by simp
  next
    case 3
    then show ?case using D(3) A by auto
  next
    case (4 n k)
    then show ?case using D(4) [of n k] old by auto
  next
    case (5 n i k)
    then show ?case using D(5) [of k n i] old by auto
  next
    case (6 n i k)
    then show ?case using D(6) [of k n i] old by auto
  qed (simp_all add: D)
qed

lemma tables_removed:
  assumes "tables_except {r} s" "elements s r = None"
  shows "tables_except {} s"
proof -
  note D = tables_exceptD [OF assms(1)]
  have "slot_affinity s r = None" using D(3) by (metis DiffD2 domIff insertCI)
  then show ?thesis
    using D(1,2,3,7,8) D(4) D(5) D(6) assms(2)
    by (intro tables_exceptI) (auto simp: entry_def)
qed

text \<open>Putting an element into the tables.\<close>

lemma set_affinity_frame [simp]:
  "elements (set_slot_affinity e ns s) = elements s"
  "partial_joins (set_slot_affinity e ns s) = partial_joins s"
  "join_spec_by_label (set_slot_affinity e ns s) = join_spec_by_label s"
  "element_archive (set_slot_affinity e ns s) = element_archive s"
  "archive_enabled (set_slot_affinity e ns s) = archive_enabled s"
  by (simp_all add: set_slot_affinity_def Let_def split: element.split)

lemma tables_set:
  assumes s: "tables_except {r} s" and e: "elements s r = Some e"
  shows "tables_except {} (set_slot_affinity e ns s) \<and>
    slot_affinity (set_slot_affinity e ns s) = (slot_affinity s)(r \<mapsto> set ns)"
proof -
  note D = tables_exceptD [OF s]
  have r: "get_reference e = r" using D(1) e by blast
  have A: "slot_affinity s r = None" using D(3) by (metis DiffD2 domIff insertCI)
  let ?s = "set_slot_affinity e ns s"
  have aff: "slot_affinity ?s = (slot_affinity s)(r \<mapsto> set ns)"
    using r A by (cases e) (simp_all add: set_slot_affinity_def fold_insert_set)
  have bs: "(n, k) \<in> element_by_slot ?s \<longleftrightarrow>
      (n, k) \<in> element_by_slot s \<or> (\<exists>m p. e = Node m p) \<and> k = r \<and> n \<in> set ns" for n k
    using r by (cases e) (auto simp: set_slot_affinity_def fold_insert_slots)
  have bi: "k \<in> entry (element_by_slot_in ?s) (n, i) \<longleftrightarrow>
      k \<in> entry (element_by_slot_in s) (n, i) \<or> (\<exists>m out p. e = Relation m i out p) \<and> k = r \<and> n \<in> set ns" for n i k
    using r by (cases e) (auto simp: set_slot_affinity_def entry_fold_insert split: if_splits)
  have bo: "k \<in> entry (element_by_slot_out ?s) (n, i) \<longleftrightarrow>
      k \<in> entry (element_by_slot_out s) (n, i) \<or> (\<exists>m j p. e = Relation m j i p) \<and> k = r \<and> n \<in> set ns" for n i k
    using r by (cases e) (auto simp: set_slot_affinity_def entry_fold_insert split: if_splits)
  have ne: "no_empty (element_by_slot_in ?s)" "no_empty (element_by_slot_out ?s)"
    using D(7,8) by (cases e; simp add: set_slot_affinity_def no_empty_fold_insert)+
  have "tables_except {} ?s"
  proof (rule tables_exceptI, goal_cases)
    case (1 k d)
    then show ?case using D(1) by simp
  next
    case (2 k B)
    then show ?case using D(2) by (auto simp: aff split: if_splits)
  next
    case 3
    then show ?case using D(3) e by (auto simp: aff)
  next
    case (4 n k)
    then show ?case using D(4) [of n k] e by (auto simp: aff bs)
  next
    case (5 n i k)
    then show ?case using D(5) [of k n i] e by (auto simp: aff bi)
  next
    case (6 n i k)
    then show ?case using D(6) [of k n i] e by (auto simp: aff bo)
  qed (fact ne)+
  with aff show ?thesis by simp
qed

subsection \<open>The invariant of the index\<close>

text \<open>Nodes do not carry the reserved source of virtual relations.\<close>

definition is_virtual :: "element_reference \<Rightarrow> bool" where
  "is_virtual r \<longleftrightarrow> source_id r = ''&join''"

definition archive_ok :: "(element_reference \<rightharpoonup> (u64, 'v element) btree) \<Rightarrow> bool" where
  "archive_ok ar \<longleftrightarrow>
     (\<forall>r a. ar r = Some a \<longrightarrow>
        bt_ok a \<and> (\<forall>t e. bt_get a t = Some e \<longrightarrow> get_effective_from e = t \<and> get_reference e = r))"

definition index_inv :: "'v element_index \<Rightarrow> bool" where
  "index_inv s \<longleftrightarrow> tables_except {} s \<and> (\<forall>r m p. elements s r = Some (Node m p) \<longrightarrow> \<not> is_virtual r) \<and>
     archive_ok (element_archive s)"

text \<open>Two states agree on everything but virtual relations and join bookkeeping.\<close>

definition agree :: "'v element_index \<Rightarrow> 'v element_index \<Rightarrow> bool" where
  "agree s s' \<longleftrightarrow>
     (\<forall>r. \<not> is_virtual r \<longrightarrow> elements s' r = elements s r \<and> slot_affinity s' r = slot_affinity s r \<and>
        element_archive s' r = element_archive s r) \<and>
     join_spec_by_label s' = join_spec_by_label s \<and> archive_enabled s' = archive_enabled s"

lemma agree_refl [simp]: "agree s s"
  by (simp add: agree_def)

lemma agree_trans: "agree s s' \<Longrightarrow> agree s' s'' \<Longrightarrow> agree s s''"
  by (simp add: agree_def)

lemma is_virtual_ref [simp]: "is_virtual (get_join_virtual_ref r1 r2)"
  by (simp add: is_virtual_def get_join_virtual_ref_def)

lemma tables_frame [simp]:
  "tables_except X (s\<lparr>partial_joins := pj\<rparr>) = tables_except X s"
  "tables_except X (s\<lparr>element_archive := ar\<rparr>) = tables_except X s"
  "tables_except X (s\<lparr>join_spec_by_label := js\<rparr>) = tables_except X s"
  "tables_except X (s\<lparr>archive_enabled := b\<rparr>) = tables_except X s"
  by (simp_all add: tables_except_def)

lemma index_inv_frame [simp]:
  "index_inv (s\<lparr>partial_joins := pj\<rparr>) = index_inv s"
  "index_inv (s\<lparr>join_spec_by_label := js\<rparr>) = index_inv s"
  "index_inv (s\<lparr>archive_enabled := b\<rparr>) = index_inv s"
  by (simp_all add: index_inv_def)

lemma agree_frame [simp]:
  "agree s (s'\<lparr>partial_joins := pj\<rparr>) = agree s s'"
  by (simp_all add: agree_def)

lemma archive_ok_element:
  "archive_ok (element_archive s) \<Longrightarrow> archive_ok (element_archive (archive_element e s))"
  by (auto simp: archive_ok_def archive_element_def archive_insert_def bt_simps
      split: option.splits if_splits)

lemma index_inv_archive: "index_inv s \<Longrightarrow> index_inv (archive_element e s)"
  using archive_ok_element [of s e] by (simp add: index_inv_def archive_element_def)

text \<open>The two core steps: dropping an element and placing one.\<close>

definition drop_core :: "'v index_env \<Rightarrow> element_reference \<Rightarrow> 'v element_index \<Rightarrow> 'v element_index" where
  "drop_core env r s =
     (let s1 = s\<lparr>elements := (elements s)(r := None)\<rparr> in
      case elements s r of None \<Rightarrow> s1 | Some old \<Rightarrow> clear_slot_affinity env old s1)"

definition place_core :: "'v index_env \<Rightarrow> 'v element \<Rightarrow> nat list \<Rightarrow> 'v element_index \<Rightarrow> 'v element_index" where
  "place_core env e ns s =
     (let s1 = s\<lparr>elements := (elements s)(get_reference e \<mapsto> e)\<rparr> in
      set_slot_affinity e ns
        (case elements s (get_reference e) of Some prev \<Rightarrow> clear_slot_affinity env prev s1 | None \<Rightarrow> s1))"

lemma clear_affinity_only:
  "get_reference e = r \<Longrightarrow> k \<noteq> r \<Longrightarrow> slot_affinity (clear_slot_affinity env e s) k = slot_affinity s k"
  by (simp add: clear_slot_affinity_def Let_def split: option.split element.split)

lemma drop_core_spec:
  assumes env: "env_ok env" and s: "tables_except {} s"
  shows "tables_except {} (drop_core env r s)"
    and "elements (drop_core env r s) = (elements s)(r := None)"
    and "k \<noteq> r \<Longrightarrow> slot_affinity (drop_core env r s) k = slot_affinity s k"
    and "join_spec_by_label (drop_core env r s) = join_spec_by_label s"
    and "archive_enabled (drop_core env r s) = archive_enabled s"
    and "element_archive (drop_core env r s) = element_archive s"
proof -
  show el: "elements (drop_core env r s) = (elements s)(r := None)"
    and "join_spec_by_label (drop_core env r s) = join_spec_by_label s"
    and "archive_enabled (drop_core env r s) = archive_enabled s"
    and "element_archive (drop_core env r s) = element_archive s"
    by (simp_all add: drop_core_def Let_def split: option.split)
  have "tables_except {r} (drop_core env r s)"
    using tables_clear [OF env s, of r _ None] tables_absent [OF s, of r None]
    by (cases "elements s r") (simp_all add: drop_core_def)
  then show "tables_except {} (drop_core env r s)" by (rule tables_removed) (simp add: el)
  show "slot_affinity (drop_core env r s) k = slot_affinity s k" if "k \<noteq> r"
    using that tables_exceptD(1) [OF s, of r]
    by (cases "elements s r") (simp_all add: drop_core_def clear_affinity_only)
qed

lemma place_core_spec:
  assumes env: "env_ok env" and s: "tables_except {} s"
  shows "tables_except {} (place_core env e ns s)"
    and "elements (place_core env e ns s) = (elements s)(get_reference e \<mapsto> e)"
    and "slot_affinity (place_core env e ns s) (get_reference e) = Some (set ns)"
    and "k \<noteq> get_reference e \<Longrightarrow> slot_affinity (place_core env e ns s) k = slot_affinity s k"
    and "join_spec_by_label (place_core env e ns s) = join_spec_by_label s"
    and "archive_enabled (place_core env e ns s) = archive_enabled s"
    and "element_archive (place_core env e ns s) = element_archive s"
proof -
  let ?r = "get_reference e"
  define s2 where "s2 = (let s1 = s\<lparr>elements := (elements s)(?r \<mapsto> e)\<rparr> in
      case elements s ?r of Some prev \<Rightarrow> clear_slot_affinity env prev s1 | None \<Rightarrow> s1)"
  have p: "place_core env e ns s = set_slot_affinity e ns s2"
    by (simp add: place_core_def s2_def Let_def)
  have el: "elements s2 = (elements s)(?r \<mapsto> e)" by (cases "elements s ?r") (simp_all add: s2_def)
  have tr: "tables_except {?r} s2"
  proof (cases "elements s ?r")
    case None
    then show ?thesis using tables_absent [OF s None, of "Some e"] by (simp add: s2_def)
  next
    case (Some prev)
    then show ?thesis using tables_clear [OF env s Some, of "Some e"] by (simp add: s2_def)
  qed
  have "elements s2 ?r = Some e" by (simp add: el)
  from tables_set [OF tr this, of ns]
  have t: "tables_except {} (place_core env e ns s)"
    "slot_affinity (place_core env e ns s) = (slot_affinity s2)(?r \<mapsto> set ns)"
    unfolding p by blast+
  show "tables_except {} (place_core env e ns s)" by (fact t)
  show "slot_affinity (place_core env e ns s) ?r = Some (set ns)" by (simp add: t)
  show "elements (place_core env e ns s) = (elements s)(?r \<mapsto> e)" by (simp add: p el)
  show "join_spec_by_label (place_core env e ns s) = join_spec_by_label s"
    "archive_enabled (place_core env e ns s) = archive_enabled s"
    "element_archive (place_core env e ns s) = element_archive s"
    by (cases "elements s ?r"; simp add: p s2_def)+
  show "slot_affinity (place_core env e ns s) k = slot_affinity s k" if "k \<noteq> ?r"
    using that tables_exceptD(1) [OF s, of ?r]
    by (cases "elements s ?r") (simp_all add: t(2) s2_def clear_affinity_only)
qed

lemma delete_element_core:
  "delete_element env (Suc fuel) r s =
     (case elements s r of
        None \<Rightarrow> Some (drop_core env r s)
      | Some old \<Rightarrow> delete_source_joins env (delete_element env fuel) old (drop_core env r s))"
  by (simp add: drop_core_def Let_def split: option.split)

lemma set_element_core:
  "set_element env (Suc fuel) e ns s =
     map_option (archive_element e)
       (update_source_joins env (set_element env fuel) (delete_element env fuel)
          (elements s (get_reference e)) e (place_core env e ns s))"
  by (simp add: place_core_def Let_def split: option.split)

definition kept :: "'v element_index \<Rightarrow> 'v element_index \<Rightarrow> bool" where
  "kept s s' \<longleftrightarrow> index_inv s' \<and> agree s s'"

lemma kept_trans: "kept s s' \<Longrightarrow> kept s' s'' \<Longrightarrow> kept s s''"
  using agree_trans by (auto simp: kept_def)

lemma kept_frame [simp]:
  "kept s (s'\<lparr>partial_joins := pj\<rparr>) = kept s s'"
  by (simp_all add: kept_def)

lemma kept_refl: "index_inv s \<Longrightarrow> kept s s"
  by (simp add: kept_def)

lemma kept_archive:
  assumes "kept s s'" "is_virtual (get_reference e)"
  shows "kept s (archive_element e s')"
proof -
  have "agree s (archive_element e s')"
    using assms by (auto simp: kept_def agree_def archive_element_def)
  then show ?thesis using assms(1) index_inv_archive [of s' e] by (simp add: kept_def)
qed

lemma delete_virtual:
  assumes env: "env_ok env" and s: "index_inv s" and r: "is_virtual r"
  shows "\<exists>s'. delete_element env (Suc fuel) r s = Some s' \<and> kept s s'"
proof -
  have t: "tables_except {} s" using s by (simp add: index_inv_def)
  note D = drop_core_spec [OF env t, where r = r]
  have k: "kept s (drop_core env r s)"
    using s D r by (auto simp: kept_def index_inv_def agree_def)
  show ?thesis
  proof (cases "elements s r")
    case None
    then show ?thesis using k by (simp only: delete_element_core option.case) blast
  next
    case (Some e)
    then obtain m i out p where "e = Relation m i out p"
      using s r by (cases e) (auto simp: index_inv_def)
    then show ?thesis using k Some
      by (simp only: delete_element_core option.case delete_source_joins_def element.case) blast
  qed
qed

lemma set_virtual:
  assumes env: "env_ok env" and s: "index_inv s" and r: "is_virtual (get_reference (Relation m i out p))"
  shows "\<exists>s'. set_element env (Suc fuel) (Relation m i out p) ns s = Some s' \<and> kept s s'"
proof -
  let ?e = "Relation m i out p"
  have t: "tables_except {} s" using s by (simp add: index_inv_def)
  note D = place_core_spec [OF env t, where e = ?e and ns = ns]
  have "kept s (place_core env ?e ns s)"
    unfolding kept_def index_inv_def agree_def
    using s D r by (auto simp: index_inv_def)
  then show ?thesis
    unfolding set_element_core update_source_joins_def using kept_archive [OF _ r] by simp
qed

lemma set_virtual_relation:
  assumes "env_ok env" "index_inv s"
  shows "\<exists>s'. set_element env (Suc fuel) (virtual_relation l t x y) ns s = Some s' \<and> kept s s'"
  unfolding virtual_relation_def by (rule set_virtual [OF assms]) simp

text \<open>Loops whose bodies keep the index.\<close>

lemma opt_foldl_kept:
  assumes "kept s0 s" and "\<And>x s. x \<in> set xs \<Longrightarrow> index_inv s \<Longrightarrow> \<exists>s'. f s x = Some s' \<and> kept s s'"
  shows "\<exists>s'. opt_foldl f s xs = Some s' \<and> kept s0 s'"
  using assms(1)
  by (rule opt_foldl_defined [where P = "kept s0"]) (metis assms(2) kept_def kept_trans)

lemma for_join_keys_kept:
  assumes s: "index_inv s"
    and body: "\<And>qj ns qjk s. index_inv s \<Longrightarrow> \<exists>s'. body qj ns qjk s = Some s' \<and> kept s s'"
  shows "\<exists>s'. for_join_keys env m s body = Some s' \<and> kept s s'"
proof -
  have keys: "\<exists>s'. opt_foldl (\<lambda>s qjk. if key_label qjk \<noteq> l then Some s else body qj ns qjk s) s ks = Some s' \<and> kept s s'"
    if "index_inv s" for l qj ns s ks
    by (rule opt_foldl_kept [OF kept_refl [OF that]]) (use body kept_refl in auto)
  have joins: "\<exists>s'. opt_foldl (\<lambda>s (qj, ns). opt_foldl (\<lambda>s qjk. if key_label qjk \<noteq> l then Some s else body qj ns qjk s)
      s (join_keys qj)) s js = Some s' \<and> kept s s'"
    if "index_inv s" for l s js
    by (rule opt_foldl_kept [OF kept_refl [OF that]]) (use keys in \<open>auto split: prod.split\<close>)
  show ?thesis
    unfolding for_join_keys_def Let_def
    by (rule opt_foldl_kept [OF kept_refl [OF s]])
      (use joins kept_refl in \<open>auto split: option.split\<close>)
qed

lemma delete_source_join_kept:
  assumes "index_inv s" and del: "\<And>r s. is_virtual r \<Longrightarrow> index_inv s \<Longrightarrow> \<exists>s'. del r s = Some s' \<and> kept s s'"
  shows "\<exists>s'. delete_source_join env del old qj key v s = Some s' \<and> kept s s'"
proof (cases "partial_joins s (join_id qj, value_hash env v)")
  case None
  then show ?thesis using assms(1) by (simp add: delete_source_join_def kept_refl)
next
  case (Some pj)
  show ?thesis
    unfolding delete_source_join_def Let_def Some option.case
    by (rule opt_foldl_kept)
      (use assms(1) del in \<open>auto simp: kept_refl split: if_splits option.splits\<close>)
qed

lemma delete_source_joins_kept:
  assumes "index_inv s" and del: "\<And>r s. is_virtual r \<Longrightarrow> index_inv s \<Longrightarrow> \<exists>s'. del r s = Some s' \<and> kept s s'"
  shows "\<exists>s'. delete_source_joins env del old s = Some s' \<and> kept s s'"
proof (cases old)
  case (Node m p)
  show ?thesis
    unfolding delete_source_joins_def Node element.case
    by (rule for_join_keys_kept [OF assms(1)])
      (use delete_source_join_kept [OF _ del] kept_refl in \<open>auto split: option.split\<close>)
qed (use assms(1) kept_refl in \<open>simp add: delete_source_joins_def\<close>)

lemma update_join_key_kept:
  assumes s: "index_inv s"
    and del: "\<And>r s. is_virtual r \<Longrightarrow> index_inv s \<Longrightarrow> \<exists>s'. del r s = Some s' \<and> kept s s'"
    and setv: "\<And>l t x y ns s. index_inv s \<Longrightarrow> \<exists>s'. setv (virtual_relation l t x y) ns s = Some s' \<and> kept s s'"
  shows "\<exists>s'. update_join_key env setv del old new qj ns qjk s = Some s' \<and> kept s s'"
proof (cases "property_get (get_properties new) (key_property qjk)")
  case None
  then show ?thesis using s by (simp add: update_join_key_def kept_refl)
next
  case (Some v)
  have dels: "\<exists>s'. (case old of None \<Rightarrow> Some s1
        | Some oe \<Rightarrow> opt_foldl (\<lambda>s w. delete_source_join env del (get_reference oe) qj qjk w s) s1 ws) = Some s' \<and> kept s s'"
    if "kept s s1" for s1 ws
    using that opt_foldl_kept [OF that, of ws] delete_source_join_kept [OF _ del]
    by (cases old) auto
  have sets: "\<exists>s'. opt_foldl (\<lambda>s e. setv e ns s) s2 es = Some s' \<and> kept s s'"
    if "kept s s2" "\<And>e. e \<in> set es \<Longrightarrow> \<exists>l t x y. e = virtual_relation l t x y" for s2 es
    by (rule opt_foldl_kept [OF that(1)]) (use that(2) setv in metis)
  have both: "\<exists>s'. (case (case old of None \<Rightarrow> Some s1
        | Some oe \<Rightarrow> opt_foldl (\<lambda>s w. delete_source_join env del (get_reference oe) qj qjk w s) s1 ws) of
        None \<Rightarrow> None | Some s2 \<Rightarrow> opt_foldl (\<lambda>s e. setv e ns s) s2 es) = Some s' \<and> kept s s'"
    if k: "kept s s1" and es: "\<And>e. e \<in> set es \<Longrightarrow> \<exists>l t x y. e = virtual_relation l t x y" for s1 ws es
  proof -
    obtain s2 where "(case old of None \<Rightarrow> Some s1
        | Some oe \<Rightarrow> opt_foldl (\<lambda>s w. delete_source_join env del (get_reference oe) qj qjk w s) s1 ws) = Some s2"
      "kept s s2" using dels [OF k] by blast
    then show ?thesis using sets [of s2 es] es by simp
  qed
  show ?thesis
  proof (cases "(case old of Some (Node m p) \<Rightarrow> property_get p (key_property qjk) | _ \<Rightarrow> None) = Some v")
    case True
    then show ?thesis using s by (simp add: update_join_key_def Some kept_refl)
  next
    case False
    show ?thesis
      unfolding update_join_key_def Some option.case Let_def if_not_P [OF False]
      by (rule both) (use s in \<open>auto simp: kept_refl split: if_splits option.splits\<close>)
  qed
qed

lemma update_source_joins_kept:
  assumes s: "index_inv s"
    and del: "\<And>r s. is_virtual r \<Longrightarrow> index_inv s \<Longrightarrow> \<exists>s'. del r s = Some s' \<and> kept s s'"
    and setv: "\<And>l t x y ns s. index_inv s \<Longrightarrow> \<exists>s'. setv (virtual_relation l t x y) ns s = Some s' \<and> kept s s'"
  shows "\<exists>s'. update_source_joins env setv del old new s = Some s' \<and> kept s s'"
proof (cases new)
  case (Node m p)
  show ?thesis
    unfolding update_source_joins_def Node element.case
    by (rule for_join_keys_kept [OF s], rule update_join_key_kept) (assumption | rule del | rule setv)+
qed (use s kept_refl in \<open>simp add: update_source_joins_def\<close>)

text \<open>Fuel two is enough: virtual relations have no joins of their own.\<close>

lemma delete_element_spec:
  assumes env: "env_ok env" and s: "index_inv s"
  shows "\<exists>s'. delete_element env (Suc (Suc fuel)) r s = Some s' \<and> kept (drop_core env r s) s'"
proof -
  have t: "tables_except {} s" using s by (simp add: index_inv_def)
  have inv: "index_inv (drop_core env r s)"
    using s drop_core_spec(1,2,6) [OF env t] by (simp add: index_inv_def)
  show ?thesis
  proof (cases "elements s r")
    case None
    then show ?thesis using inv by (simp only: delete_element_core option.case) (auto simp: kept_refl)
  next
    case (Some old)
    show ?thesis
      unfolding delete_element_core [of env "Suc fuel"] Some option.case
      by (rule delete_source_joins_kept [OF inv delete_virtual [OF env]])
  qed
qed

lemma set_element_spec:
  assumes env: "env_ok env" and s: "index_inv s"
    and e: "\<And>m p. e = Node m p \<Longrightarrow> \<not> is_virtual (reference m)"
  shows "\<exists>s'. set_element env (Suc (Suc fuel)) e ns s = Some (archive_element e s') \<and>
    kept (place_core env e ns s) s'"
proof -
  have t: "tables_except {} s" using s by (simp add: index_inv_def)
  have inv: "index_inv (place_core env e ns s)"
    using s e place_core_spec(1,2,7) [OF env t] by (auto simp: index_inv_def split: if_splits)
  have "\<exists>s'. update_source_joins env (set_element env (Suc fuel)) (delete_element env (Suc fuel))
      (elements s (get_reference e)) e (place_core env e ns s) = Some s' \<and> kept (place_core env e ns s) s'"
    by (rule update_source_joins_kept [OF inv])
      ((rule delete_virtual [OF env] set_virtual_relation [OF env]; assumption)+)
  then show ?thesis unfolding set_element_core [of env "Suc fuel"] by auto
qed

subsection \<open>Lookups\<close>

lemma index_inv_new: "index_inv new_index"
  by (auto simp: index_inv_def new_index_def archive_ok_def no_empty_def entry_def intro!: tables_exceptI)

lemma index_inv_clear: "index_inv s \<Longrightarrow> index_inv (clear_index s)"
  by (auto simp: index_inv_def clear_index_def no_empty_def entry_def intro!: tables_exceptI)

lemma get_slot_element_by_ref_iff:
  assumes "index_inv s"
  shows "get_slot_element_by_ref s n r = Some e \<longleftrightarrow>
    at_slot s n e \<and> get_reference e = r \<and> (\<exists>m p. e = Node m p)"
proof -
  have t: "tables_except {} s" using assms by (simp add: index_inv_def)
  show ?thesis
    using tables_exceptD(4) [OF t, of n r] tables_exceptD(1) [OF t, of r]
    by (auto simp: get_slot_element_by_ref_def at_slot_def)
qed

lemma by_slot_set:
  assumes "index_inv s" "env_ok env"
  shows "set (get_slot_elements_by_inbound env s n i) = {e. at_slot s n e \<and> (\<exists>m out p. e = Relation m i out p)}"
    and "set (get_slot_elements_by_outbound env s n i) = {e. at_slot s n e \<and> (\<exists>m j p. e = Relation m j i p)}"
proof -
  have t: "tables_except {} s" using assms by (simp add: index_inv_def)
  note D = tables_exceptD [OF t]
  have it: "set (it_ref env S) = S" if "finite S" for S
    using assms(2) that by (simp add: env_ok_def iter_ok_def)
  have mf: "set (List.map_filter (elements s) xs) = {e. \<exists>r \<in> set xs. elements s r = Some e}" for xs
    by (induction xs) (auto split: option.splits)
  have "set (get_slot_elements_by_inbound env s n i) = {e. \<exists>r \<in> entry (element_by_slot_in s) (n, i). elements s r = Some e}"
    using D(7) by (auto simp: get_slot_elements_by_inbound_def entry_def mf no_empty_def it split: option.split)
  also have "\<dots> = {e. at_slot s n e \<and> (\<exists>m out p. e = Relation m i out p)}"
    using D(5) D(1) by (force simp: at_slot_def)
  finally show "set (get_slot_elements_by_inbound env s n i) = {e. at_slot s n e \<and> (\<exists>m out p. e = Relation m i out p)}" .
  have "set (get_slot_elements_by_outbound env s n i) = {e. \<exists>r \<in> entry (element_by_slot_out s) (n, i). elements s r = Some e}"
    using D(8) by (auto simp: get_slot_elements_by_outbound_def entry_def mf no_empty_def it split: option.split)
  also have "\<dots> = {e. at_slot s n e \<and> (\<exists>m j p. e = Relation m j i p)}"
    using D(6) D(1) by (force simp: at_slot_def)
  finally show "set (get_slot_elements_by_outbound env s n i) = {e. at_slot s n e \<and> (\<exists>m j p. e = Relation m j i p)}" .
qed

lemma archive_get_spec:
  assumes "bt_ok a"
  shows "archive_get a t = Some e \<longleftrightarrow>
    (\<exists>k \<le> t. bt_get a k = Some e \<and> (\<forall>j. k < j \<and> j \<le> t \<longrightarrow> bt_get a j = None))"
proof -
  let ?u = "bt_upto t a"
  have ok: "bt_ok ?u" using assms by simp
  have mem: "(k, v) \<in> set ?u \<longleftrightarrow> bt_get a k = Some v \<and> k \<le> t" for k v
    using bt_get_mem [OF assms, of k v] by (auto simp: bt_upto_def)
  show ?thesis
  proof (cases "?u = []")
    case True
    then have "bt_get a k = None" if "k \<le> t" for k using mem [of k] that by (cases "bt_get a k") auto
    then show ?thesis using True by (auto simp: archive_get_def next_back_def)
  next
    case False
    obtain k v where l: "last ?u = (k, v)" by (cases "last ?u")
    then have kv: "(k, v) \<in> set ?u" using False by (metis last_in_set)
    have top: "bt_get a j = None" if "k < j" "j \<le> t" for j
      using bt_last_max [OF ok, of j] mem [of j] that l by (cases "bt_get a j") auto
    have "archive_get a t = Some v" using False l by (simp add: archive_get_def next_back_def)
    then show ?thesis using kv mem top by (metis (no_types) linorder_neqE option.inject option.distinct(1))
  qed
qed

subsection \<open>Properties\<close>

text \<open>
  C17. The slot tables answer exactly for the stored elements: a lookup by reference returns
  the stored node of that reference when it has the slot's affinity, and the lookups by
  inbound and outbound reference return exactly the stored relations with the slot's affinity
  that start or end at it.
\<close>

theorem index_lookups:
  assumes "index_inv s" "env_ok env"
  shows "(get_slot_element_by_ref s n r = Some e \<longleftrightarrow>
      at_slot s n e \<and> get_reference e = r \<and> (\<exists>m p. e = Node m p)) \<and>
    set (get_slot_elements_by_inbound env s n r) = {e. at_slot s n e \<and> (\<exists>m out p. e = Relation m r out p)} \<and>
    set (get_slot_elements_by_outbound env s n r) = {e. at_slot s n e \<and> (\<exists>m i p. e = Relation m i r p)}"
  using get_slot_element_by_ref_iff [OF assms(1)] by_slot_set [OF assms] by simp

text \<open>
  C3. Storing an element. For an element whose source is not the reserved one, the operation
  returns, keeps the invariant, makes the element readable under its reference with exactly
  the given slots as affinity, leaves every other such element and its affinity as it was,
  and, with the archive enabled, makes it the version in force at its own effective time.
\<close>

theorem set_element_correct:
  assumes env: "env_ok env" and s: "index_inv s" and e: "\<not> is_virtual (get_reference e)"
  shows "\<exists>s'. set_element env (Suc (Suc fuel)) e ns s = Some s' \<and> index_inv s' \<and>
    get_element s' (get_reference e) = Some e \<and> (\<forall>n. at_slot s' n e \<longleftrightarrow> n \<in> set ns) \<and>
    (\<forall>r. r \<noteq> get_reference e \<and> \<not> is_virtual r \<longrightarrow>
       get_element s' r = get_element s r \<and> slot_affinity s' r = slot_affinity s r) \<and>
    (archive_enabled s \<longrightarrow> get_element_as_at s' (get_reference e) (get_effective_from e) = Inr (Some e))"
proof -
  let ?r = "get_reference e"
  have t: "tables_except {} s" using s by (simp add: index_inv_def)
  note P = place_core_spec [OF env t, where e = e and ns = ns]
  have "\<not> is_virtual (reference m)" if "e = Node m p" for m p using that e by simp
  then obtain s1 where s1: "set_element env (Suc (Suc fuel)) e ns s = Some (archive_element e s1)"
      "kept (place_core env e ns s) s1"
    using set_element_spec [OF env s] by blast
  let ?s' = "archive_element e s1"
  have inv: "index_inv ?s'" using s1(2) index_inv_archive [of s1 e] by (simp add: kept_def)
  have el: "elements ?s' = elements s1" "slot_affinity ?s' = slot_affinity s1" by (simp_all add: archive_element_def)
  have real: "elements s1 r = (if r = ?r then Some e else elements s r)"
    "slot_affinity s1 r = (if r = ?r then Some (set ns) else slot_affinity s r)" if "\<not> is_virtual r" for r
    using s1(2) P that by (auto simp: kept_def agree_def)
  have "get_element_as_at ?s' ?r (get_effective_from e) = Inr (Some e)" if "archive_enabled s"
  proof -
    have en: "archive_enabled s1" using s1(2) P(6) that by (simp add: kept_def agree_def)
    obtain a where a: "element_archive ?s' ?r = Some (archive_insert e a)"
      using en by (simp add: archive_element_def)
    then have "bt_ok (archive_insert e a)" using inv by (simp add: index_inv_def archive_ok_def)
    moreover have "bt_get (archive_insert e a) (get_effective_from e) = Some e"
      by (simp add: archive_insert_def bt_simps)
    ultimately have "archive_get (archive_insert e a) (get_effective_from e) = Some e"
      unfolding archive_get_spec [OF \<open>bt_ok (archive_insert e a)\<close>] by (meson leD order_refl)
    then show ?thesis using en a by (simp add: get_element_as_at_def archive_element_def)
  qed
  then show ?thesis
    using s1(1) inv real e by (auto simp: get_element_def at_slot_def entry_def el)
qed

text \<open>
  C16. Deleting an element. The operation returns, keeps the invariant, removes the element
  and its affinity, and leaves every other element that is not a virtual relation as it was.
\<close>

theorem delete_element_correct:
  assumes env: "env_ok env" and s: "index_inv s" and r: "\<not> is_virtual r"
  shows "\<exists>s'. delete_element env (Suc (Suc fuel)) r s = Some s' \<and> index_inv s' \<and>
    get_element s' r = None \<and> slot_affinity s' r = None \<and>
    (\<forall>k. k \<noteq> r \<and> \<not> is_virtual k \<longrightarrow>
       get_element s' k = get_element s k \<and> slot_affinity s' k = slot_affinity s k)"
proof -
  have t: "tables_except {} s" using s by (simp add: index_inv_def)
  note P = drop_core_spec [OF env t, where r = r]
  obtain s' where s': "delete_element env (Suc (Suc fuel)) r s = Some s'" "kept (drop_core env r s) s'"
    using delete_element_spec [OF env s] by blast
  have real: "elements s' k = elements (drop_core env r s) k"
    "slot_affinity s' k = slot_affinity (drop_core env r s) k" if "\<not> is_virtual k" for k
    using s'(2) that by (simp_all add: kept_def agree_def)
  have "slot_affinity (drop_core env r s) r = None"
    using tables_exceptD(3) [OF P(1)] P(2) by (metis Diff_empty domIff fun_upd_same)
  then show ?thesis
    using s' real P(2,3) r by (auto simp: get_element_def kept_def)
qed

text \<open>
  C18. Time travel. With the archive enabled, reading an element as at a time returns the
  archived version with the latest effective time that is not after it, and nothing exactly
  when there is no such version.
\<close>

theorem get_element_as_at_latest:
  assumes "index_inv s" "archive_enabled s" "element_archive s r = Some a"
  shows "get_element_as_at s r t = Inr (Some e) \<longleftrightarrow>
    (\<exists>k \<le> t. bt_get a k = Some e \<and> (\<forall>j. k < j \<and> j \<le> t \<longrightarrow> bt_get a j = None))"
proof -
  have "bt_ok a" using assms(1,3) by (simp add: index_inv_def archive_ok_def)
  then show ?thesis using assms(2,3) archive_get_spec [of a t e] by (simp add: get_element_as_at_def)
qed

lemma archive_range_mem:
  "bt_ok a \<Longrightarrow> archive_get_range a lo hi = Some es \<Longrightarrow>
     e \<in> set es \<longleftrightarrow> (\<exists>t. bt_get a t = Some e \<and> lo \<le> t \<and> t \<le> hi)"
  using bt_get_mem [of a] by (auto simp: archive_get_range_def bt_between_def split: if_splits) force+


subsection \<open>Examples\<close>

definition plain_env :: "nat index_env" where
  "plain_env = \<lparr>value_hash = of_nat, it_slot = sorted_list_of_set, it_label = sorted_list_of_set,
                it_ref = sorted_list_of_set\<rparr>"

lemma plain_env_ok: "env_ok plain_env"
  by (simp add: env_ok_def plain_env_def)

definition thing :: "string \<Rightarrow> string \<Rightarrow> u64 \<Rightarrow> nat property_map \<Rightarrow> nat element" where
  "thing k l t p = Node \<lparr>reference = ElementReference ''src'' k, labels = [l], effective_from = t\<rparr> p"

theorem index_lookups_witness:
  "index_inv (new_index :: nat element_index) \<and>
   set (get_slot_elements_by_inbound plain_env new_index 0 (ElementReference ''src'' ''a'')) = {}"
proof -
  have "set (get_slot_elements_by_inbound plain_env new_index 0 (ElementReference ''src'' ''a'')) =
      {e. at_slot new_index 0 e \<and> (\<exists>m out p. e = Relation m (ElementReference ''src'' ''a'') out p)}"
    using index_lookups [OF index_inv_new plain_env_ok] by blast
  moreover have "\<not> at_slot new_index 0 e" for e :: "nat element"
    by (simp add: at_slot_def new_index_def)
  ultimately show ?thesis by (simp add: index_inv_new)
qed

theorem set_element_correct_witness:
  "\<exists>s'. set_element plain_env 2 (thing ''a'' ''A'' 5 []) [3] (enable_archive new_index) = Some s' \<and>
     get_element s' (ElementReference ''src'' ''a'') = Some (thing ''a'' ''A'' 5 []) \<and>
     get_element_as_at s' (ElementReference ''src'' ''a'') 5 = Inr (Some (thing ''a'' ''A'' 5 []))"
proof -
  have "index_inv (enable_archive (new_index :: nat element_index))"
    by (simp add: enable_archive_def index_inv_new)
  moreover have "\<not> is_virtual (get_reference (thing ''a'' ''A'' 5 []))"
    by (simp add: thing_def is_virtual_def)
  ultimately show ?thesis
    using set_element_correct [OF plain_env_ok, of "enable_archive new_index" "thing ''a'' ''A'' 5 []" 0 "[3]"]
    by (auto simp: numeral_2_eq_2 enable_archive_def thing_def get_effective_from_def)
qed

theorem delete_element_correct_witness:
  "\<exists>s'. delete_element plain_env 2 (ElementReference ''src'' ''a'') new_index = Some s' \<and>
     get_element s' (ElementReference ''src'' ''a'') = None"
  using delete_element_correct [OF plain_env_ok index_inv_new, of "ElementReference ''src'' ''a''" 0]
  by (auto simp: numeral_2_eq_2 is_virtual_def)

definition archived :: "nat element_index" where
  "archived = new_index\<lparr>archive_enabled := True,
     element_archive := [ElementReference ''src'' ''a'' \<mapsto> [(5, thing ''a'' ''A'' 5 []), (9, thing ''a'' ''A'' 9 [])]]\<rparr>"

lemma archived_inv: "index_inv archived"
proof -
  have "tables_except {} archived"
    using index_inv_new [where 'a = nat] by (simp add: archived_def index_inv_def)
  then show ?thesis
    by (auto simp: index_inv_def archived_def new_index_def archive_ok_def bt_ok_def thing_def
        get_effective_from_def split: if_splits)
qed

theorem get_element_as_at_latest_witness:
  "get_element_as_at archived (ElementReference ''src'' ''a'') 7 = Inr (Some (thing ''a'' ''A'' 5 []))"
proof -
  have "archive_enabled archived" "element_archive archived (ElementReference ''src'' ''a'') =
      Some [(5, thing ''a'' ''A'' 5 []), (9, thing ''a'' ''A'' 9 [])]"
    by (simp_all add: archived_def)
  from get_element_as_at_latest [OF archived_inv this, of 7 "thing ''a'' ''A'' 5 []"] show ?thesis
    by (auto intro!: exI [of _ 5] split: if_splits)
qed


lemma opt_foldl_id: "(\<And>x s. f s x = Some s) \<Longrightarrow> opt_foldl f s xs = Some s"
  by (induction xs) auto

lemma for_join_keys_id: "(\<And>qj ns qjk s. body qj ns qjk s = Some s) \<Longrightarrow> for_join_keys env m s body = Some s"
  unfolding for_join_keys_def Let_def
  by (intro opt_foldl_id) (auto intro!: opt_foldl_id split: option.split prod.split)



end
