(* ===== verification/Solver_Index.thy ===== *)
theory Solver_Index
  imports Path_Solver_Correct Element_Index
begin

text \<open>
  The path solver over an element index. The locale \<open>slot_index\<close> is what the solver relies on:
  the three lookups answer without error, with the stored elements of a slot. In it the
  solver's results are stated over the stored graph. The in-memory index provides it.
\<close>

subsection \<open>Edges between elements\<close>

text \<open>A node links to the relations that start at it, a relation to the node it ends at.\<close>

fun linked :: "'v element \<Rightarrow> 'v element \<Rightarrow> bool" where
  "linked (Node m p) (Relation m' i out p') \<longleftrightarrow> i = reference m"
| "linked (Relation m i out p) (Node m' p') \<longleftrightarrow> out = reference m'"
| "linked _ _ \<longleftrightarrow> False"

definition graph_match :: "'x match_path \<Rightarrow> (nat \<Rightarrow> 'v element \<Rightarrow> bool) \<Rightarrow> (nat \<Rightarrow> 'v element) \<Rightarrow> bool" where
  "graph_match mp stored f \<longleftrightarrow>
     (\<forall>n < length (slots mp). stored n (f n)) \<and>
     (\<forall>i < length (slots mp). \<forall>j \<in> set (out_slots (slots mp ! i)). linked (f i) (f j))"

locale slot_index =
  fixes idx :: "('e, 'v) index_ops"
    and stored :: "nat \<Rightarrow> 'v element \<Rightarrow> bool"
  assumes by_ref: "\<exists>v. op_get_slot_element_by_ref idx n r = Inr v \<and>
      (\<forall>e. v = Some e \<longleftrightarrow> stored n e \<and> get_reference e = r \<and> (\<exists>m p. e = Node m p))"
    and by_inbound: "\<exists>es. op_get_slot_elements_by_inbound idx n r = Inr (map Inr es) \<and>
      set es = {e. stored n e \<and> (\<exists>m out p. e = Relation m r out p)}"
    and by_outbound: "\<exists>es. op_get_slot_elements_by_outbound idx n r = Inr (map Inr es) \<and>
      set es = {e. stored n e \<and> (\<exists>m i p. e = Relation m i r p)}"
begin

lemma drain_map_Inr [simp]: "drain (map Inr xs) = Inr xs"
  by (induction xs) auto

lemma adjacent_outward:
  "\<exists>es. adjacent idx (Some e) n Outward = Inr es \<and> set es = {d. stored n d \<and> linked e d}"
proof (cases e)
  case (Node m p)
  obtain es where "op_get_slot_elements_by_inbound idx n (reference m) = Inr (map Inr es)"
    "set es = {e. stored n e \<and> (\<exists>m' out p. e = Relation m' (reference m) out p)}"
    using by_inbound by blast
  moreover have "linked e d \<longleftrightarrow> (\<exists>m' out p. d = Relation m' (reference m) out p)" for d
    by (cases d) (auto simp: Node)
  ultimately show ?thesis by (simp add: Node adjacent_def)
next
  case (Relation m i out p)
  obtain v where v: "op_get_slot_element_by_ref idx n out = Inr v"
    "\<And>d. v = Some d \<longleftrightarrow> stored n d \<and> get_reference d = out \<and> (\<exists>m p. d = Node m p)"
    using by_ref by blast
  have "linked e d \<longleftrightarrow> get_reference d = out \<and> (\<exists>m p. d = Node m p)" for d
    by (cases d) (auto simp: Relation)
  then have "v = Some d \<longleftrightarrow> stored n d \<and> linked e d" for d using v(2) by simp
  then have "set (case v of None \<Rightarrow> [] | Some d \<Rightarrow> [d]) = {d. stored n d \<and> linked e d}"
    by (cases v) (auto, metis)
  then show ?thesis using v(1) by (cases v) (simp_all add: Relation adjacent_def)
qed

lemma adjacent_inward:
  "\<exists>es. adjacent idx (Some e) n Inward = Inr es \<and> set es = {d. stored n d \<and> linked d e}"
proof (cases e)
  case (Node m p)
  obtain es where "op_get_slot_elements_by_outbound idx n (reference m) = Inr (map Inr es)"
    "set es = {e. stored n e \<and> (\<exists>m' i p. e = Relation m' i (reference m) p)}"
    using by_outbound by blast
  moreover have "linked d e \<longleftrightarrow> (\<exists>m' i p. d = Relation m' i (reference m) p)" for d
    by (cases d) (auto simp: Node)
  ultimately show ?thesis by (simp add: Node adjacent_def)
next
  case (Relation m i out p)
  obtain v where v: "op_get_slot_element_by_ref idx n i = Inr v"
    "\<And>d. v = Some d \<longleftrightarrow> stored n d \<and> get_reference d = i \<and> (\<exists>m p. d = Node m p)"
    using by_ref by blast
  have "linked d e \<longleftrightarrow> get_reference d = i \<and> (\<exists>m p. d = Node m p)" for d
    by (cases d) (auto simp: Relation)
  then have "v = Some d \<longleftrightarrow> stored n d \<and> linked d e" for d using v(2) by simp
  then have "set (case v of None \<Rightarrow> [] | Some d \<Rightarrow> [d]) = {d. stored n d \<and> linked d e}"
    by (cases v) (auto, metis)
  then show ?thesis using v(1) by (cases v) (simp_all add: Relation adjacent_def)
qed

lemma total: "index_total idx"
  unfolding index_total_def
proof (intro allI)
  fix el n d
  show "\<exists>es. adjacent idx el n d = Inr es"
    using adjacent_outward adjacent_inward by (cases el; cases d) (auto simp: adjacent_def, blast+)
qed

lemma offers_some:
  "Some e \<in> set (offers mp idx (Some d) n Outward) \<longleftrightarrow> stored n e \<and> linked d e"
  "Some e \<in> set (offers mp idx (Some d) n Inward) \<longleftrightarrow> stored n e \<and> linked e d"
  using adjacent_outward [of d n] adjacent_inward [of d n] by (auto simp: offers_def adj_list_def)

lemma offers_none: "Some e \<notin> set (offers mp idx None n dir)"
  by (simp add: offers_def adj_list_def adjacent_def)

lemma graph_match_is_match:
  assumes "slots_wf (slots mp)" "graph_match mp stored f" "f anchor = a"
  shows "is_match mp idx anchor a (\<lambda>n. Some (f n))"
  unfolding is_match_def
proof (intro conjI allI impI ballI)
  show "Some (f anchor) = Some a" using assms(3) by simp
  fix i j assume i: "i < length (slots mp)" and j: "j \<in> neighbours mp i"
  then have jn: "j < length (slots mp)" using slots_wf_range [OF assms(1) i] by (auto simp: neighbours_def)
  have st: "stored j (f j)" using assms(2) jn by (simp add: graph_match_def)
  consider "j \<in> set (out_slots (slots mp ! i))" | "j \<in> set (in_slots (slots mp ! i))"
    using j by (auto simp: neighbours_def)
  then show "Some (f j) \<in> choices mp idx i (Some (f i)) j"
  proof cases
    case 1
    then have "linked (f i) (f j)" using assms(2) i by (simp add: graph_match_def)
    then show ?thesis using 1 st by (simp add: choices_def offers_some)
  next
    case 2
    then have "i \<in> set (out_slots (slots mp ! j))"
      using assms(1) i jn by (auto simp: slots_wf_iff out_edge_def in_edge_def)
    then have "linked (f j) (f i)" using assms(2) jn by (simp add: graph_match_def)
    then show ?thesis using 2 st by (simp add: choices_def offers_some)
  qed
qed

lemma justified_stored:
  assumes "justified mp idx anchor a s n (Some e)" "n \<noteq> anchor"
  shows "stored n e \<and> (\<exists>i d. bt_get (solved_slots s) i = Some (Some d) \<and>
    (n \<in> set (out_slots (slots mp ! i)) \<and> linked d e \<or> n \<in> set (in_slots (slots mp ! i)) \<and> linked e d))"
proof -
  obtain i w where i: "bt_get (solved_slots s) i = Some w" "Some e \<in> choices mp idx i w n"
    using assms by (auto simp: justified_def)
  then obtain d where d: "w = Some d" by (cases w) (auto simp: choices_def offers_none split: if_splits)
  then have "n \<in> set (out_slots (slots mp ! i)) \<and> stored n e \<and> linked d e \<or>
      n \<in> set (in_slots (slots mp ! i)) \<and> stored n e \<and> linked e d"
    using i(2) by (auto simp: choices_def offers_some split: if_splits)
  then show ?thesis using i(1) d by blast
qed

end

subsection \<open>The in-memory index as a provider\<close>

text \<open>\<open>element_vec_to_stream\<close> turns a vector into a stream of \<open>Ok\<close> items.\<close>

definition element_vec_to_stream :: "'v element list \<Rightarrow> ('e + 'v element) list" where
  "element_vec_to_stream es = map Inr es"

definition memory_ops :: "'v index_env \<Rightarrow> 'v element_index \<Rightarrow> (index_error, 'v) index_ops" where
  "memory_ops env s =
     \<lparr>op_get_slot_element_by_ref = (\<lambda>n r. Inr (get_slot_element_by_ref s n r)),
      op_get_slot_elements_by_inbound =
        (\<lambda>n r. Inr (element_vec_to_stream (get_slot_elements_by_inbound env s n r))),
      op_get_slot_elements_by_outbound =
        (\<lambda>n r. Inr (element_vec_to_stream (get_slot_elements_by_outbound env s n r)))\<rparr>"

locale valid_index =
  fixes env :: "'v index_env" and s :: "'v element_index"
  assumes env: "env_ok env" and inv: "index_inv s"

sublocale valid_index \<subseteq> slot_index "memory_ops env s" "at_slot s"
proof unfold_locales
  fix n r
  show "\<exists>v. op_get_slot_element_by_ref (memory_ops env s) n r = Inr v \<and>
      (\<forall>e. v = Some e \<longleftrightarrow> at_slot s n e \<and> get_reference e = r \<and> (\<exists>m p. e = Node m p))"
    using get_slot_element_by_ref_iff [OF inv, of n r] by (simp add: memory_ops_def)
  show "\<exists>es. op_get_slot_elements_by_inbound (memory_ops env s) n r = Inr (map Inr es) \<and>
      set es = {e. at_slot s n e \<and> (\<exists>m out p. e = Relation m r out p)}"
    using by_slot_set(1) [OF inv env, of n r] by (auto simp: memory_ops_def element_vec_to_stream_def)
  show "\<exists>es. op_get_slot_elements_by_outbound (memory_ops env s) n r = Inr (map Inr es) \<and>
      set es = {e. at_slot s n e \<and> (\<exists>m i p. e = Relation m i r p)}"
    using by_slot_set(2) [OF inv env, of n r] by (auto simp: memory_ops_def element_vec_to_stream_def)
qed

context valid_index
begin

lemma provides_slot_index: "slot_index (memory_ops env s) (at_slot s)"
  by (rule slot_index_axioms)

end

interpretation empty_index: valid_index plain_env new_index
  by unfold_locales (rule plain_env_ok, rule index_inv_new)



subsection \<open>Examples\<close>

text \<open>A stored pair of persons with a relation between them.\<close>

definition anne :: "nat element" where "anne = thing ''a'' ''Person'' 1 []"
definition bob :: "nat element" where "bob = thing ''b'' ''Person'' 1 []"
definition knows_ab :: "nat element" where
  "knows_ab = Relation \<lparr>reference = ElementReference ''src'' ''k'', labels = [''KNOWS''], effective_from = 1\<rparr>
     (ElementReference ''src'' ''a'') (ElementReference ''src'' ''b'') []"

definition pair_graph :: "nat element_index" where
  "pair_graph = place_core plain_env knows_ab [1] (place_core plain_env bob [2] (place_core plain_env anne [0] new_index))"

definition pair_binding :: "nat \<Rightarrow> nat element" where
  "pair_binding n = (if n = 0 then anne else if n = 1 then knows_ab else bob)"

lemma pair_graph_inv: "index_inv pair_graph"
proof -
  have t0: "tables_except {} (new_index :: nat element_index)" using index_inv_new [where 'a = nat] by (simp add: index_inv_def)
  note P = place_core_spec [OF plain_env_ok]
  have t: "tables_except {} pair_graph" unfolding pair_graph_def by (intro P(1) t0)
  have "elements pair_graph = [ElementReference ''src'' ''a'' \<mapsto> anne, ElementReference ''src'' ''b'' \<mapsto> bob,
      ElementReference ''src'' ''k'' \<mapsto> knows_ab]"
    unfolding pair_graph_def P(2) [OF P(1) [OF P(1) [OF t0]]] P(2) [OF P(1) [OF t0]] P(2) [OF t0]
    by (simp add: new_index_def anne_def bob_def knows_ab_def thing_def)
  moreover have "element_archive pair_graph = Map.empty"
    unfolding pair_graph_def P(7) [OF P(1) [OF P(1) [OF t0]]] P(7) [OF P(1) [OF t0]] P(7) [OF t0]
    by (simp add: new_index_def)
  ultimately show ?thesis
    using t by (auto simp: index_inv_def archive_ok_def is_virtual_def split: if_splits)
qed

lemma pair_graph_fields:
  "elements pair_graph = [ElementReference ''src'' ''a'' \<mapsto> anne, ElementReference ''src'' ''b'' \<mapsto> bob,
      ElementReference ''src'' ''k'' \<mapsto> knows_ab]"
  "slot_affinity pair_graph = [ElementReference ''src'' ''a'' \<mapsto> {0}, ElementReference ''src'' ''b'' \<mapsto> {2},
      ElementReference ''src'' ''k'' \<mapsto> {1}]"
  by (simp_all add: pair_graph_def place_core_def set_slot_affinity_def new_index_def anne_def bob_def
      knows_ab_def thing_def)

lemma pair_at_slot: "at_slot pair_graph 0 anne" "at_slot pair_graph 1 knows_ab" "at_slot pair_graph 2 bob"
  by (simp_all add: at_slot_def pair_graph_fields entry_def anne_def bob_def knows_ab_def thing_def)

lemma pair_graph_match: "graph_match (from_query [person_knows False ''b'']) (at_slot pair_graph) pair_binding"
  using pair_at_slot
  by (auto simp: graph_match_def pair_slots pair_binding_def less_Suc_eq anne_def bob_def knows_ab_def thing_def
      numeral_2_eq_2)



end
