(* ===== verification/Evaluation_Context.thy ===== *)
theory Evaluation_Context
  imports Solution
begin

text \<open>
  The values that travel between the query and its parts,
  \<^verbatim>\<open>src/core/src/evaluation/context.rs\<close> and
  \<^verbatim>\<open>src/core/src/evaluation/instant_query_clock.rs\<close>: the projected changes, the context
  in which an expression is evaluated and the context of a change, together with the query
  parts of \<^verbatim>\<open>src/query-ast/src/ast.rs\<close>.

  Rows have the type \<open>('k, 'w) btree\<close> with values \<open>'w\<close>. The two equalities of
  \<open>VariableValue\<close>, the ordinary one and the one used for grouping, are parameters.
\<close>

subsection \<open>Clocks\<close>

record query_clock =
  clock_transaction_time :: u64
  clock_realtime :: u64

definition from_source_change :: "'v source_change \<Rightarrow> query_clock" where
  "from_source_change c =
     \<lparr>clock_transaction_time = change_transaction_time c, clock_realtime = change_realtime c\<rparr>"

subsection \<open>Query parts\<close>

datatype 'x projection_clause = Item "'x list" | GroupBy (grouping: "'x list") (aggregates: "'x list")

record 'x query_part =
  match_clauses :: "'x match_clause list"
  where_clauses :: "'x list"
  return_clause :: "'x projection_clause"

subsection \<open>Changes of rows\<close>

type_synonym 'w row = "(string, 'w) btree"

datatype side_effects = Apply | RevertForUpdate | RevertForDelete | Snapshot

datatype 'w part_context =
    Adding "'w row" u64
  | Updating "'w row" "'w row" u64
  | Removing "'w row" u64
  | Aggregation "'w row option" "'w row" "string list" bool bool u64
  | Noop

fun row_signature :: "'w part_context \<Rightarrow> u64" where
  "row_signature (Adding a r) = r"
| "row_signature (Updating b a r) = r"
| "row_signature (Removing b r) = r"
| "row_signature (Aggregation b a g db da r) = r"
| "row_signature Noop = 0"

text \<open>Equality of ordered maps compares the entries in order.\<close>

definition row_eq :: "('w \<Rightarrow> 'w \<Rightarrow> bool) \<Rightarrow> 'w row \<Rightarrow> 'w row \<Rightarrow> bool" where
  "row_eq eq a b \<longleftrightarrow> list_all2 (\<lambda>x y. fst x = fst y \<and> eq (snd x) (snd y)) a b"

fun data_eq :: "('w \<Rightarrow> 'w \<Rightarrow> bool) \<Rightarrow> 'w part_context \<Rightarrow> 'w part_context \<Rightarrow> bool" where
  "data_eq eq (Adding a _) (Adding b _) = row_eq eq a b"
| "data_eq eq (Updating ab aa _) (Updating bb ba _) = (row_eq eq ab bb \<and> row_eq eq aa ba)"
| "data_eq eq (Removing a _) (Removing b _) = row_eq eq a b"
| "data_eq eq (Aggregation ab aa ag adb ada _) (Aggregation bb ba bg bdb bda _) =
     (rel_option (row_eq eq) ab bb \<and> row_eq eq aa ba \<and> ag = bg \<and> adb = bdb \<and> ada = bda)"
| "data_eq eq Noop Noop = True"
| "data_eq eq _ _ = False"

definition query_variables_unchanged ::
    "('w \<Rightarrow> 'w \<Rightarrow> bool) \<Rightarrow> ('w \<Rightarrow> 'w \<Rightarrow> bool) \<Rightarrow> 'w row \<Rightarrow> 'w row \<Rightarrow> bool" where
  "query_variables_unchanged eq eq_for_groupby before after \<longleftrightarrow>
     row_eq eq before after \<and>
     list_all (\<lambda>(a, b). eq_for_groupby a b) (zip (map snd before) (map snd after))"

subsection \<open>Contexts of a change and of an expression\<close>

record 'v change_context =
  cc_solution_signature :: u64
  before_anchor_element :: "'v element option"
  after_anchor_element :: "'v element option"
  before_clock :: query_clock
  after_clock :: query_clock
  is_future_reprocess :: bool
  before_grouping_hash :: u64
  after_grouping_hash :: u64

record ('w, 'x, 'v) expression_context =
  xc_variables :: "'w row"
  xc_side_effects :: side_effects
  output_grouping_key :: "'x list option"
  input_grouping_hash :: u64
  xc_clock :: query_clock
  xc_solution_signature :: "u64 option"
  anchor_element :: "'v element option"

definition new_context :: "'w row \<Rightarrow> query_clock \<Rightarrow> ('w, 'x, 'v) expression_context" where
  "new_context vars clock =
     \<lparr>xc_variables = vars, xc_side_effects = Apply, output_grouping_key = None, input_grouping_hash = 0,
      xc_clock = clock, xc_solution_signature = None, anchor_element = None\<rparr>"

text \<open>The hash of a reference is a function of its source and element ids.\<close>

definition from_slot ::
    "(element_reference \<Rightarrow> u64) \<Rightarrow> 'w row \<Rightarrow> query_clock \<Rightarrow> element_reference \<Rightarrow> ('w, 'x, 'v) expression_context" where
  "from_slot reference_hash vars clock r =
     \<lparr>xc_variables = vars, xc_side_effects = Apply, output_grouping_key = None,
      input_grouping_hash = reference_hash r, xc_clock = clock, xc_solution_signature = None,
      anchor_element = None\<rparr>"

definition grouping_of :: "'x query_part \<Rightarrow> 'x list option" where
  "grouping_of part = (case return_clause part of GroupBy g _ \<Rightarrow> Some g | Item _ \<Rightarrow> None)"

definition from_before_change ::
    "'w row \<Rightarrow> side_effects \<Rightarrow> 'v change_context \<Rightarrow> 'x query_part \<Rightarrow> ('w, 'x, 'v) expression_context" where
  "from_before_change vars directive cc part =
     \<lparr>xc_variables = vars, xc_side_effects = directive, output_grouping_key = grouping_of part,
      input_grouping_hash = before_grouping_hash cc, xc_clock = before_clock cc,
      xc_solution_signature = Some (cc_solution_signature cc), anchor_element = before_anchor_element cc\<rparr>"

definition from_after_change ::
    "'w row \<Rightarrow> 'v change_context \<Rightarrow> 'x query_part \<Rightarrow> ('w, 'x, 'v) expression_context" where
  "from_after_change vars cc part =
     \<lparr>xc_variables = vars, xc_side_effects = Apply, output_grouping_key = grouping_of part,
      input_grouping_hash = after_grouping_hash cc, xc_clock = after_clock cc,
      xc_solution_signature = Some (cc_solution_signature cc), anchor_element = after_anchor_element cc\<rparr>"

subsection \<open>Lemmas\<close>

lemma row_eq_keys: "row_eq eq a b \<Longrightarrow> map fst a = map fst b"
  by (auto simp: row_eq_def list_all2_conv_all_nth intro: nth_equalityI)

lemma query_variables_unchanged_iff:
  "query_variables_unchanged eq eqg a b \<longleftrightarrow> row_eq (\<lambda>x y. eq x y \<and> eqg x y) a b"
proof (induction a arbitrary: b)
  case Nil
  then show ?case by (cases b) (simp_all add: query_variables_unchanged_def row_eq_def)
next
  case (Cons x a)
  then show ?case
    by (cases b) (auto simp: query_variables_unchanged_def row_eq_def)
qed

end
