(* ===== verification/Result_Index.thy ===== *)
theory Result_Index
  imports Evaluation_Context
begin

text \<open>
  The in-memory result index,
  \<^verbatim>\<open>src/core/src/in_memory_index/in_memory_result_index.rs\<close>, with the keys and owners of
  \<^verbatim>\<open>src/core/src/interface/result_index.rs\<close>, and the lazily committed sorted set of
  \<^verbatim>\<open>src/core/src/evaluation/functions/aggregation/lazy_sorted_set.rs\<close> on top of the
  interface of its store.

  Sort keys (\<open>OrderedFloat<f64>\<close>) are of a linearly ordered type \<open>'k\<close>. Counts (\<open>isize\<close>) are
  integers: they are bounded by the number of rows. The hash of an owner and a key and the
  accumulators are parameters.
\<close>

subsection \<open>Keys\<close>

datatype result_owner = FunctionOwner nat | PartCurrent nat | PartDefault nat

datatype 'w result_key = GroupKey "'w list" | InputHash u64 | ElementKey element_reference

fun result_key_eq :: "('w \<Rightarrow> 'w \<Rightarrow> bool) \<Rightarrow> 'w result_key \<Rightarrow> 'w result_key \<Rightarrow> bool" where
  "result_key_eq eqg (GroupKey l) (GroupKey r) =
     (length l = length r \<and> list_all (\<lambda>(a, b). eqg a b) (zip l r))"
| "result_key_eq eqg (InputHash l) (InputHash r) = (l = r)"
| "result_key_eq eqg (ElementKey l) (ElementKey r) = (l = r)"
| "result_key_eq eqg _ _ = False"

definition groupby_from_variables :: "'w \<Rightarrow> string list \<Rightarrow> 'w row \<Rightarrow> 'w result_key" where
  "groupby_from_variables null keys vars =
     GroupKey (map (\<lambda>k. case bt_get vars k of Some v \<Rightarrow> v | None \<Rightarrow> null) keys)"

subsection \<open>The index\<close>

record result_sequence =
  rs_sequence :: u64
  rs_source_change_id :: string

record ('k, 'a) result_index =
  ri_values :: "u64 \<rightharpoonup> 'a"
  sorted_sets :: "u64 \<rightharpoonup> ('k, int) btree"
  ri_sequence :: result_sequence

definition new_result_index :: "('k, 'a) result_index" where
  "new_result_index =
     \<lparr>ri_values = Map.empty, sorted_sets = Map.empty,
      ri_sequence = \<lparr>rs_sequence = 0, rs_source_change_id = ''''\<rparr>\<rparr>"

type_synonym 'w key_hash = "result_owner \<Rightarrow> 'w result_key \<Rightarrow> u64"

definition ri_get ::
    "'w key_hash \<Rightarrow> 'w result_key \<Rightarrow> result_owner \<Rightarrow> (('k, 'a) result_index, index_error, 'a option) action" where
  "ri_get get_hash_key key owner = act_read (\<lambda>s. Inr (ri_values s (get_hash_key owner key)))"

definition ri_set ::
    "'w key_hash \<Rightarrow> 'w result_key \<Rightarrow> result_owner \<Rightarrow> 'a option \<Rightarrow>
     (('k, 'a) result_index, index_error, unit) action" where
  "ri_set get_hash_key key owner v s =
     (Inr (), s\<lparr>ri_values := (ri_values s)(get_hash_key owner key := v)\<rparr>)"

definition ri_clear :: "(('k, 'a) result_index, index_error, unit) action" where
  "ri_clear s = (Inr (), s\<lparr>ri_values := Map.empty, sorted_sets := Map.empty\<rparr>)"

definition get_next ::
    "u64 \<Rightarrow> 'k::linorder option \<Rightarrow> (('k, 'a) result_index, index_error, ('k \<times> int) option) action" where
  "get_next set_id v =
     act_read (\<lambda>s. Inr (case sorted_sets s set_id of
         None \<Rightarrow> None
       | Some m \<Rightarrow> (case v of None \<Rightarrow> next_front m | Some x \<Rightarrow> next_front (bt_above x m))))"

definition get_value_count ::
    "u64 \<Rightarrow> 'k \<Rightarrow> (('k, 'a) result_index, index_error, int) action" where
  "get_value_count set_id v =
     act_read (\<lambda>s. Inr (case sorted_sets s set_id of
         None \<Rightarrow> 0
       | Some m \<Rightarrow> (case bt_get m v of None \<Rightarrow> 0 | Some c \<Rightarrow> c)))"

text \<open>An entry that became negative is reported after it was stored.\<close>

definition increment_value_count ::
    "u64 \<Rightarrow> 'k::linorder \<Rightarrow> int \<Rightarrow> (('k, 'a) result_index, index_error, unit) action" where
  "increment_value_count set_id v delta s =
     (if delta = 0 then (Inr (), s)
      else
        let m0 = (case sorted_sets s set_id of Some m \<Rightarrow> m | None \<Rightarrow> []);
            entry = (case bt_get m0 v of Some c \<Rightarrow> c + delta | None \<Rightarrow> delta);
            m1 = bt_insert v entry m0
        in if entry < 0 then (Inl CorruptedData, s\<lparr>sorted_sets := (sorted_sets s)(set_id \<mapsto> m1)\<rparr>)
           else
             let m2 = (if entry = 0 then bt_remove v m1 else m1)
             in (Inr (), s\<lparr>sorted_sets := (sorted_sets s)(set_id := (if m2 = [] then None else Some m2))\<rparr>))"

definition apply_sequence :: "u64 \<Rightarrow> string \<Rightarrow> (('k, 'a) result_index, index_error, unit) action" where
  "apply_sequence n cid s = (Inr (), s\<lparr>ri_sequence := \<lparr>rs_sequence = n, rs_source_change_id = cid\<rparr>\<rparr>)"

definition get_sequence :: "(('k, 'a) result_index, index_error, result_sequence) action" where
  "get_sequence = act_read (\<lambda>s. Inr (ri_sequence s))"

subsection \<open>The interface of the store of sorted sets\<close>

record ('s, 'e, 'k) set_store =
  st_next :: "u64 \<Rightarrow> 'k option \<Rightarrow> ('s, 'e, ('k \<times> int) option) action"
  st_count :: "u64 \<Rightarrow> 'k \<Rightarrow> ('s, 'e, int) action"
  st_increment :: "u64 \<Rightarrow> 'k \<Rightarrow> int \<Rightarrow> ('s, 'e, unit) action"

definition least_above :: "'k::linorder option \<Rightarrow> 'k set \<Rightarrow> 'k option" where
  "least_above v S =
     (let T = (case v of None \<Rightarrow> S | Some x \<Rightarrow> {y \<in> S. x < y}) in if T = {} then None else Some (Min T))"

text \<open>
  What a client of the store relies on: \<open>cnt s id v\<close> is how often \<open>v\<close> is in the set \<open>id\<close>.
\<close>

locale sorted_set_store =
  fixes store :: "('s, 'e, 'k::linorder) set_store" and inv :: "'s \<Rightarrow> bool" and cnt :: "'s \<Rightarrow> u64 \<Rightarrow> 'k \<Rightarrow> nat"
  assumes finite_support: "inv s \<Longrightarrow> finite {v. 0 < cnt s i v}"
    and next_law: "inv s \<Longrightarrow> st_next store i w s =
          (Inr (map_option (\<lambda>x. (x, int (cnt s i x))) (least_above w {v. 0 < cnt s i v})), s)"
    and count_law: "inv s \<Longrightarrow> st_count store i v s = (Inr (int (cnt s i v)), s)"
    and increment_law: "inv s \<Longrightarrow> 0 \<le> int (cnt s i v) + d \<Longrightarrow>
          \<exists>t. st_increment store i v d s = (Inr (), t) \<and> inv t \<and>
              cnt t = (cnt s)(i := (cnt s i)(v := nat (int (cnt s i v) + d)))"

subsection \<open>The lazily committed sorted set\<close>

record 'k lazy_sorted_set =
  lss_set_id :: u64
  change_log :: "('k, int \<times> int) btree"

definition new_lazy_sorted_set :: "u64 \<Rightarrow> 'k lazy_sorted_set" where
  "new_lazy_sorted_set set_id = \<lparr>lss_set_id = set_id, change_log = []\<rparr>"

text \<open>The walk along the change log, with the cursor in the store.\<close>

fun head_walk ::
    "('s, 'e, 'k::linorder) set_store \<Rightarrow> u64 \<Rightarrow> ('k \<times> int) option \<Rightarrow> ('k \<times> int \<times> int) list \<Rightarrow> ('s, 'e, 'k option) action" where
  "head_walk store i cursor [] = act_return (map_option fst cursor)"
| "head_walk store i cursor ((v, snapshot, delta) # log) =
     (case cursor of
        Some sc \<Rightarrow>
          if v > fst sc then act_return (Some (fst sc))
          else act_bind (st_next store i (Some (fst sc)))
                 (\<lambda>c. if snapshot + delta > 0 then act_return (Some v) else head_walk store i c log)
      | None \<Rightarrow> if snapshot + delta > 0 then act_return (Some v) else head_walk store i None log)"

definition get_head :: "('s, 'e, 'k::linorder) set_store \<Rightarrow> 'k lazy_sorted_set \<Rightarrow> ('s, 'e, 'k option) action" where
  "get_head store l =
     act_bind (st_next store (lss_set_id l) None) (\<lambda>c. head_walk store (lss_set_id l) c (change_log l))"

text \<open>\<open>insert\<close> and \<open>remove\<close> differ in the sign; an error of the store reads as a count of zero.\<close>

definition lss_change ::
    "('s, 'e, 'k::linorder) set_store \<Rightarrow> int \<Rightarrow> 'k \<Rightarrow> 'k lazy_sorted_set \<Rightarrow> 's \<Rightarrow> 'k lazy_sorted_set \<times> 's" where
  "lss_change store d v l s =
     (case bt_get (change_log l) v of
        Some (snapshot, delta) \<Rightarrow> (l\<lparr>change_log := bt_insert v (snapshot, delta + d) (change_log l)\<rparr>, s)
      | None \<Rightarrow>
          (case st_count store (lss_set_id l) v s of
             (r, t) \<Rightarrow> (l\<lparr>change_log := bt_insert v (case r of Inr c \<Rightarrow> c | Inl _ \<Rightarrow> 0, d) (change_log l)\<rparr>, t)))"

definition lss_insert ::
    "('s, 'e, 'k::linorder) set_store \<Rightarrow> 'k \<Rightarrow> 'k lazy_sorted_set \<Rightarrow> 's \<Rightarrow> 'k lazy_sorted_set \<times> 's" where
  "lss_insert store = lss_change store 1"

definition lss_remove ::
    "('s, 'e, 'k::linorder) set_store \<Rightarrow> 'k \<Rightarrow> 'k lazy_sorted_set \<Rightarrow> 's \<Rightarrow> 'k lazy_sorted_set \<times> 's" where
  "lss_remove store = lss_change store (- 1)"

definition lss_commit :: "('s, 'e, 'k) set_store \<Rightarrow> 'k lazy_sorted_set \<Rightarrow> ('s, 'e, 'k lazy_sorted_set) action" where
  "lss_commit store l =
     act_bind (act_foldl (\<lambda>_ (v, snapshot, delta). st_increment store (lss_set_id l) v delta) () (change_log l))
       (\<lambda>_. act_return (l\<lparr>change_log := []\<rparr>))"

subsection \<open>One pending change\<close>

text \<open>
  The aggregation functions change a set once between two commits. Over any store that keeps
  its laws, the head is then the least value of the changed set, and the commit makes the
  change permanent.
\<close>

definition change_count :: "int \<Rightarrow> 'k \<Rightarrow> ('k \<Rightarrow> nat) \<Rightarrow> 'k \<Rightarrow> nat" where
  "change_count d v c = c(v := nat (int (c v) + d))"

lemma least_above_mem:
  assumes "finite S" "least_above w S = Some x"
  shows "x \<in> S" "case w of None \<Rightarrow> True | Some y \<Rightarrow> y < x" "\<And>z. z \<in> S \<Longrightarrow> (case w of None \<Rightarrow> True | Some y \<Rightarrow> y < z) \<Longrightarrow> x \<le> z"
proof -
  let ?T = "case w of None \<Rightarrow> S | Some y \<Rightarrow> {z \<in> S. y < z}"
  have fin: "finite ?T" using assms(1) by (simp split: option.split)
  have "?T \<noteq> {}" "x = Min ?T" using assms(2) by (auto simp: least_above_def Let_def split: if_splits)
  then have x: "x \<in> ?T" and le: "\<And>z. z \<in> ?T \<Longrightarrow> x \<le> z" using fin by auto
  show "x \<in> S" using x by (auto split: option.splits)
  show "case w of None \<Rightarrow> True | Some y \<Rightarrow> y < x" using x by (auto split: option.splits)
  show "x \<le> z" if "z \<in> S" "case w of None \<Rightarrow> True | Some y \<Rightarrow> y < z" for z
    using that le by (auto split: option.splits)
qed

lemma least_above_None: "least_above None S = (if S = {} then None else Some (Min S))"
  by (simp add: least_above_def)

lemma least_above_next:
  assumes "finite S" "m \<in> S" "\<And>x. x \<in> S \<Longrightarrow> m \<le> x"
  shows "least_above (Some m) S = least_above None (S - {m})"
proof -
  have "{y \<in> S. m < y} = S - {m}" using assms(3) by (auto simp: less_le)
  then show ?thesis by (simp add: least_above_def)
qed

lemma least_above_NoneI:
  "finite S \<Longrightarrow> x \<in> S \<Longrightarrow> (\<And>y. y \<in> S \<Longrightarrow> x \<le> y) \<Longrightarrow> least_above None S = Some x"
  by (auto simp: least_above_None intro: Min_eqI)

context sorted_set_store
begin

lemma lss_change_new:
  assumes "inv s"
  shows "lss_change store d v (new_lazy_sorted_set i) s =
    (\<lparr>lss_set_id = i, change_log = [(v, int (cnt s i v), d)]\<rparr>, s)"
  using count_law [OF assms] by (simp add: lss_change_def new_lazy_sorted_set_def)

lemma get_head_new:
  assumes "inv s"
  shows "get_head store (new_lazy_sorted_set i) s = (Inr (least_above None {v. 0 < cnt s i v}), s)"
  using next_law [OF assms, of i None]
  by (simp add: get_head_def new_lazy_sorted_set_def act_bind_def act_return_def option.map_comp comp_def option.map_ident)

lemma get_head_one:
  assumes "inv s" "0 \<le> int (cnt s i v) + d" "d \<noteq> 0"
  shows "get_head store \<lparr>lss_set_id = i, change_log = [(v, int (cnt s i v), d)]\<rparr> s =
    (Inr (least_above None {w. 0 < change_count d v (cnt s i) w}), s)"
proof -
  let ?S = "{w. 0 < cnt s i w}" and ?T = "{w. 0 < change_count d v (cnt s i) w}"
  have fin: "finite ?S" using finite_support [OF assms(1)] .
  have T: "?T = (if 0 < int (cnt s i v) + d then insert v ?S else ?S - {v})"
    by (auto simp: change_count_def)
  show ?thesis
  proof (cases "least_above None ?S")
    case None
    then have "?S = {}" by (simp add: least_above_None split: if_splits)
    then have "?T = (if 0 < int (cnt s i v) + d then {v} else {})" by (simp add: T)
    then show ?thesis
      using next_law [OF assms(1), of i None] None
      by (simp add: get_head_def act_bind_def act_return_def least_above_None)
  next
    case (Some m)
    have m: "m \<in> ?S" "\<And>x. x \<in> ?S \<Longrightarrow> m \<le> x"
      using least_above_mem [OF fin Some] by simp_all
    consider (above) "m < v" | (below) "v < m" | (eq) "v = m" by (rule linorder_cases)
    then show ?thesis
    proof cases
      case above
      have "least_above None ?T = Some m"
        using above m fin by (intro least_above_NoneI) (auto simp: T less_imp_le split: if_splits)
      with above show ?thesis
        using next_law [OF assms(1), of i None] Some
        by (simp add: get_head_def act_bind_def act_return_def)
    next
      case below
      then have "v \<notin> ?S" using m(2) by (meson not_less)
      then have z: "cnt s i v = 0" by simp
      with assms(2,3) have "0 < d" by simp
      have "least_above None ?T = Some v"
        using below m fin \<open>0 < d\<close> z
        by (intro least_above_NoneI) (auto simp: T intro: order.strict_implies_order order.strict_trans2)
      moreover have "\<not> m < v" using below by simp
      ultimately show ?thesis
        using next_law [OF assms(1), of i] Some \<open>0 < d\<close> z
        by (simp add: get_head_def act_bind_def act_return_def)
    next
      case eq
      show ?thesis
      proof (cases "0 < int (cnt s i v) + d")
        case True
        have "least_above None ?T = Some m"
          unfolding T using eq m fin True by (intro least_above_NoneI) (auto split: if_splits)
        with True eq show ?thesis
          using next_law [OF assms(1), of i] Some
          by (simp add: get_head_def act_bind_def act_return_def)
      next
        case False
        have "least_above (Some m) ?S = least_above None ?T"
          unfolding T using least_above_next [OF fin m] eq False by simp
        with False eq show ?thesis
          using next_law [OF assms(1), of i] Some
          by (simp add: get_head_def act_bind_def act_return_def option.map_comp comp_def option.map_ident)
      qed
    qed
  qed
qed

lemma lss_commit_one:
  assumes "inv s" "0 \<le> int (cnt s i v) + d"
  shows "\<exists>t. lss_commit store \<lparr>lss_set_id = i, change_log = [(v, c, d)]\<rparr> s = (Inr (new_lazy_sorted_set i), t) \<and>
    inv t \<and> cnt t = (cnt s)(i := change_count d v (cnt s i))"
proof -
  from increment_law [OF assms] obtain t where
    "st_increment store i v d s = (Inr (), t)" "inv t"
    "cnt t = (cnt s)(i := (cnt s i)(v := nat (int (cnt s i v) + d)))" by blast
  then show ?thesis
    by (simp add: lss_commit_def act_bind_def act_return_def new_lazy_sorted_set_def change_count_def)
qed

lemma lss_commit_new: "lss_commit store (new_lazy_sorted_set i) s = (Inr (new_lazy_sorted_set i), s)"
  by (simp add: lss_commit_def act_bind_def act_return_def new_lazy_sorted_set_def)

end

subsection \<open>The in-memory index is such a store\<close>

definition memory_store :: "(('k::linorder, 'a) result_index, index_error, 'k) set_store" where
  "memory_store = \<lparr>st_next = get_next, st_count = get_value_count, st_increment = increment_value_count\<rparr>"

definition sets_ok :: "('k::linorder, 'a) result_index \<Rightarrow> bool" where
  "sets_ok s \<longleftrightarrow> (\<forall>i m. sorted_sets s i = Some m \<longrightarrow> m \<noteq> [] \<and> bt_ok m \<and> (\<forall>v c. (v, c) \<in> set m \<longrightarrow> 0 < c))"

definition set_counts :: "('k, 'a) result_index \<Rightarrow> u64 \<Rightarrow> 'k \<Rightarrow> nat" where
  "set_counts s i v =
     (case sorted_sets s i of None \<Rightarrow> 0 | Some m \<Rightarrow> (case bt_get m v of None \<Rightarrow> 0 | Some c \<Rightarrow> nat c))"

lemma next_front_least:
  assumes "bt_ok m"
  shows "next_front (case v of None \<Rightarrow> m | Some x \<Rightarrow> bt_above x m) =
    map_option (\<lambda>x. (x, the (bt_get m x))) (least_above v (fst ` set m))"
proof -
  let ?m = "case v of None \<Rightarrow> m | Some x \<Rightarrow> bt_above x m"
  have ok: "bt_ok ?m" using assms by (simp split: option.split)
  have keys: "fst ` set ?m = (case v of None \<Rightarrow> fst ` set m | Some x \<Rightarrow> {y \<in> fst ` set m. x < y})"
    by (auto simp: bt_above_def split: option.split)
  have sub: "set ?m \<subseteq> set m" by (auto simp: bt_above_def split: option.split)
  show ?thesis
  proof (cases ?m)
    case Nil
    then show ?thesis using keys by (simp add: least_above_def next_front_def)
  next
    case (Cons e rest)
    have "Min (fst ` set ?m) = fst e"
      using ok by (intro Min_eqI) (auto simp: Cons bt_ok_Cons less_imp_le)
    moreover have "bt_get m (fst e) = Some (snd e)"
      using sub assms by (auto simp: Cons bt_get_mem)
    moreover have "fst ` set ?m \<noteq> {}" by (simp add: Cons)
    ultimately show ?thesis
      unfolding keys by (simp add: least_above_def next_front_def Cons Let_def)
  qed
qed

lemma memory_count:
  assumes "sets_ok s" "sorted_sets s i = Some m" "(x, c) \<in> set m"
  shows "bt_get m x = Some c" "0 < c" "int (set_counts s i x) = c"
proof -
  from assms have "bt_ok m" "0 < c" by (auto simp: sets_ok_def)
  moreover from this assms(3) have "bt_get m x = Some c" by (simp add: bt_get_mem)
  ultimately show "bt_get m x = Some c" "0 < c" "int (set_counts s i x) = c"
    using assms(2) by (simp_all add: set_counts_def)
qed

lemma memory_support:
  assumes "sets_ok s"
  shows "{v. 0 < set_counts s i v} = (case sorted_sets s i of None \<Rightarrow> {} | Some m \<Rightarrow> fst ` set m)"
proof (cases "sorted_sets s i")
  case (Some m)
  have "0 < set_counts s i x" if "(x, c) \<in> set m" for x c
    using memory_count [OF assms Some that] by simp
  moreover have "x \<in> fst ` set m" if "0 < set_counts s i x" for x
    using that Some by (force simp: set_counts_def dest: map_of_SomeD split: option.splits)
  ultimately show ?thesis by (auto simp: Some)
qed (simp add: set_counts_def)

lemma memory_get:
  assumes "sets_ok s"
  shows "(case sorted_sets s i of None \<Rightarrow> 0 | Some m \<Rightarrow> (case bt_get m v of None \<Rightarrow> 0 | Some c \<Rightarrow> c)) =
    int (set_counts s i v)"
proof (cases "sorted_sets s i")
  case (Some m)
  show ?thesis
  proof (cases "bt_get m v")
    case (Some c)
    with memory_count [OF assms \<open>sorted_sets s i = Some m\<close>, of v c] show ?thesis
      by (simp add: \<open>sorted_sets s i = Some m\<close> map_of_SomeD)
  qed (simp add: set_counts_def Some)
qed (simp add: set_counts_def)

lemma memory_increment:
  fixes s :: "('k::linorder, 'a) result_index"
  assumes ok: "sets_ok s" and nn: "0 \<le> int (set_counts s i v) + d"
  shows "\<exists>t. increment_value_count i v d s = (Inr (), t) \<and> sets_ok t \<and>
    set_counts t = (set_counts s)(i := (set_counts s i)(v := nat (int (set_counts s i v) + d)))"
proof (cases "d = 0")
  case True
  then show ?thesis using ok by (simp add: increment_value_count_def fun_eq_iff)
next
  case False
  define m0 where "m0 = (case sorted_sets s i of Some m \<Rightarrow> m | None \<Rightarrow> [])"
  define en where "en = int (set_counts s i v) + d"
  define m2 where "m2 = (if en = 0 then bt_remove v (bt_insert v en m0) else bt_insert v en m0)"
  define t where "t = s\<lparr>sorted_sets := (sorted_sets s)(i := (if m2 = [] then None else Some m2))\<rparr>"
  have m0: "bt_ok m0" "\<And>x c. (x, c) \<in> set m0 \<Longrightarrow> 0 < c"
    using ok unfolding m0_def sets_ok_def by (cases "sorted_sets s i"; force)+
  have get0: "set_counts s i w = (case bt_get m0 w of None \<Rightarrow> 0 | Some c \<Rightarrow> nat c)" for w
    by (simp add: m0_def set_counts_def split: option.split)
  have entry: "(case bt_get m0 v of Some c \<Rightarrow> c + d | None \<Rightarrow> d) = en"
    using m0(2) [of v] by (cases "bt_get m0 v") (auto simp: en_def get0 less_imp_le dest: map_of_SomeD)
  have run: "increment_value_count i v d s = (Inr (), t)"
    using False nn entry by (simp add: increment_value_count_def Let_def t_def m2_def m0_def [symmetric]) (simp add: en_def)
  have get2: "bt_get m2 w = (if w = v then (if en = 0 then None else Some en) else bt_get m0 w)" for w
    by (simp add: m2_def bt_simps)
  have ok2: "bt_ok m2" using m0 by (simp add: m2_def)
  have pos: "0 < c" if "(x, c) \<in> set m2" for x c
  proof -
    from that ok2 have "bt_get m2 x = Some c" by (simp add: bt_get_mem)
    then show ?thesis using m0 nn by (auto simp: get2 bt_get_mem en_def split: if_splits)
  qed
  have okt: "sets_ok t"
    using ok ok2 pos by (auto simp: sets_ok_def t_def split: if_splits)
  have "set_counts t i w = (case bt_get m2 w of None \<Rightarrow> 0 | Some c \<Rightarrow> nat c)" for w
    by (simp add: t_def set_counts_def)
  then have "set_counts t i w = (if w = v then nat en else set_counts s i w)" for w
    by (simp add: get2 get0)
  moreover have "set_counts t j w = set_counts s j w" if "j \<noteq> i" for j w
    using that by (simp add: t_def set_counts_def)
  ultimately have "set_counts t = (set_counts s)(i := (set_counts s i)(v := nat en))" by (auto simp: fun_eq_iff)
  with run okt show ?thesis by (auto simp: en_def)
qed

interpretation memory_sets: sorted_set_store "memory_store :: (('k::linorder, 'a) result_index, index_error, 'k) set_store"
  sets_ok set_counts
proof unfold_locales
  fix s :: "('k, 'a) result_index" and i w
  assume ok: "sets_ok s"
  show "finite {v. 0 < set_counts s i v}"
    by (simp add: memory_support [OF ok] split: option.split)
  show "st_next memory_store i w s =
          (Inr (map_option (\<lambda>x. (x, int (set_counts s i x))) (least_above w {v. 0 < set_counts s i v})), s)"
  proof (cases "sorted_sets s i")
    case None
    then show ?thesis
      by (simp add: memory_store_def get_next_def memory_support [OF ok] least_above_def split: option.split)
  next
    case (Some m)
    have "bt_ok m" using ok Some by (simp add: sets_ok_def)
    have "least_above w (fst ` set m) = Some x \<Longrightarrow> x \<in> fst ` set m" for x
      by (rule least_above_mem) simp_all
    then have "map_option (\<lambda>x. (x, the (bt_get m x))) (least_above w (fst ` set m)) =
        map_option (\<lambda>x. (x, int (set_counts s i x))) (least_above w (fst ` set m))"
      using memory_count [OF ok Some] by (cases "least_above w (fst ` set m)") auto
    with next_front_least [OF \<open>bt_ok m\<close>, of w] Some show ?thesis
      by (simp add: memory_store_def get_next_def memory_support [OF ok] split: option.splits)
  qed
next
  fix s :: "('k, 'a) result_index" and i v
  assume ok: "sets_ok s"
  show "st_count memory_store i v s = (Inr (int (set_counts s i v)), s)"
    using memory_get [OF ok, where i = i and v = v] by (simp add: memory_store_def get_value_count_def)
next
  fix s :: "('k, 'a) result_index" and i v d
  assume "sets_ok s" "0 \<le> int (set_counts s i v) + d"
  then show "\<exists>t. st_increment memory_store i v d s = (Inr (), t) \<and> sets_ok t \<and>
      set_counts t = (set_counts s)(i := (set_counts s i)(v := nat (int (set_counts s i v) + d)))"
    using memory_increment by (simp add: memory_store_def)
qed

end
