(* ===== verification/Values.thy ===== *)
theory Values
  imports Solution Complex_Main
begin

text \<open>
  Numbers and the two equalities of variable values:
  \<^verbatim>\<open>src/core/src/evaluation/variable_value/integer.rs\<close>, \<^verbatim>\<open>float.rs\<close>, \<^verbatim>\<open>partial_eq.rs\<close> and
  the grouping identity of \<^verbatim>\<open>mod.rs\<close>.

  A double is one of the datatype \<open>f64\<close>: a finite value given by its rational number, the
  negative zero, an infinity or a not-a-number with its bits. What the hasher is fed is a
  sequence of tokens. Rust's \<open>unreachable!\<close> is the value \<open>None\<close>.
\<close>

subsection \<open>Integers\<close>

definition i64_max :: u64 where
  "i64_max = 0x7FFFFFFFFFFFFFFF"

definition from_unsigned :: "u64 \<Rightarrow> integer" where
  "from_unsigned u = PosInt u"

definition from_signed :: "64 word \<Rightarrow> integer" where
  "from_signed i = (if sint i < 0 then NegInt i else PosInt i)"

fun is_i64 :: "integer \<Rightarrow> bool" where
  "is_i64 (PosInt v) = (v \<le> i64_max)"
| "is_i64 (NegInt _) = True"

fun is_u64 :: "integer \<Rightarrow> bool" where
  "is_u64 (PosInt _) = True"
| "is_u64 (NegInt _) = False"

fun as_i64 :: "integer \<Rightarrow> 64 word option" where
  "as_i64 (PosInt n) = (if n \<le> i64_max then Some n else None)"
| "as_i64 (NegInt n) = Some n"

fun as_u64 :: "integer \<Rightarrow> u64 option" where
  "as_u64 (PosInt n) = Some n"
| "as_u64 (NegInt _) = None"

text \<open>The number an integer stands for.\<close>

fun integer_value :: "integer \<Rightarrow> int" where
  "integer_value (PosInt n) = uint n"
| "integer_value (NegInt n) = sint n"

text \<open>\<open>NegInt\<close> holds negative numbers only; every constructor of the source gives this.\<close>

fun integer_ok :: "integer \<Rightarrow> bool" where
  "integer_ok (PosInt _) = True"
| "integer_ok (NegInt n) = (sint n < 0)"

subsection \<open>Doubles\<close>

datatype f64 = Fin rat | NegZero | Inf bool | NaN u64

fun f64_value :: "f64 \<Rightarrow> rat option" where
  "f64_value (Fin q) = Some q"
| "f64_value NegZero = Some 0"
| "f64_value _ = None"

fun f64_eq :: "f64 \<Rightarrow> f64 \<Rightarrow> bool" where
  "f64_eq (NaN _) _ = False"
| "f64_eq _ (NaN _) = False"
| "f64_eq (Inf a) (Inf b) = (a = b)"
| "f64_eq (Inf _) _ = False"
| "f64_eq _ (Inf _) = False"
| "f64_eq a b = (f64_value a = f64_value b)"

fun f64_is_finite :: "f64 \<Rightarrow> bool" where
  "f64_is_finite (Fin _) = True"
| "f64_is_finite NegZero = True"
| "f64_is_finite _ = False"

text \<open>\<open>Float\<close>: the constructors of finite values and \<open>as_f64\<close>, which rejects the others.\<close>

definition float_as_f64 :: "f64 \<Rightarrow> f64 option" where
  "float_as_f64 v = (if f64_is_finite v then Some v else None)"

definition float_from_f64 :: "f64 \<Rightarrow> f64 option" where
  "float_from_f64 v = (if f64_is_finite v then Some v else None)"

text \<open>
  The fraction of an infinity or not-a-number is not zero; the casts to \<open>u64\<close> and \<open>i64\<close> are
  exact on the numbers that reach them.
\<close>

definition as_integer_exact :: "f64 \<Rightarrow> integer option" where
  "as_integer_exact v =
     (case f64_value v of
        None \<Rightarrow> None
      | Some q \<Rightarrow>
          if frac q \<noteq> 0 then None
          else if 0 \<le> q \<and> q < 2 ^ 64 then Some (from_unsigned (of_int \<lfloor>q\<rfloor>))
          else if q < 0 \<and> - (2 ^ 63) \<le> q then Some (from_signed (of_int \<lfloor>q\<rfloor>))
          else None)"

text \<open>Equal, or the same bits.\<close>

definition float_eq_for_groupby :: "f64 \<Rightarrow> f64 \<Rightarrow> bool" where
  "float_eq_for_groupby a b \<longleftrightarrow> f64_eq a b \<or> a = b"

text \<open>The hash of a float: both zeros hash as the positive one.\<close>

definition float_token :: "f64 \<Rightarrow> f64" where
  "float_token v = (if f64_eq v (Fin 0) then Fin 0 else v)"

subsection \<open>Ordinary equality\<close>

fun all2_opt :: "('a \<Rightarrow> 'a \<Rightarrow> bool option) \<Rightarrow> 'a list \<Rightarrow> 'a list \<Rightarrow> bool option" where
  "all2_opt f (x # xs) (y # ys) =
     (case f x y of None \<Rightarrow> None | Some False \<Rightarrow> Some False | Some True \<Rightarrow> all2_opt f xs ys)"
| "all2_opt f _ _ = Some True"

lemma all2_opt_cong [fundef_cong]:
  "xs = xs' \<Longrightarrow> ys = ys' \<Longrightarrow> (\<And>x y. x \<in> set xs' \<Longrightarrow> y \<in> set ys' \<Longrightarrow> f x y = g x y) \<Longrightarrow>
     all2_opt f xs ys = all2_opt g xs' ys'"
  by (induction f xs ys arbitrary: xs' ys' rule: all2_opt.induct) (auto split: option.split bool.split)

text \<open>The conversion of an integer to a double rounds; it is a parameter.\<close>

definition int_float_eq :: "(int \<Rightarrow> f64) \<Rightarrow> integer \<Rightarrow> f64 \<Rightarrow> bool option" where
  "int_float_eq to_f64 n m =
     (case as_i64 n of
        None \<Rightarrow> Some False
      | Some i \<Rightarrow> map_option (f64_eq (to_f64 (sint i))) (float_as_f64 m))"

function variable_eq ::
    "(int \<Rightarrow> f64) \<Rightarrow> (f64, 'd, 'x, 'v) variable_value \<Rightarrow> (f64, 'd, 'x, 'v) variable_value \<Rightarrow> bool option" where
  "variable_eq to_f64 v w =
     (case v of
        VInteger n \<Rightarrow>
          (case w of VInteger m \<Rightarrow> Some (n = m) | VFloat m \<Rightarrow> int_float_eq to_f64 n m | _ \<Rightarrow> Some False)
      | VFloat n \<Rightarrow>
          (case w of VFloat m \<Rightarrow> Some (f64_eq n m) | VInteger m \<Rightarrow> int_float_eq to_f64 m n | _ \<Rightarrow> Some False)
      | VList xs \<Rightarrow>
          (case w of
             VList ys \<Rightarrow> if length xs = length ys then all2_opt (variable_eq to_f64) xs ys else Some False
           | _ \<Rightarrow> Some False)
      | VObject xs \<Rightarrow>
          (case w of
             VObject ys \<Rightarrow>
               if length xs = length ys
               then all2_opt (\<lambda>p q. if fst p = fst q then variable_eq to_f64 (snd p) (snd q) else Some False) xs ys
               else Some False
           | _ \<Rightarrow> Some False)
      | _ \<Rightarrow> Some (v = w))"
  by pat_completeness auto

lemma size_list_mem: "x \<in> set xs \<Longrightarrow> f x < Suc (size_list f xs)"
  by (induction xs) auto

lemma size_object_mem: "(a, b) \<in> set xs \<Longrightarrow> size b < Suc (size_list (size_prod (\<lambda>x. 0) size) xs)"
  by (drule size_list_mem [where f = "size_prod (\<lambda>x. 0) size"]) simp

termination variable_eq
  by (relation "measure (\<lambda>(r, v, w). size v)") (auto simp: size_list_mem size_object_mem)

declare variable_eq.simps [simp del]

subsection \<open>The grouping identity\<close>

function eq_for_groupby ::
    "(f64, 'd, 'x, 'v) variable_value \<Rightarrow> (f64, 'd, 'x, 'v) variable_value \<Rightarrow> bool" where
  "eq_for_groupby v w =
     (case v of
        VElement e \<Rightarrow> (case w of VElement e' \<Rightarrow> get_reference e = get_reference e' | _ \<Rightarrow> False)
      | VInteger i \<Rightarrow>
          (case w of VInteger j \<Rightarrow> i = j | VFloat f \<Rightarrow> as_integer_exact f = Some i | _ \<Rightarrow> False)
      | VFloat f \<Rightarrow>
          (case w of VInteger i \<Rightarrow> as_integer_exact f = Some i | VFloat g \<Rightarrow> float_eq_for_groupby f g | _ \<Rightarrow> False)
      | VList xs \<Rightarrow> (case w of VList ys \<Rightarrow> list_all2 eq_for_groupby xs ys | _ \<Rightarrow> False)
      | VObject xs \<Rightarrow>
          (case w of
             VObject ys \<Rightarrow> list_all2 (\<lambda>p q. fst p = fst q \<and> eq_for_groupby (snd p) (snd q)) xs ys
           | _ \<Rightarrow> False)
      | _ \<Rightarrow> v = w)"
  by pat_completeness auto

termination eq_for_groupby
  by (relation "measure (\<lambda>(v, w). size v)") (auto simp: size_list_mem size_object_mem)

declare eq_for_groupby.simps [simp del]

text \<open>
  What the hasher is fed. \<open>TDisc\<close> is the number of the constructor; \<open>TValue\<close> is the derived
  hash of a value that has no nested values.
\<close>

datatype ('d, 'x, 'v) token =
    TDisc nat
  | TBool bool
  | TU64 u64
  | TFloat f64
  | TStr string
  | TLen nat
  | TRef element_reference
  | TValue "(f64, 'd, 'x, 'v) variable_value"

fun integer_tokens :: "integer \<Rightarrow> ('d, 'x, 'v) token list" where
  "integer_tokens (PosInt n) = [TDisc 3, TBool False, TU64 n]"
| "integer_tokens (NegInt n) = [TDisc 3, TBool True, TU64 (if sint n < 0 then - n else n)]"

function hash_for_groupby :: "(f64, 'd, 'x, 'v) variable_value \<Rightarrow> ('d, 'x, 'v) token list" where
  "hash_for_groupby v =
     (case v of
        VElement e \<Rightarrow> [TRef (get_reference e)]
      | VInteger i \<Rightarrow> integer_tokens i
      | VFloat f \<Rightarrow>
          (case as_integer_exact f of Some i \<Rightarrow> integer_tokens i | None \<Rightarrow> [TDisc 2, TFloat (float_token f)])
      | VList xs \<Rightarrow> TDisc 5 # TLen (length xs) # concat (map hash_for_groupby xs)
      | VObject xs \<Rightarrow>
          TDisc 6 # TLen (length xs) # concat (map (\<lambda>p. TStr (fst p) # hash_for_groupby (snd p)) xs)
      | _ \<Rightarrow> [TValue v])"
  by pat_completeness auto

termination hash_for_groupby
  by (relation "measure size") (auto simp: size_list_mem size_object_mem)

declare hash_for_groupby.simps [simp del]

subsection \<open>Integers as numbers\<close>

lemma i64_max_int: "uint i64_max = 2 ^ 63 - 1"
  by (simp add: i64_max_def)

lemma sint_of_int: "- (2 ^ 63) \<le> k \<Longrightarrow> k < 2 ^ 63 \<Longrightarrow> sint (of_int k :: 64 word) = k"
  by (simp add: int_word_sint)

lemma uint_of_int: "0 \<le> k \<Longrightarrow> k < 2 ^ 64 \<Longrightarrow> uint (of_int k :: 64 word) = k"
  by (simp add: uint_word_of_int)

lemma uint_64: "uint (n :: 64 word) < 18446744073709551616"
  using uint_lt2p [of n] by simp

lemma sint_uint_64: "sint (n :: 64 word) = (if uint n < 2 ^ 63 then uint n else uint n - 2 ^ 64)"
proof -
  have r: "0 \<le> uint n" "uint n < 2 ^ 64" using uint_lt2p [of n] by simp_all
  have "sint n = (uint n + 2 ^ 63) mod 2 ^ 64 - 2 ^ 63"
    using int_word_sint [of "uint n", where 'a = 64] by simp
  moreover have "(uint n + 2 ^ 63) mod 2 ^ 64 = uint n + 2 ^ 63 - 2 ^ 64" if "2 ^ 63 \<le> uint n"
  proof -
    have "(uint n + 2 ^ 63) mod 2 ^ 64 = (uint n + 2 ^ 63 - 2 ^ 64) mod 2 ^ 64"
      by (rule minus_mod_self2 [symmetric])
    also have "\<dots> = uint n + 2 ^ 63 - 2 ^ 64" using that uint_64 [of n] by (intro mod_pos_pos_trivial) simp_all
    finally show ?thesis .
  qed
  ultimately show ?thesis using r by auto
qed

lemma le_i64_max: "n \<le> i64_max \<longleftrightarrow> uint n < 2 ^ 63"
  using i64_max_int by (auto simp: word_le_def)

lemma as_i64_None: "as_i64 n = None \<longleftrightarrow> 2 ^ 63 \<le> integer_value n"
proof (cases n)
  case (NegInt w)
  then show ?thesis using sint_uint_64 [of w] uint_64 [of w] by (auto split: if_splits)
qed (auto simp: le_i64_max)

lemma as_i64_Some: "as_i64 n = Some i \<Longrightarrow> sint i = integer_value n"
  by (cases n) (auto simp: le_i64_max sint_uint_64 split: if_splits)

lemma from_signed_value: "integer_value (from_signed i) = sint i" "integer_ok (from_signed i)"
  using uint_64 [of i] by (auto simp: from_signed_def sint_uint_64 split: if_splits)

lemma integer_value_inj: "integer_ok a \<Longrightarrow> integer_ok b \<Longrightarrow> integer_value a = integer_value b \<longleftrightarrow> a = b"
proof -
  assume ok: "integer_ok a" "integer_ok b"
  have s: "x = y" if "sint x = sint y" for x y :: "64 word"
  proof -
    have "uint x - 18446744073709551616 \<noteq> uint y" "uint x \<noteq> uint y - 18446744073709551616"
      using uint_64 [of x] uint_64 [of y] uint_ge_0 [of x] uint_ge_0 [of y] by linarith+
    with that show ?thesis by (auto simp: sint_uint_64 word_uint_eq_iff split: if_splits)
  qed
  have word_uint_eqI: "uint (x :: 64 word) = uint y \<Longrightarrow> x = y" for x y by (simp add: word_uint_eq_iff)
  show ?thesis
    using ok by (cases a; cases b) (auto dest: s word_uint_eqI, metis not_less uint_ge_0)
qed

text \<open>
  C34. Conversions of integers. A signed machine integer survives the round trip through
  \<open>Integer\<close>, an unsigned one too; \<open>as_i64\<close> refuses exactly the numbers from \<open>2\<^sup>63\<close> on and
  \<open>as_u64\<close> exactly the negative ones; what they return is the number itself.
\<close>

theorem integer_round_trip:
  "as_i64 (from_signed i) = Some i \<and> as_u64 (from_unsigned u) = Some u \<and>
   integer_value (from_signed i) = sint i \<and> integer_value (from_unsigned u) = uint u \<and>
   (as_i64 n = None \<longleftrightarrow> 2 ^ 63 \<le> integer_value n) \<and> (is_i64 n \<longleftrightarrow> as_i64 n \<noteq> None) \<and>
   map_option sint (as_i64 n) = (if integer_value n < 2 ^ 63 then Some (integer_value n) else None) \<and>
   (integer_ok n \<longrightarrow> map_option uint (as_u64 n) = (if 0 \<le> integer_value n then Some (integer_value n) else None))"
proof -
  have "as_i64 (from_signed i) = Some i"
    using uint_64 [of i] by (auto simp: from_signed_def le_i64_max sint_uint_64 split: if_splits)
  moreover have "map_option sint (as_i64 n) = (if integer_value n < 2 ^ 63 then Some (integer_value n) else None)"
    using as_i64_None [of n] as_i64_Some [of n] by (cases "as_i64 n") auto
  moreover have "is_i64 n \<longleftrightarrow> as_i64 n \<noteq> None" by (cases n) auto
  moreover have "integer_ok n \<longrightarrow> map_option uint (as_u64 n) = (if 0 \<le> integer_value n then Some (integer_value n) else None)"
    by (cases n) auto
  ultimately show ?thesis by (simp add: from_signed_value from_unsigned_def as_i64_None)
qed

theorem integer_round_trip_witness: "as_u64 (PosInt 5) = Some 5 \<and> as_i64 (PosInt (2 ^ 63)) = None \<and> as_i64 (from_signed (- 3)) = Some (- 3)"
  using integer_round_trip [of "- 3" 5 "PosInt (2 ^ 63)"] by (simp add: from_unsigned_def)

subsection \<open>Doubles as numbers\<close>

lemma as_integer_exact_value:
  assumes "as_integer_exact f = Some i"
  shows "f64_value f = Some (of_int (integer_value i))" "integer_ok i"
proof -
  from assms obtain q where q: "f64_value f = Some q" and fr: "frac q = 0"
    by (auto simp: as_integer_exact_def split: option.splits if_splits)
  have fl: "q = of_int \<lfloor>q\<rfloor>" using fr by (simp add: frac_def)
  consider "0 \<le> q" "q < 2 ^ 64" "i = PosInt (of_int \<lfloor>q\<rfloor>)"
    | "q < 0" "- (2 ^ 63) \<le> q" "i = from_signed (of_int \<lfloor>q\<rfloor>)"
    using assms q fr by (auto simp: as_integer_exact_def from_unsigned_def split: if_splits)
  then have "integer_value i = \<lfloor>q\<rfloor> \<and> integer_ok i"
  proof cases
    case 1
    then have "0 \<le> \<lfloor>q\<rfloor>" "\<lfloor>q\<rfloor> < 2 ^ 64" by (simp_all add: floor_less_iff)
    with 1 show ?thesis by (simp add: uint_of_int)
  next
    case 2
    then have "- (2 ^ 63) \<le> \<lfloor>q\<rfloor>" "\<lfloor>q\<rfloor> < 2 ^ 63" by (simp_all add: floor_less_iff le_floor_iff)
    with 2 show ?thesis using from_signed_value [of "of_int \<lfloor>q\<rfloor>"] sint_of_int [of "\<lfloor>q\<rfloor>"] by simp
  qed
  with q fl show "f64_value f = Some (of_int (integer_value i))" "integer_ok i" by simp_all
qed

lemma f64_eq_value: "f64_eq f g \<Longrightarrow> f64_value f = f64_value g"
  by (induction f g rule: f64_eq.induct) auto

lemma value_f64_eq: "f64_value f = Some q \<Longrightarrow> f64_value g = Some q \<Longrightarrow> f64_eq f g"
  by (cases f; cases g) auto

lemma as_integer_exact_zero: "f64_eq f (Fin 0) \<Longrightarrow> as_integer_exact f = Some (PosInt 0)"
  by (cases f) (auto simp: as_integer_exact_def from_unsigned_def)

lemma f64_eq_token: "f64_eq f g \<Longrightarrow> float_token f = float_token g"
  by (cases f; cases g) (auto simp: float_token_def)

lemma float_eq_iff:
  "float_eq_for_groupby f g \<longleftrightarrow>
     (case as_integer_exact f of
        Some i \<Rightarrow> as_integer_exact g = Some i
      | None \<Rightarrow> as_integer_exact g = None \<and> float_token f = float_token g)"
proof
  assume "float_eq_for_groupby f g"
  then have "f64_eq f g \<or> f = g" by (simp add: float_eq_for_groupby_def)
  moreover have "as_integer_exact f = as_integer_exact g" if "f64_eq f g"
    using f64_eq_value [OF that] by (simp add: as_integer_exact_def)
  ultimately show "case as_integer_exact f of Some i \<Rightarrow> as_integer_exact g = Some i
      | None \<Rightarrow> as_integer_exact g = None \<and> float_token f = float_token g"
    using f64_eq_token [of f g] by (auto split: option.split)
next
  assume r: "case as_integer_exact f of Some i \<Rightarrow> as_integer_exact g = Some i
      | None \<Rightarrow> as_integer_exact g = None \<and> float_token f = float_token g"
  show "float_eq_for_groupby f g"
  proof (cases "as_integer_exact f")
    case (Some i)
    with r have "as_integer_exact g = Some i" by simp
    with Some show ?thesis
      using as_integer_exact_value(1) [of f i] as_integer_exact_value(1) [of g i] value_f64_eq
      by (auto simp: float_eq_for_groupby_def)
  next
    case None
    with r have "as_integer_exact g = None" "float_token f = float_token g" by auto
    moreover from this None have "\<not> f64_eq f (Fin 0)" "\<not> f64_eq g (Fin 0)"
      using as_integer_exact_zero by force+
    ultimately show ?thesis by (simp add: float_eq_for_groupby_def float_token_def)
  qed
qed

subsection \<open>The hash decides the grouping identity\<close>

text \<open>All integers inside a value are well formed.\<close>

function value_ok :: "(f64, 'd, 'x, 'v) variable_value \<Rightarrow> bool" where
  "value_ok v =
     (case v of
        VInteger i \<Rightarrow> integer_ok i
      | VList xs \<Rightarrow> list_all value_ok xs
      | VObject xs \<Rightarrow> list_all (\<lambda>p. value_ok (snd p)) xs
      | _ \<Rightarrow> True)"
  by pat_completeness auto

termination value_ok
  by (relation "measure size") (auto simp: size_list_mem size_object_mem)

declare value_ok.simps [simp del]

fun plain :: "(f64, 'd, 'x, 'v) variable_value \<Rightarrow> bool" where
  "plain (VElement e) = False"
| "plain (VInteger i) = False"
| "plain (VFloat f) = False"
| "plain (VList xs) = False"
| "plain (VObject xs) = False"
| "plain _ = True"

lemma hash_simps:
  "hash_for_groupby (VElement e) = [TRef (get_reference e)]"
  "hash_for_groupby (VInteger i) = integer_tokens i"
  "hash_for_groupby (VFloat f) =
     (case as_integer_exact f of Some i \<Rightarrow> integer_tokens i | None \<Rightarrow> [TDisc 2, TFloat (float_token f)])"
  "hash_for_groupby (VList xs) = TDisc 5 # TLen (length xs) # concat (map hash_for_groupby xs)"
  "hash_for_groupby (VObject os) =
     TDisc 6 # TLen (length os) # concat (map (\<lambda>p. TStr (fst p) # hash_for_groupby (snd p)) os)"
  "plain v \<Longrightarrow> hash_for_groupby v = [TValue v]"
proof -
  show "hash_for_groupby (VElement e) = [TRef (get_reference e)]"
    "hash_for_groupby (VInteger i) = integer_tokens i"
    "hash_for_groupby (VFloat f) =
       (case as_integer_exact f of Some i \<Rightarrow> integer_tokens i | None \<Rightarrow> [TDisc 2, TFloat (float_token f)])"
    "hash_for_groupby (VList xs) = TDisc 5 # TLen (length xs) # concat (map hash_for_groupby xs)"
    "hash_for_groupby (VObject os) =
       TDisc 6 # TLen (length os) # concat (map (\<lambda>p. TStr (fst p) # hash_for_groupby (snd p)) os)"
    by (subst hash_for_groupby.simps; simp)+
  show "plain v \<Longrightarrow> hash_for_groupby v = [TValue v]"
    by (cases v; subst hash_for_groupby.simps; simp)
qed

lemma eq_simps:
  "eq_for_groupby (VElement e) w = (case w of VElement e' \<Rightarrow> get_reference e = get_reference e' | _ \<Rightarrow> False)"
  "eq_for_groupby (VInteger i) w =
     (case w of VInteger j \<Rightarrow> i = j | VFloat f \<Rightarrow> as_integer_exact f = Some i | _ \<Rightarrow> False)"
  "eq_for_groupby (VFloat f) w =
     (case w of VInteger i \<Rightarrow> as_integer_exact f = Some i | VFloat g \<Rightarrow> float_eq_for_groupby f g | _ \<Rightarrow> False)"
  "eq_for_groupby (VList xs) w = (case w of VList ys \<Rightarrow> list_all2 eq_for_groupby xs ys | _ \<Rightarrow> False)"
  "eq_for_groupby (VObject os) w =
     (case w of VObject ys \<Rightarrow> list_all2 (\<lambda>p q. fst p = fst q \<and> eq_for_groupby (snd p) (snd q)) os ys | _ \<Rightarrow> False)"
  "plain v \<Longrightarrow> eq_for_groupby v w = (v = w)"
proof -
  show "eq_for_groupby (VElement e) w = (case w of VElement e' \<Rightarrow> get_reference e = get_reference e' | _ \<Rightarrow> False)"
    "eq_for_groupby (VInteger i) w =
       (case w of VInteger j \<Rightarrow> i = j | VFloat f \<Rightarrow> as_integer_exact f = Some i | _ \<Rightarrow> False)"
    "eq_for_groupby (VFloat f) w =
       (case w of VInteger i \<Rightarrow> as_integer_exact f = Some i | VFloat g \<Rightarrow> float_eq_for_groupby f g | _ \<Rightarrow> False)"
    "eq_for_groupby (VList xs) w = (case w of VList ys \<Rightarrow> list_all2 eq_for_groupby xs ys | _ \<Rightarrow> False)"
    "eq_for_groupby (VObject os) w =
       (case w of VObject ys \<Rightarrow> list_all2 (\<lambda>p q. fst p = fst q \<and> eq_for_groupby (snd p) (snd q)) os ys | _ \<Rightarrow> False)"
    by (subst eq_for_groupby.simps; simp)+
  show "plain v \<Longrightarrow> eq_for_groupby v w = (v = w)"
    by (cases v; subst eq_for_groupby.simps; simp)
qed

lemma ok_simps:
  "value_ok (VInteger i) = integer_ok i"
  "value_ok (VList xs) = list_all value_ok xs"
  "value_ok (VObject os) = list_all (\<lambda>p. value_ok (snd p)) os"
  by (subst value_ok.simps; simp)+

lemma integer_tokens_decode:
  "integer_ok a \<Longrightarrow> integer_ok b \<Longrightarrow> integer_tokens a @ xs = integer_tokens b @ ys \<longleftrightarrow> a = b \<and> xs = ys"
  by (cases a; cases b) auto

lemma integer_tokens_other: "integer_tokens j @ us \<noteq> TDisc 2 # zs" "TDisc 2 # zs \<noteq> integer_tokens j @ us"
  by (cases j; simp)+

lemma exact_ok: "as_integer_exact f = Some i \<Longrightarrow> integer_ok i"
  by (rule as_integer_exact_value(2))

text \<open>The kinds of values that grouping can confuse, and the first token that tells them apart.\<close>

fun kind_of :: "(f64, 'd, 'x, 'v) variable_value \<Rightarrow> nat" where
  "kind_of (VElement e) = 1"
| "kind_of (VInteger i) = 2"
| "kind_of (VFloat f) = 2"
| "kind_of (VList xs) = 3"
| "kind_of (VObject xs) = 4"
| "kind_of _ = 0"

fun token_kind :: "('d, 'x, 'v) token \<Rightarrow> nat" where
  "token_kind (TRef r) = 1"
| "token_kind (TDisc n) = (if n \<le> 3 then 2 else if n = 5 then 3 else 4)"
| "token_kind _ = 0"

lemma plain_kind: "plain v \<longleftrightarrow> kind_of v = 0"
  by (cases v) auto

lemma kind_cases:
  "kind_of v = 1 \<Longrightarrow> \<exists>e. v = VElement e"
  "kind_of v = 2 \<Longrightarrow> (\<exists>i. v = VInteger i) \<or> (\<exists>f. v = VFloat f)"
  "kind_of v = 3 \<Longrightarrow> \<exists>xs. v = VList xs"
  "kind_of v = 4 \<Longrightarrow> \<exists>xs. v = VObject xs"
  "kind_of v \<in> {0, 1, 2, 3, 4}"
  by (cases v; simp)+

lemma hash_first: "\<exists>t ts. hash_for_groupby v = t # ts \<and> token_kind t = kind_of v"
proof (cases "plain v")
  case True
  then show ?thesis by (simp add: hash_simps plain_kind)
next
  case False
  have i: "\<exists>t ts. integer_tokens i = t # ts \<and> token_kind t = 2" for i
    by (cases i) auto
  from False show ?thesis using i by (cases v) (auto simp: hash_simps split: option.split)
qed

lemma hash_kind: "hash_for_groupby v @ xs = hash_for_groupby w @ ys \<Longrightarrow> kind_of v = kind_of w"
  using hash_first [of v] hash_first [of w] by auto

lemma eq_kind: "eq_for_groupby v w \<Longrightarrow> kind_of v = kind_of w"
  by (cases "plain v") (simp add: eq_simps, cases v, auto simp: eq_simps split: variable_value.splits)

lemma number_decode:
  assumes "value_ok v" "value_ok w" "kind_of v = 2" "kind_of w = 2"
  shows "hash_for_groupby v @ xs = hash_for_groupby w @ ys \<longleftrightarrow> eq_for_groupby v w \<and> xs = ys"
proof -
  from kind_cases(2) [OF assms(3)] kind_cases(2) [OF assms(4)] show ?thesis
    using assms(1,2) exact_ok
    by (elim disjE exE)
      (auto simp: hash_simps eq_simps ok_simps float_eq_iff integer_tokens_decode integer_tokens_other
        split: option.split)
qed

lemma concat_decode:
  assumes "\<And>a b xs ys. a \<in> set as \<Longrightarrow> P a \<Longrightarrow> P b \<Longrightarrow> h a @ xs = h b @ ys \<longleftrightarrow> R a b \<and> xs = ys"
    and "length as = length bs" "list_all P as" "list_all P bs"
  shows "concat (map h as) @ xs = concat (map h bs) @ ys \<longleftrightarrow> list_all2 R as bs \<and> xs = ys"
  using assms(2,1,3,4)
proof (induction as bs rule: list_induct2)
  case (Cons a as b bs)
  have "concat (map h (a # as)) @ xs = concat (map h (b # bs)) @ ys \<longleftrightarrow>
      R a b \<and> concat (map h as) @ xs = concat (map h bs) @ ys"
    using Cons.prems by simp
  with Cons show ?case by simp
qed simp

lemma decode_same_kind:
  fixes v w :: "(f64, 'd, 'x, 'v) variable_value"
  assumes IH: "\<And>(a :: (f64, 'd, 'x, 'v) variable_value) b us zs. size a < size v \<Longrightarrow> value_ok a \<Longrightarrow> value_ok b \<Longrightarrow>
      hash_for_groupby a @ us = hash_for_groupby b @ zs \<longleftrightarrow> eq_for_groupby a b \<and> us = zs"
    and ok: "value_ok v" "value_ok w" and k: "kind_of v = kind_of w"
  shows "hash_for_groupby v @ xs = hash_for_groupby w @ ys \<longleftrightarrow> eq_for_groupby v w \<and> xs = ys"
proof -
  consider "plain v" "plain w" | e e' where "v = VElement e" "w = VElement e'" | "kind_of v = 2" "kind_of w = 2"
    | as bs where "v = VList as" "w = VList bs" | os ps where "v = VObject os" "w = VObject ps"
    using kind_cases [of v] kind_cases [of w] k plain_kind [of v] plain_kind [of w] by auto
  then show ?thesis
  proof cases
    case 1
    then show ?thesis by (simp add: hash_simps eq_simps)
  next
    case 2
    then show ?thesis by (simp add: hash_simps eq_simps)
  next
    case 3
    then show ?thesis by (rule number_decode [OF ok])
  next
    case (4 as bs)
    have "hash_for_groupby a @ us = hash_for_groupby b @ zs \<longleftrightarrow> eq_for_groupby a b \<and> us = zs"
      if "a \<in> set as" "value_ok a" "value_ok b" for a b us zs
    proof -
      have "size a < size v" using size_list_mem [of a as size] that(1) by (simp add: 4)
      from IH [OF this that(2,3)] show ?thesis .
    qed
    then have "length as = length bs \<Longrightarrow> concat (map hash_for_groupby as) @ xs = concat (map hash_for_groupby bs) @ ys \<longleftrightarrow>
        list_all2 eq_for_groupby as bs \<and> xs = ys"
      using ok by (intro concat_decode [where P = value_ok]) (auto simp: ok_simps 4)
    then show ?thesis by (auto simp: hash_simps eq_simps 4 list_all2_lengthD)
  next
    case (5 os ps)
    let ?h = "\<lambda>p. TStr (fst p) # hash_for_groupby (snd p)"
    have "?h a @ us = ?h b @ zs \<longleftrightarrow> (fst a = fst b \<and> eq_for_groupby (snd a) (snd b)) \<and> us = zs"
      if "a \<in> set os" "value_ok (snd a)" "value_ok (snd b)" for a b us zs
    proof -
      have "size (snd a) < size v" using size_object_mem [of "fst a" "snd a" os] that(1) by (simp add: 5)
      from IH [OF this that(2,3)] show ?thesis by auto
    qed
    then have "length os = length ps \<Longrightarrow> concat (map ?h os) @ xs = concat (map ?h ps) @ ys \<longleftrightarrow>
        list_all2 (\<lambda>p q. fst p = fst q \<and> eq_for_groupby (snd p) (snd q)) os ps \<and> xs = ys"
      using ok by (intro concat_decode [where P = "\<lambda>p. value_ok (snd p)"]) (auto simp: ok_simps 5)
    then show ?thesis by (auto simp: hash_simps eq_simps 5 list_all2_lengthD)
  qed
qed

lemma decode:
  "value_ok v \<Longrightarrow> value_ok w \<Longrightarrow> hash_for_groupby v @ xs = hash_for_groupby w @ ys \<longleftrightarrow> eq_for_groupby v w \<and> xs = ys"
proof (induction v arbitrary: w xs ys rule: measure_induct_rule [of size])
  case (less v)
  show ?case
  proof (cases "kind_of v = kind_of w")
    case True
    show ?thesis by (rule decode_same_kind [OF less.IH less.prems True])
  next
    case False
    then show ?thesis using hash_kind [of v xs w ys] eq_kind [of v w] by auto
  qed
qed

text \<open>
  C33. The grouping identity and its hash. Two values belong to the same group exactly when the
  hasher is fed the same sequence for them: equal group keys always land in the same entry of
  an index, and only equal ones feed the hasher alike. The identity is therefore an equivalence,
  unlike ordinary equality, also across integers and floats and for values that are not numbers.
\<close>

theorem groupby_hash_decides:
  assumes "value_ok u" "value_ok v" "value_ok w"
  shows "(eq_for_groupby v w \<longleftrightarrow> hash_for_groupby v = hash_for_groupby w) \<and>
    eq_for_groupby v v \<and> (eq_for_groupby v w \<longleftrightarrow> eq_for_groupby w v) \<and>
    (eq_for_groupby u v \<and> eq_for_groupby v w \<longrightarrow> eq_for_groupby u w)"
proof -
  have "eq_for_groupby a b \<longleftrightarrow> hash_for_groupby a = hash_for_groupby b" if "value_ok a" "value_ok b" for a b
    using decode [OF that, of "[]" "[]"] by simp
  with assms show ?thesis by auto
qed

theorem groupby_hash_decides_witness:
  "eq_for_groupby (VList [VFloat (Fin 2), VFloat (NaN 7)] :: (f64, unit, unit, unit) variable_value)
     (VList [VInteger (PosInt 2), VFloat (NaN 7)])"
    (is "eq_for_groupby ?v ?w")
proof -
  have ok: "value_ok ?v" "value_ok ?w"
    by (simp_all add: ok_simps value_ok.simps [of "VFloat _"])
  have "hash_for_groupby ?v = hash_for_groupby ?w"
    by (simp add: hash_simps as_integer_exact_def from_unsigned_def frac_def)
  with groupby_hash_decides [OF ok(2) ok(1) ok(2)] show ?thesis by simp
qed

end
