(* ===== verification/Aggregation.thy ===== *)
theory Aggregation
  imports Result_Index Evaluation_Context Values "HOL-Library.Multiset"
begin

text \<open>
  The aggregating functions of \<^verbatim>\<open>src/core/src/evaluation/functions/aggregation\<close> (\<open>count\<close>,
  \<open>sum\<close>, \<open>avg\<close>, \<open>min\<close>, \<open>max\<close>) and the evaluation of a call of one of them in
  \<^verbatim>\<open>src/core/src/evaluation/expressions/mod.rs\<close>.

  The arithmetic of doubles and the calendar (crate \<^verbatim>\<open>chrono\<close>) are the fields of \<open>agg_env\<close>.
  The keys of a sorted set are finite doubles compared as numbers, hence rationals; the two
  zeros are one key.
\<close>

subsection \<open>Numbers\<close>

text \<open>\<open>x as i64\<close>: towards zero, saturating, and zero for what is not a number.\<close>

definition saturate_i64 :: "int \<Rightarrow> int" where
  "saturate_i64 k = max (- (2 ^ 63)) (min (2 ^ 63 - 1) k)"

fun f64_to_i64 :: "f64 \<Rightarrow> int" where
  "f64_to_i64 (Fin q) = saturate_i64 (if 0 \<le> q then \<lfloor>q\<rfloor> else \<lceil>q\<rceil>)"
| "f64_to_i64 NegZero = 0"
| "f64_to_i64 (Inf b) = (if b then - (2 ^ 63) else 2 ^ 63 - 1)"
| "f64_to_i64 (NaN _) = 0"

text \<open>Negation; the sign of a zero is not tracked here.\<close>

fun f64_neg :: "f64 \<Rightarrow> f64" where
  "f64_neg (Fin q) = Fin (- q)"
| "f64_neg NegZero = Fin 0"
| "f64_neg (Inf b) = Inf (\<not> b)"
| "f64_neg (NaN w) = NaN w"

text \<open>The key of a double; only finite doubles are inserted into a set.\<close>

definition f64_key :: "f64 \<Rightarrow> rat" where
  "f64_key x = (case f64_value x of Some q \<Rightarrow> q | None \<Rightarrow> 0)"

record ('d, 'i) agg_env =
  f64_of_int :: "int \<Rightarrow> f64"
  f64_add :: "f64 \<Rightarrow> f64 \<Rightarrow> f64"
  f64_sub :: "f64 \<Rightarrow> f64 \<Rightarrow> f64"
  f64_div :: "f64 \<Rightarrow> f64 \<Rightarrow> f64"
  zoned_datetime_millis :: "'d \<Rightarrow> int"
  zoned_datetime_of_millis :: "int \<Rightarrow> 'd"
  duration_millis :: "'d \<Rightarrow> int"
  duration_of_millis :: "int \<Rightarrow> 'd"
  date_days :: "'d \<Rightarrow> int"
  date_of_days :: "int \<Rightarrow> 'd"
  local_time_millis :: "'d \<Rightarrow> int"
  local_time_of_millis :: "int \<Rightarrow> 'd"
  local_datetime_millis :: "'d \<Rightarrow> int"
  local_datetime_of_millis :: "int \<Rightarrow> 'd"
  zoned_time_instant :: "'d \<Rightarrow> 'i option"
  midnight_instant :: "'i option"
  instant_millis :: "'i \<Rightarrow> int"
  instant_add :: "'i \<Rightarrow> int \<Rightarrow> 'i"
  zoned_time_of_instant :: "'i \<Rightarrow> 'd"

subsection \<open>Accumulators and errors\<close>

datatype 'a value_accumulator =
    SumAcc f64
  | AvgAcc f64 "64 word"
  | CountAcc "64 word"
  | TimeMarker u64
  | SignatureAcc u64
  | LinearGradientAcc "64 word" f64 f64 f64 f64
  | ElementValueAcc 'a
  | MapAcc "'a property_map"

datatype 'a accumulator = ValueAccumulator "'a value_accumulator" | LazyAccumulator "rat lazy_sorted_set"

datatype 'e fn_error =
    InvalidArgument nat
  | InvalidArgumentCount
  | FnIndexError 'e
  | FnOverflow
  | FnCorruptData
  | InvalidFormat

type_synonym ('d, 'x, 'v) agg_value = "(f64, 'd, 'x, 'v) variable_value"
type_synonym ('s, 'e, 'd, 'x, 'v, 'a) agg_step =
  "('d, 'x, 'v) agg_value list \<Rightarrow> 'a accumulator \<Rightarrow> ('s, string \<times> 'e fn_error, ('d, 'x, 'v) agg_value \<times> 'a accumulator) action"

record ('s, 'e, 'd, 'x, 'v, 'a) aggregating_function =
  initialize_accumulator :: "nat \<Rightarrow> ('d, 'x, 'v) agg_value list \<Rightarrow> 'a accumulator"
  accumulator_is_lazy :: bool
  fn_apply :: "('s, 'e, 'd, 'x, 'v, 'a) agg_step"
  fn_revert :: "('s, 'e, 'd, 'x, 'v, 'a) agg_step"
  fn_snapshot :: "('d, 'x, 'v) agg_value list \<Rightarrow> 'a accumulator \<Rightarrow> ('s, string \<times> 'e fn_error, ('d, 'x, 'v) agg_value) action"

subsection \<open>Minimum and maximum\<close>

text \<open>The number that stands for an argument; \<open>None\<close> for a null, which is not counted.\<close>

fun extremum_number :: "('d, 'i) agg_env \<Rightarrow> ('d, 'x, 'v) agg_value \<Rightarrow> 'e fn_error + f64 option" where
  "extremum_number env (VFloat n) = (case float_as_f64 n of Some f \<Rightarrow> Inr (Some f) | None \<Rightarrow> Inl FnOverflow)"
| "extremum_number env (VInteger n) =
     (case as_i64 n of Some i \<Rightarrow> Inr (Some (f64_of_int env (sint i))) | None \<Rightarrow> Inl FnOverflow)"
| "extremum_number env (VZonedDateTime t) = Inr (Some (f64_of_int env (zoned_datetime_millis env t)))"
| "extremum_number env (VDuration t) = Inr (Some (f64_of_int env (duration_millis env t)))"
| "extremum_number env (VDate t) = Inr (Some (f64_of_int env (date_days env t)))"
| "extremum_number env (VLocalTime t) = Inr (Some (f64_of_int env (local_time_millis env t)))"
| "extremum_number env (VLocalDateTime t) = Inr (Some (f64_of_int env (local_datetime_millis env t)))"
| "extremum_number env (VZonedTime t) =
     (case zoned_time_instant env t of
        Some i \<Rightarrow> Inr (Some (f64_of_int env (instant_millis env i)))
      | None \<Rightarrow> Inl InvalidFormat)"
| "extremum_number env VNull = Inr None"
| "extremum_number env _ = Inl (InvalidArgument 0)"

text \<open>The value reported for the head of the set, in the type of the argument.\<close>

fun min_value :: "('d, 'i) agg_env \<Rightarrow> ('d, 'x, 'v) agg_value \<Rightarrow> f64 \<Rightarrow> 'e fn_error + ('d, 'x, 'v) agg_value" where
  "min_value env (VFloat _) head = (case float_from_f64 head of Some f \<Rightarrow> Inr (VFloat f) | None \<Rightarrow> Inl FnOverflow)"
| "min_value env (VInteger _) head = (case float_from_f64 head of Some f \<Rightarrow> Inr (VFloat f) | None \<Rightarrow> Inl FnOverflow)"
| "min_value env (VZonedDateTime _) head = Inr (VZonedDateTime (zoned_datetime_of_millis env (f64_to_i64 head)))"
| "min_value env (VDuration _) head = Inr (VDuration (duration_of_millis env (f64_to_i64 head)))"
| "min_value env (VDate _) head = Inr (VDate (date_of_days env (f64_to_i64 head)))"
| "min_value env (VLocalTime _) head = Inr (VLocalTime (local_time_of_millis env (f64_to_i64 head)))"
| "min_value env (VLocalDateTime _) head = Inr (VLocalDateTime (local_datetime_of_millis env (f64_to_i64 head)))"
| "min_value env (VZonedTime t) head =
     (case zoned_time_instant env t of
        Some i \<Rightarrow> Inr (VZonedTime (zoned_time_of_instant env (instant_add env i (f64_to_i64 head))))
      | None \<Rightarrow> Inl InvalidFormat)"
| "min_value env _ head = Inl (InvalidArgument 0)"

fun max_value :: "('d, 'i) agg_env \<Rightarrow> ('d, 'x, 'v) agg_value \<Rightarrow> f64 \<Rightarrow> 'e fn_error + ('d, 'x, 'v) agg_value" where
  "max_value env (VFloat _) head =
     (case float_from_f64 (f64_neg head) of Some f \<Rightarrow> Inr (VFloat f) | None \<Rightarrow> Inl FnCorruptData)"
| "max_value env (VInteger _) head =
     (case float_from_f64 (f64_neg head) of Some f \<Rightarrow> Inr (VFloat f) | None \<Rightarrow> Inl FnCorruptData)"
| "max_value env (VZonedDateTime _) head =
     Inr (VZonedDateTime (zoned_datetime_of_millis env (f64_to_i64 (f64_neg head))))"
| "max_value env (VDuration _) head = Inr (VDuration (duration_of_millis env (f64_to_i64 (f64_neg head))))"
| "max_value env (VDate _) head = Inr (VDate (date_of_days env (f64_to_i64 (f64_neg head))))"
| "max_value env (VLocalTime _) head = Inr (VLocalTime (local_time_of_millis env (f64_to_i64 (f64_neg head))))"
| "max_value env (VLocalDateTime _) head =
     Inr (VLocalDateTime (local_datetime_of_millis env (f64_to_i64 head * - 1)))"
| "max_value env (VZonedTime t) head =
     (case zoned_time_instant env t of
        Some i \<Rightarrow> Inr (VZonedTime (zoned_time_of_instant env (instant_add env i (f64_to_i64 (f64_neg head)))))
      | None \<Rightarrow> Inl InvalidFormat)"
| "max_value env _ head = Inl (InvalidArgument 0)"

text \<open>\<open>snapshot\<close> reports an integer as an integer and a zoned time from midnight.\<close>

fun extremum_snapshot_value :: "('d, 'i) agg_env \<Rightarrow> ('d, 'x, 'v) agg_value \<Rightarrow> f64 \<Rightarrow> 'e fn_error + ('d, 'x, 'v) agg_value" where
  "extremum_snapshot_value env (VFloat _) x = (case float_from_f64 x of Some f \<Rightarrow> Inr (VFloat f) | None \<Rightarrow> Inl FnOverflow)"
| "extremum_snapshot_value env (VInteger _) x = Inr (VInteger (from_signed (of_int (f64_to_i64 x))))"
| "extremum_snapshot_value env (VZonedDateTime _) x = Inr (VZonedDateTime (zoned_datetime_of_millis env (f64_to_i64 x)))"
| "extremum_snapshot_value env (VDuration _) x = Inr (VDuration (duration_of_millis env (f64_to_i64 x)))"
| "extremum_snapshot_value env (VDate _) x = Inr (VDate (date_of_days env (f64_to_i64 x)))"
| "extremum_snapshot_value env (VLocalTime _) x = Inr (VLocalTime (local_time_of_millis env (f64_to_i64 x)))"
| "extremum_snapshot_value env (VLocalDateTime _) x = Inr (VLocalDateTime (local_datetime_of_millis env (f64_to_i64 x)))"
| "extremum_snapshot_value env (VZonedTime _) x =
     (case midnight_instant env of
        Some i \<Rightarrow> Inr (VZonedTime (zoned_time_of_instant env (instant_add env i (f64_to_i64 x))))
      | None \<Rightarrow> Inl InvalidFormat)"
| "extremum_snapshot_value env VNull x = Inr VNull"
| "extremum_snapshot_value env _ x = Inl (InvalidArgument 0)"

definition act_result :: "string \<Rightarrow> 'g + 'a \<Rightarrow> ('s, string \<times> 'g, 'a) action" where
  "act_result name r = (case r of Inr x \<Rightarrow> act_return x | Inl e \<Rightarrow> act_fail (name, e))"

text \<open>
  \<open>apply\<close> and \<open>revert\<close> of both functions: they differ in \<open>change\<close>, which inserts or removes,
  in the sign of the key and in the value reported.
\<close>

definition extremum_change ::
    "string \<Rightarrow> (rat \<Rightarrow> rat lazy_sorted_set \<Rightarrow> 's \<Rightarrow> rat lazy_sorted_set \<times> 's) \<Rightarrow> (f64 \<Rightarrow> f64) \<Rightarrow>
     (('d, 'x, 'v) agg_value \<Rightarrow> f64 \<Rightarrow> 'e fn_error + ('d, 'x, 'v) agg_value) \<Rightarrow>
     ('d, 'i) agg_env \<Rightarrow> ('s, 'e, rat) set_store \<Rightarrow> ('s, 'e, 'd, 'x, 'v, 'a) agg_step" where
  "extremum_change name change sign report env store args acc =
     (case args of
        [arg] \<Rightarrow>
          (case acc of
             LazyAccumulator l \<Rightarrow>
               (case extremum_number env arg of
                  Inl e \<Rightarrow> act_fail (name, e)
                | Inr None \<Rightarrow> act_return (VNull, acc)
                | Inr (Some x) \<Rightarrow> (\<lambda>s.
                    let (l', t) = change (f64_key (sign x)) l s
                    in act_bind (act_map_err (\<lambda>e. (name, FnIndexError e)) (get_head store l'))
                         (\<lambda>h. case h of
                            Some k \<Rightarrow> act_bind (act_result name (report arg (Fin k))) (\<lambda>v. act_return (v, LazyAccumulator l'))
                          | None \<Rightarrow> act_return (VNull, LazyAccumulator l')) t))
           | _ \<Rightarrow> act_fail (name, FnCorruptData))
      | _ \<Rightarrow> act_fail (name, InvalidArgumentCount))"

definition extremum_snapshot ::
    "string \<Rightarrow> (f64 \<Rightarrow> f64) \<Rightarrow> ('d, 'i) agg_env \<Rightarrow> ('s, 'e, rat) set_store \<Rightarrow>
     ('d, 'x, 'v) agg_value list \<Rightarrow> 'a accumulator \<Rightarrow> ('s, string \<times> 'e fn_error, ('d, 'x, 'v) agg_value) action" where
  "extremum_snapshot name sign env store args acc =
     (case args of
        [arg] \<Rightarrow>
          (case acc of
             LazyAccumulator l \<Rightarrow>
               act_bind (act_map_err (\<lambda>e. (name, FnIndexError e)) (get_head store l))
                 (\<lambda>h. case h of
                    Some k \<Rightarrow> act_result name (extremum_snapshot_value env arg (sign (Fin k)))
                  | None \<Rightarrow> act_return VNull)
           | _ \<Rightarrow> act_fail (name, FnCorruptData))
      | _ \<Rightarrow> act_fail (name, InvalidArgumentCount))"

definition min_apply :: "('d, 'i) agg_env \<Rightarrow> ('s, 'e, rat) set_store \<Rightarrow> ('s, 'e, 'd, 'x, 'v, 'a) agg_step" where
  "min_apply env store = extremum_change ''Min'' (lss_insert store) (\<lambda>x. x) (min_value env) env store"

definition min_revert :: "('d, 'i) agg_env \<Rightarrow> ('s, 'e, rat) set_store \<Rightarrow> ('s, 'e, 'd, 'x, 'v, 'a) agg_step" where
  "min_revert env store = extremum_change ''Min'' (lss_remove store) (\<lambda>x. x) (min_value env) env store"

definition max_apply :: "('d, 'i) agg_env \<Rightarrow> ('s, 'e, rat) set_store \<Rightarrow> ('s, 'e, 'd, 'x, 'v, 'a) agg_step" where
  "max_apply env store = extremum_change ''Max'' (lss_insert store) f64_neg (max_value env) env store"

definition max_revert :: "('d, 'i) agg_env \<Rightarrow> ('s, 'e, rat) set_store \<Rightarrow> ('s, 'e, 'd, 'x, 'v, 'a) agg_step" where
  "max_revert env store = extremum_change ''Max'' (lss_remove store) f64_neg (max_value env) env store"

definition min_snapshot ::
    "('d, 'i) agg_env \<Rightarrow> ('s, 'e, rat) set_store \<Rightarrow>
     ('d, 'x, 'v) agg_value list \<Rightarrow> 'a accumulator \<Rightarrow> ('s, string \<times> 'e fn_error, ('d, 'x, 'v) agg_value) action" where
  "min_snapshot env store = extremum_snapshot ''Min'' (\<lambda>x. x) env store"

definition max_snapshot ::
    "('d, 'i) agg_env \<Rightarrow> ('s, 'e, rat) set_store \<Rightarrow>
     ('d, 'x, 'v) agg_value list \<Rightarrow> 'a accumulator \<Rightarrow> ('s, string \<times> 'e fn_error, ('d, 'x, 'v) agg_value) action" where
  "max_snapshot env store = extremum_snapshot ''Max'' f64_neg env store"

text \<open>The set of a call is identified by a hash of its position in the query and its group.\<close>

definition Min_function ::
    "(nat \<Rightarrow> ('d, 'x, 'v) agg_value list \<Rightarrow> u64) \<Rightarrow> ('d, 'i) agg_env \<Rightarrow> ('s, 'e, rat) set_store \<Rightarrow>
     ('s, 'e, 'd, 'x, 'v, 'a) aggregating_function" where
  "Min_function set_hash env store =
     \<lparr>initialize_accumulator = (\<lambda>pos keys. LazyAccumulator (new_lazy_sorted_set (set_hash pos keys))),
      accumulator_is_lazy = True, fn_apply = min_apply env store, fn_revert = min_revert env store,
      fn_snapshot = min_snapshot env store\<rparr>"

definition Max_function ::
    "(nat \<Rightarrow> ('d, 'x, 'v) agg_value list \<Rightarrow> u64) \<Rightarrow> ('d, 'i) agg_env \<Rightarrow> ('s, 'e, rat) set_store \<Rightarrow>
     ('s, 'e, 'd, 'x, 'v, 'a) aggregating_function" where
  "Max_function set_hash env store =
     \<lparr>initialize_accumulator = (\<lambda>pos keys. LazyAccumulator (new_lazy_sorted_set (set_hash pos keys))),
      accumulator_is_lazy = True, fn_apply = max_apply env store, fn_revert = max_revert env store,
      fn_snapshot = max_snapshot env store\<rparr>"

subsection \<open>Count\<close>

text \<open>\<open>apply\<close> adds \<open>1\<close> and \<open>revert\<close> \<open>-1\<close>, modulo \<open>2\<^sup>64\<close>.\<close>

definition count_change :: "64 word \<Rightarrow> ('s, 'e, 'd, 'x, 'v, 'a) agg_step" where
  "count_change d args acc =
     (case args of
        [arg] \<Rightarrow>
          (case acc of
             ValueAccumulator (CountAcc n) \<Rightarrow>
               if arg = VNull then act_return (VInteger (from_signed n), acc)
               else act_return (VInteger (from_signed (n + d)), ValueAccumulator (CountAcc (n + d)))
           | _ \<Rightarrow> act_fail (''Count'', FnCorruptData))
      | _ \<Rightarrow> act_fail (''Count'', InvalidArgumentCount))"

definition count_apply :: "('s, 'e, 'd, 'x, 'v, 'a) agg_step" where
  "count_apply = count_change 1"

definition count_revert :: "('s, 'e, 'd, 'x, 'v, 'a) agg_step" where
  "count_revert = count_change (- 1)"

definition count_snapshot ::
    "('d, 'x, 'v) agg_value list \<Rightarrow> 'a accumulator \<Rightarrow> ('s, string \<times> 'e fn_error, ('d, 'x, 'v) agg_value) action" where
  "count_snapshot args acc =
     (case acc of
        ValueAccumulator (CountAcc n) \<Rightarrow> act_return (VInteger (from_signed n))
      | _ \<Rightarrow> act_fail (''Count'', FnCorruptData))"

definition Count_function :: "('s, 'e, 'd, 'x, 'v, 'a) aggregating_function" where
  "Count_function =
     \<lparr>initialize_accumulator = (\<lambda>pos keys. ValueAccumulator (CountAcc 0)), accumulator_is_lazy = False,
      fn_apply = count_apply, fn_revert = count_revert, fn_snapshot = count_snapshot\<rparr>"

subsection \<open>Sum\<close>

definition float_result :: "string \<Rightarrow> f64 \<Rightarrow> ('s, string \<times> 'e fn_error, ('d, 'x, 'v) agg_value) action" where
  "float_result name x =
     (case float_from_f64 x of Some f \<Rightarrow> act_return (VFloat f) | None \<Rightarrow> act_fail (name, FnOverflow))"

text \<open>\<open>combine\<close> is the addition in \<open>apply\<close> and the subtraction in \<open>revert\<close>.\<close>

definition sum_change ::
    "(f64 \<Rightarrow> f64 \<Rightarrow> f64) \<Rightarrow> ('d, 'i) agg_env \<Rightarrow> ('s, 'e, 'd, 'x, 'v, 'a) agg_step" where
  "sum_change combine env args acc =
     (case args of
        [arg] \<Rightarrow>
          (case acc of
             ValueAccumulator (SumAcc x) \<Rightarrow>
               (case arg of
                  VFloat n \<Rightarrow>
                    (case float_as_f64 n of
                       Some f \<Rightarrow> act_bind (float_result ''Sum'' (combine x f))
                         (\<lambda>v. act_return (v, ValueAccumulator (SumAcc (combine x f))))
                     | None \<Rightarrow> act_fail (''Sum'', FnOverflow))
                | VInteger n \<Rightarrow>
                    (case as_i64 n of
                       Some i \<Rightarrow> act_bind (float_result ''Sum'' (combine x (f64_of_int env (sint i))))
                         (\<lambda>v. act_return (v, ValueAccumulator (SumAcc (combine x (f64_of_int env (sint i))))))
                     | None \<Rightarrow> act_fail (''Sum'', FnOverflow))
                | VDuration d \<Rightarrow>
                    (let y = combine x (f64_of_int env (duration_millis env d)) in
                     act_return (VDuration (duration_of_millis env (f64_to_i64 y)), ValueAccumulator (SumAcc y)))
                | VNull \<Rightarrow> act_bind (float_result ''Sum'' x) (\<lambda>v. act_return (v, acc))
                | _ \<Rightarrow> act_fail (''Sum'', InvalidArgument 0))
           | _ \<Rightarrow> act_fail (''Sum'', FnCorruptData))
      | _ \<Rightarrow> act_fail (''Sum'', InvalidArgumentCount))"

definition sum_apply :: "('d, 'i) agg_env \<Rightarrow> ('s, 'e, 'd, 'x, 'v, 'a) agg_step" where
  "sum_apply env = sum_change (f64_add env) env"

definition sum_revert :: "('d, 'i) agg_env \<Rightarrow> ('s, 'e, 'd, 'x, 'v, 'a) agg_step" where
  "sum_revert env = sum_change (f64_sub env) env"

definition sum_snapshot ::
    "('d, 'i) agg_env \<Rightarrow> ('d, 'x, 'v) agg_value list \<Rightarrow> 'a accumulator \<Rightarrow>
     ('s, string \<times> 'e fn_error, ('d, 'x, 'v) agg_value) action" where
  "sum_snapshot env args acc =
     (case args of
        [arg] \<Rightarrow>
          (case acc of
             ValueAccumulator (SumAcc x) \<Rightarrow>
               (case arg of
                  VFloat _ \<Rightarrow> float_result ''Sum'' x
                | VInteger _ \<Rightarrow> float_result ''Sum'' x
                | VDuration _ \<Rightarrow> act_return (VDuration (duration_of_millis env (f64_to_i64 x)))
                | VNull \<Rightarrow> float_result ''Sum'' x
                | _ \<Rightarrow> act_fail (''Sum'', InvalidArgument 0))
           | _ \<Rightarrow> act_fail (''Sum'', FnCorruptData))
      | _ \<Rightarrow> act_fail (''Sum'', InvalidArgumentCount))"

definition Sum_function :: "('d, 'i) agg_env \<Rightarrow> ('s, 'e, 'd, 'x, 'v, 'a) aggregating_function" where
  "Sum_function env =
     \<lparr>initialize_accumulator = (\<lambda>pos keys. ValueAccumulator (SumAcc (Fin 0))), accumulator_is_lazy = False,
      fn_apply = sum_apply env, fn_revert = sum_revert env, fn_snapshot = sum_snapshot env\<rparr>"

subsection \<open>Average\<close>

definition float_or_default :: "f64 \<Rightarrow> ('d, 'x, 'v) agg_value" where
  "float_or_default x = VFloat (case float_from_f64 x of Some f \<Rightarrow> f | None \<Rightarrow> Fin 0)"

definition avg_of :: "('d, 'i) agg_env \<Rightarrow> f64 \<Rightarrow> 64 word \<Rightarrow> f64" where
  "avg_of env sm n = f64_div env sm (f64_of_int env (sint n))"

text \<open>
  \<open>revert\<close> reports the float zero once nothing is left, also for durations; neither function
  guards the division for a null argument.
\<close>

definition avg_change ::
    "bool \<Rightarrow> ('d, 'i) agg_env \<Rightarrow> ('s, 'e, 'd, 'x, 'v, 'a) agg_step" where
  "avg_change reverting env args acc =
     (case args of
        [arg] \<Rightarrow>
          (case acc of
             ValueAccumulator (AvgAcc sm n) \<Rightarrow>
               (let n' = (if reverting then n - 1 else n + 1);
                    combine = (if reverting then f64_sub env else f64_add env);
                    acc' = (\<lambda>x. ValueAccumulator (AvgAcc (combine sm x) n'));
                    report = (\<lambda>x v. if reverting \<and> n' = 0 then VFloat (Fin 0) else v (avg_of env (combine sm x) n'))
                in case arg of
                     VFloat f \<Rightarrow>
                       (case float_as_f64 f of
                          Some x \<Rightarrow> act_return (report x float_or_default, acc' x)
                        | None \<Rightarrow> act_fail (''Avg'', FnOverflow))
                   | VInteger i \<Rightarrow>
                       (case as_i64 i of
                          Some k \<Rightarrow>
                            act_return (report (f64_of_int env (sint k)) float_or_default, acc' (f64_of_int env (sint k)))
                        | None \<Rightarrow> act_fail (''Avg'', FnOverflow))
                   | VDuration d \<Rightarrow>
                       (let x = f64_of_int env (duration_millis env d) in
                        act_return (report x (\<lambda>a. VDuration (duration_of_millis env (f64_to_i64 a))), acc' x))
                   | VNull \<Rightarrow> act_return (float_or_default (avg_of env sm n), acc)
                   | _ \<Rightarrow> act_fail (''Avg'', InvalidArgument 0))
           | _ \<Rightarrow> act_fail (''Avg'', FnCorruptData))
      | _ \<Rightarrow> act_fail (''Avg'', InvalidArgumentCount))"

definition avg_apply :: "('d, 'i) agg_env \<Rightarrow> ('s, 'e, 'd, 'x, 'v, 'a) agg_step" where
  "avg_apply = avg_change False"

definition avg_revert :: "('d, 'i) agg_env \<Rightarrow> ('s, 'e, 'd, 'x, 'v, 'a) agg_step" where
  "avg_revert = avg_change True"

definition avg_snapshot ::
    "('d, 'i) agg_env \<Rightarrow> ('d, 'x, 'v) agg_value list \<Rightarrow> 'a accumulator \<Rightarrow>
     ('s, string \<times> 'e fn_error, ('d, 'x, 'v) agg_value) action" where
  "avg_snapshot env args acc =
     (case args of
        [arg] \<Rightarrow>
          (case acc of
             ValueAccumulator (AvgAcc sm n) \<Rightarrow>
               if n = 0 then act_return (VFloat (Fin 0))
               else
                 (case arg of
                    VFloat _ \<Rightarrow> act_return (float_or_default (avg_of env sm n))
                  | VInteger _ \<Rightarrow> act_return (float_or_default (avg_of env sm n))
                  | VDuration _ \<Rightarrow> act_return (VDuration (duration_of_millis env (f64_to_i64 (avg_of env sm n))))
                  | _ \<Rightarrow> act_fail (''Avg'', InvalidArgument 0))
           | _ \<Rightarrow> act_fail (''Avg'', FnCorruptData))
      | _ \<Rightarrow> act_fail (''Avg'', InvalidArgumentCount))"

definition Avg_function :: "('d, 'i) agg_env \<Rightarrow> ('s, 'e, 'd, 'x, 'v, 'a) aggregating_function" where
  "Avg_function env =
     \<lparr>initialize_accumulator = (\<lambda>pos keys. ValueAccumulator (AvgAcc (Fin 0) 0)), accumulator_is_lazy = False,
      fn_apply = avg_apply env, fn_revert = avg_revert env, fn_snapshot = avg_snapshot env\<rparr>"

subsection \<open>A call of an aggregating function\<close>

datatype 'e agg_error = AggIndex 'e | AggFunction string "'e fn_error"

record ('s, 'e, 'd, 'x, 'v, 'a) accumulator_ops =
  acc_get :: "('d, 'x, 'v) agg_value result_key \<Rightarrow> result_owner \<Rightarrow> ('s, 'e, 'a value_accumulator option) action"
  acc_set :: "('d, 'x, 'v) agg_value result_key \<Rightarrow> result_owner \<Rightarrow> 'a value_accumulator option \<Rightarrow> ('s, 'e, unit) action"
  acc_sets :: "('s, 'e, rat) set_store"

text \<open>The arguments and the grouping values have been evaluated before.\<close>

definition load_accumulator ::
    "('s, 'e, 'd, 'x, 'v, 'a) accumulator_ops \<Rightarrow> ('s, 'e, 'd, 'x, 'v, 'a) aggregating_function \<Rightarrow> nat \<Rightarrow>
     ('d, 'x, 'v) agg_value list \<Rightarrow> ('s, 'e, 'a accumulator) action" where
  "load_accumulator ops fn pos keys =
     (if accumulator_is_lazy fn then act_return (initialize_accumulator fn pos keys)
      else act_bind (acc_get ops (GroupKey keys) (FunctionOwner pos))
        (\<lambda>r. act_return (case r of Some a \<Rightarrow> ValueAccumulator a | None \<Rightarrow> initialize_accumulator fn pos keys)))"

definition run_aggregate ::
    "('s, 'e, 'd, 'x, 'v, 'a) aggregating_function \<Rightarrow> side_effects \<Rightarrow> ('s, 'e, 'd, 'x, 'v, 'a) agg_step" where
  "run_aggregate fn side args acc =
     (case side of
        Apply \<Rightarrow> fn_apply fn args acc
      | RevertForUpdate \<Rightarrow> fn_revert fn args acc
      | RevertForDelete \<Rightarrow> fn_revert fn args acc
      | Snapshot \<Rightarrow> act_bind (fn_snapshot fn args acc) (\<lambda>v. act_return (v, acc)))"

definition store_accumulator ::
    "('s, 'e, 'd, 'x, 'v, 'a) accumulator_ops \<Rightarrow> nat \<Rightarrow> ('d, 'x, 'v) agg_value list \<Rightarrow> 'a accumulator \<Rightarrow>
     ('s, 'e, unit) action" where
  "store_accumulator ops pos keys acc =
     (case acc of
        ValueAccumulator a \<Rightarrow> acc_set ops (GroupKey keys) (FunctionOwner pos) (Some a)
      | LazyAccumulator l \<Rightarrow> act_bind (lss_commit (acc_sets ops) l) (\<lambda>_. act_return ()))"

definition evaluate_aggregate ::
    "('s, 'e, 'd, 'x, 'v, 'a) accumulator_ops \<Rightarrow> ('s, 'e, 'd, 'x, 'v, 'a) aggregating_function \<Rightarrow> nat \<Rightarrow>
     ('d, 'x, 'v) agg_value list \<Rightarrow> side_effects \<Rightarrow> ('d, 'x, 'v) agg_value list \<Rightarrow>
     ('s, 'e agg_error, ('d, 'x, 'v) agg_value) action" where
  "evaluate_aggregate ops fn pos keys side args =
     act_bind (act_map_err AggIndex (load_accumulator ops fn pos keys))
       (\<lambda>acc. act_bind (act_map_err (\<lambda>(name, e). AggFunction name e) (run_aggregate fn side args acc))
          (\<lambda>(v, acc'). act_bind (act_map_err AggIndex (store_accumulator ops pos keys acc'))
             (\<lambda>_. act_return v)))"

text \<open>The in-memory result index as the store of accumulators.\<close>

definition memory_accumulators ::
    "('d, 'x, 'v) agg_value key_hash \<Rightarrow>
     ((rat, 'a value_accumulator) result_index, index_error, 'd, 'x, 'v, 'a) accumulator_ops" where
  "memory_accumulators get_hash_key =
     \<lparr>acc_get = ri_get get_hash_key, acc_set = ri_set get_hash_key, acc_sets = memory_store\<rparr>"

subsection \<open>One call over any store of sets\<close>

lemma f64_key_simps [simp]: "f64_key (Fin q) = q" "f64_key (f64_neg (Fin q)) = - q"
  by (simp_all add: f64_key_def)

definition min_report :: "rat set \<Rightarrow> ('d, 'x, 'v) agg_value" where
  "min_report S = (if S = {} then VNull else VFloat (Fin (Min S)))"

definition max_report :: "rat set \<Rightarrow> ('d, 'x, 'v) agg_value" where
  "max_report S = (if S = {} then VNull else VFloat (Fin (Max S)))"

definition side_delta :: "side_effects \<Rightarrow> int" where
  "side_delta side = (if side = Apply then 1 else - 1)"

lemmas act_defs = act_bind_def act_return_def act_fail_def act_map_err_def act_result_def

lemma evaluate_lazy:
  assumes "accumulator_is_lazy fn" "initialize_accumulator fn pos keys = LazyAccumulator l"
    "run_aggregate fn side args (LazyAccumulator l) s = (Inr (v, LazyAccumulator l'), s')"
    "lss_commit (acc_sets ops) l' s' = (Inr l'', t)"
  shows "evaluate_aggregate ops fn pos keys side args s = (Inr v, t)"
  using assms by (simp add: evaluate_aggregate_def load_accumulator_def store_accumulator_def act_defs)

text \<open>The two functions as one change of the set, by the side effect asked for.\<close>

lemma run_aggregate_min:
  "side \<noteq> Snapshot \<Longrightarrow> run_aggregate (Min_function set_hash env store) side =
     extremum_change ''Min'' (lss_change store (side_delta side)) (\<lambda>x. x) (min_value env) env store"
  by (cases side) (simp_all add: run_aggregate_def Min_function_def min_apply_def min_revert_def
      side_delta_def lss_insert_def lss_remove_def fun_eq_iff)

lemma run_aggregate_max:
  "side \<noteq> Snapshot \<Longrightarrow> run_aggregate (Max_function set_hash env store) side =
     extremum_change ''Max'' (lss_change store (side_delta side)) f64_neg (max_value env) env store"
  by (cases side) (simp_all add: run_aggregate_def Max_function_def max_apply_def max_revert_def
      side_delta_def lss_insert_def lss_remove_def fun_eq_iff)

lemma side_delta_nonzero: "side_delta side \<noteq> 0"
  by (simp add: side_delta_def)

locale rational_sets = sorted_set_store store inv cnt
  for store :: "('s, 'e, rat) set_store" and inv :: "'s \<Rightarrow> bool" and cnt :: "'s \<Rightarrow> u64 \<Rightarrow> rat \<Rightarrow> nat"
begin

lemma extremum_change_float:
  assumes "inv s" "0 \<le> int (cnt s i (f64_key (sign (Fin q)))) + d" "d \<noteq> 0"
  shows "extremum_change name (lss_change store d) sign report env store [VFloat (Fin q)]
      (LazyAccumulator (new_lazy_sorted_set i)) s =
    (case least_above None {w. 0 < change_count d (f64_key (sign (Fin q))) (cnt s i) w} of
       Some h \<Rightarrow>
         (map_sum (\<lambda>e. (name, e)) (\<lambda>v. (v, LazyAccumulator \<lparr>lss_set_id = i,
            change_log = [(f64_key (sign (Fin q)), int (cnt s i (f64_key (sign (Fin q)))), d)]\<rparr>))
            (report (VFloat (Fin q)) (Fin h)), s)
     | None \<Rightarrow> (Inr (VNull, LazyAccumulator \<lparr>lss_set_id = i,
            change_log = [(f64_key (sign (Fin q)), int (cnt s i (f64_key (sign (Fin q)))), d)]\<rparr>), s))"
  using lss_change_new [OF assms(1)] get_head_one [OF assms]
  by (simp add: extremum_change_def float_as_f64_def act_defs split: option.split sum.split)

lemma evaluate_min:
  assumes inv: "inv s" and pos: "0 \<le> int (cnt s (set_hash p keys) q) + side_delta side"
    and side: "side \<noteq> Snapshot" and ops: "acc_sets ops = store"
  shows "\<exists>t. evaluate_aggregate ops (Min_function set_hash env store) p keys side [VFloat (Fin q)] s =
      (Inr (min_report {w. 0 < change_count (side_delta side) q (cnt s (set_hash p keys)) w}), t) \<and>
      inv t \<and> cnt t = (cnt s)(set_hash p keys := change_count (side_delta side) q (cnt s (set_hash p keys)))"
proof -
  let ?i = "set_hash p keys" and ?d = "side_delta side"
  obtain t where t: "lss_commit store \<lparr>lss_set_id = ?i, change_log = [(q, int (cnt s ?i q), ?d)]\<rparr> s =
      (Inr (new_lazy_sorted_set ?i), t)" "inv t" "cnt t = (cnt s)(?i := change_count ?d q (cnt s ?i))"
    using lss_commit_one [OF inv pos] by blast
  have "evaluate_aggregate ops (Min_function set_hash env store) p keys side [VFloat (Fin q)] s =
      (Inr (min_report {w. 0 < change_count ?d q (cnt s ?i) w}), t)"
    by (rule evaluate_lazy [where l = "new_lazy_sorted_set ?i" and s' = s
            and l' = "\<lparr>lss_set_id = ?i, change_log = [(q, int (cnt s ?i q), ?d)]\<rparr>"])
       (simp_all add: Min_function_def run_aggregate_min [OF side, unfolded Min_function_def]
          extremum_change_float inv pos side_delta_nonzero least_above_None
          min_report_def float_from_f64_def ops t(1))
  with t show ?thesis by blast
qed

lemma evaluate_max:
  assumes inv: "inv s" and pos: "0 \<le> int (cnt s (set_hash p keys) (- q)) + side_delta side"
    and side: "side \<noteq> Snapshot" and ops: "acc_sets ops = store"
  shows "\<exists>t. evaluate_aggregate ops (Max_function set_hash env store) p keys side [VFloat (Fin q)] s =
      (Inr (max_report (uminus ` {w. 0 < change_count (side_delta side) (- q) (cnt s (set_hash p keys)) w})), t) \<and>
      inv t \<and> cnt t = (cnt s)(set_hash p keys := change_count (side_delta side) (- q) (cnt s (set_hash p keys)))"
proof -
  let ?i = "set_hash p keys" and ?d = "side_delta side"
  let ?S = "{w. 0 < change_count ?d (- q) (cnt s ?i) w}"
  obtain t where t: "lss_commit store \<lparr>lss_set_id = ?i, change_log = [(- q, int (cnt s ?i (- q)), ?d)]\<rparr> s =
      (Inr (new_lazy_sorted_set ?i), t)" "inv t" "cnt t = (cnt s)(?i := change_count ?d (- q) (cnt s ?i))"
    using lss_commit_one [OF inv pos] by blast
  have fin: "finite ?S" using finite_support [OF t(2), of ?i] by (simp add: t(3))
  have "evaluate_aggregate ops (Max_function set_hash env store) p keys side [VFloat (Fin q)] s =
      (Inr (max_report (uminus ` ?S)), t)"
    by (rule evaluate_lazy [where l = "new_lazy_sorted_set ?i" and s' = s
            and l' = "\<lparr>lss_set_id = ?i, change_log = [(- q, int (cnt s ?i (- q)), ?d)]\<rparr>"])
       (simp_all add: Max_function_def run_aggregate_max [OF side, unfolded Max_function_def]
          extremum_change_float inv pos side_delta_nonzero least_above_None
          max_report_def float_from_f64_def ops t(1) minus_Min_eq_Max [OF fin, symmetric])
  with t show ?thesis by blast
qed

lemma snapshot_min:
  assumes "inv s" "acc_sets ops = store"
  shows "evaluate_aggregate ops (Min_function set_hash env store) p keys Snapshot [VFloat f] s =
    (Inr (min_report {w. 0 < cnt s (set_hash p keys) w}), s)"
  by (rule evaluate_lazy [where l = "new_lazy_sorted_set (set_hash p keys)" and s' = s
        and l' = "new_lazy_sorted_set (set_hash p keys)"])
     (simp_all add: Min_function_def run_aggregate_def min_snapshot_def extremum_snapshot_def
        get_head_new [OF assms(1)] act_defs least_above_None min_report_def float_from_f64_def assms(2) lss_commit_new)

lemma snapshot_max:
  assumes "inv s" "acc_sets ops = store"
  shows "evaluate_aggregate ops (Max_function set_hash env store) p keys Snapshot [VFloat f] s =
    (Inr (max_report (uminus ` {w. 0 < cnt s (set_hash p keys) w})), s)"
  by (rule evaluate_lazy [where l = "new_lazy_sorted_set (set_hash p keys)" and s' = s
        and l' = "new_lazy_sorted_set (set_hash p keys)"])
     (simp_all add: Max_function_def run_aggregate_def max_snapshot_def extremum_snapshot_def
        get_head_new [OF assms(1)] act_defs least_above_None max_report_def float_from_f64_def assms(2) lss_commit_new
        minus_Min_eq_Max [OF finite_support [OF assms(1)], symmetric])

end

interpretation memory_rationals: rational_sets "memory_store :: ((rat, 'a) result_index, index_error, rat) set_store"
  sets_ok set_counts ..

subsection \<open>Histories of a group\<close>

datatype 'a group_change = Added 'a | Removed 'a

text \<open>The values left in a group; \<open>None\<close> when a value is removed that is not there.\<close>

fun group_values :: "'a multiset \<Rightarrow> 'a group_change list \<Rightarrow> 'a multiset option" where
  "group_values M [] = Some M"
| "group_values M (Added q # cs) = group_values (add_mset q M) cs"
| "group_values M (Removed q # cs) = (if q \<in># M then group_values (M - {#q#}) cs else None)"

fun group_step ::
    "('s, 'e, 'd, 'x, 'v, 'a) accumulator_ops \<Rightarrow> ('s, 'e, 'd, 'x, 'v, 'a) aggregating_function \<Rightarrow> nat \<Rightarrow>
     ('d, 'x, 'v) agg_value list \<Rightarrow> rat group_change \<Rightarrow> ('s, 'e agg_error, ('d, 'x, 'v) agg_value) action" where
  "group_step ops fn p keys (Added q) = evaluate_aggregate ops fn p keys Apply [VFloat (Fin q)]"
| "group_step ops fn p keys (Removed q) = evaluate_aggregate ops fn p keys RevertForUpdate [VFloat (Fin q)]"

primrec change_value :: "'a group_change \<Rightarrow> 'a" where
  "change_value (Added q) = q"
| "change_value (Removed q) = q"

primrec change_side :: "'a group_change \<Rightarrow> side_effects" where
  "change_side (Added q) = Apply"
| "change_side (Removed q) = RevertForUpdate"

lemma group_step_eq:
  "group_step ops fn p keys c = evaluate_aggregate ops fn p keys (change_side c) [VFloat (Fin (change_value c))]"
  by (cases c) simp_all

lemma change_side_not_snapshot: "change_side c \<noteq> Snapshot"
  by (cases c) simp_all

definition group_run ::
    "('s, 'e, 'd, 'x, 'v, 'a) accumulator_ops \<Rightarrow> ('s, 'e, 'd, 'x, 'v, 'a) aggregating_function \<Rightarrow> nat \<Rightarrow>
     ('d, 'x, 'v) agg_value list \<Rightarrow> rat group_change list \<Rightarrow> ('s, 'e agg_error, ('d, 'x, 'v) agg_value) action" where
  "group_run ops fn p keys = act_foldl (\<lambda>_. group_step ops fn p keys) VNull"

lemma group_run_induct:
  assumes step: "\<And>s M c N. P s M \<Longrightarrow> group_values M [c] = Some N \<Longrightarrow>
        \<exists>t. group_step ops fn p keys c s = (Inr (report N), t) \<and> P t N"
    and "P s M" "group_values M cs = Some N" "cs \<noteq> []"
  shows "\<exists>t. group_run ops fn p keys cs s = (Inr (report N), t) \<and> P t N"
proof -
  have "\<exists>t. act_foldl (\<lambda>_. group_step ops fn p keys) v cs s = (Inr (if cs = [] then v else report N), t) \<and> P t N"
    if "P s M" "group_values M cs = Some N" for v
    using that
  proof (induction cs arbitrary: s M v)
    case (Cons c cs)
    from Cons.prems(2) obtain L where L: "group_values M [c] = Some L" "group_values L cs = Some N"
      by (cases c) (auto split: if_splits)
    from step [OF Cons.prems(1) L(1)] obtain t where
      t: "group_step ops fn p keys c s = (Inr (report L), t)" "P t L" by blast
    with Cons.IH [OF t(2) L(2), of "report L"] L(2) show ?case by (cases cs) auto
  qed (simp add: act_return_def)
  from this [OF assms(2,3)] assms(4) show ?thesis by (simp add: group_run_def)
qed

text \<open>The three functions on the in-memory index, one step of a history.\<close>

definition sets_hold :: "(rat \<Rightarrow> rat) \<Rightarrow> u64 \<Rightarrow> (rat, 'a) result_index \<Rightarrow> rat multiset \<Rightarrow> bool" where
  "sets_hold g i s M \<longleftrightarrow> sets_ok s \<and> set_counts s i = (\<lambda>k. count M (g k))"

lemma change_count_mset:
  assumes "\<And>k. g (g k) = k"
  shows "change_count 1 (g q) (\<lambda>k. count M (g k)) = (\<lambda>k. count (add_mset q M) (g k))"
    and "change_count (- 1) (g q) (\<lambda>k. count M (g k)) = (\<lambda>k. count (M - {#q#}) (g k))"
  using assms by (auto simp: change_count_def fun_eq_iff nat_diff_distrib)

lemma mset_support: "{w. 0 < count M w} = set_mset M"
  by auto

lemma mset_support_uminus: "uminus ` {w :: rat. - w \<in># M} = set_mset M"
  by (auto simp: image_iff) (metis add.inverse_inverse)

lemma group_step_min:
  assumes "sets_hold (\<lambda>k. k) (set_hash p keys) s M" "group_values M [c] = Some N"
  shows "\<exists>t. group_step (memory_accumulators h) (Min_function set_hash env memory_store) p keys c s =
        (Inr (min_report (set_mset N)), t) \<and> sets_hold (\<lambda>k. k) (set_hash p keys) t N"
proof -
  have N: "change_count (side_delta (change_side c)) (change_value c) (count M) = count N"
    using assms(2) change_count_mset [of "\<lambda>k. k" "change_value c" M]
    by (cases c) (auto simp: side_delta_def split: if_splits)
  have "0 \<le> int (count M (change_value c)) + side_delta (change_side c)"
    using assms(2) by (cases c) (auto simp: side_delta_def Suc_leI split: if_splits)
  moreover have "sets_ok s" "set_counts s (set_hash p keys) = count M" "change_side c \<noteq> Snapshot"
    using assms(1) by (simp_all add: sets_hold_def change_side_not_snapshot)
  ultimately show ?thesis
    using memory_rationals.evaluate_min [of s set_hash p keys "change_value c" "change_side c" "memory_accumulators h" env]
    by (auto simp: group_step_eq memory_accumulators_def N mset_support sets_hold_def)
qed

lemma group_step_max:
  assumes "sets_hold uminus (set_hash p keys) s M" "group_values M [c] = Some N"
  shows "\<exists>t. group_step (memory_accumulators h) (Max_function set_hash env memory_store) p keys c s =
        (Inr (max_report (set_mset N)), t) \<and> sets_hold uminus (set_hash p keys) t N"
proof -
  have N: "change_count (side_delta (change_side c)) (- (change_value c)) (\<lambda>k. count M (- k)) = (\<lambda>k. count N (- k))"
    using assms(2) change_count_mset [of uminus "change_value c" M]
    by (cases c) (auto simp: side_delta_def split: if_splits)
  have "0 \<le> int (count M (- (- (change_value c)))) + side_delta (change_side c)"
    using assms(2) by (cases c) (auto simp: side_delta_def Suc_leI split: if_splits)
  moreover have "sets_ok s" "set_counts s (set_hash p keys) = (\<lambda>k. count M (- k))" "change_side c \<noteq> Snapshot"
    using assms(1) by (simp_all add: sets_hold_def change_side_not_snapshot)
  ultimately show ?thesis
    using memory_rationals.evaluate_max [of s set_hash p keys "change_value c" "change_side c" "memory_accumulators h" env]
    by (auto simp: group_step_eq memory_accumulators_def N mset_support_uminus sets_hold_def)
qed

definition count_holds :: "u64 \<Rightarrow> (rat, 'a value_accumulator) result_index \<Rightarrow> rat multiset \<Rightarrow> bool" where
  "count_holds k s M \<longleftrightarrow>
     (case ri_values s k of Some a \<Rightarrow> a = CountAcc (of_nat (size M)) | None \<Rightarrow> M = {#})"

lemma word_of_nat_pred: "q \<in># M \<Longrightarrow> (of_nat (size M - Suc 0) :: 64 word) = of_nat (size M) - 1"
  by (cases "size M") auto

lemma group_step_count:
  assumes "count_holds (h (FunctionOwner p) (GroupKey keys)) s M" "group_values M [c] = Some N"
  shows "\<exists>t. group_step (memory_accumulators h) Count_function p keys c s =
        (Inr (VInteger (from_signed (of_nat (size N)))), t) \<and>
      count_holds (h (FunctionOwner p) (GroupKey keys)) t N"
proof -
  have "of_nat (size N) = (of_nat (size M) + (case c of Added _ \<Rightarrow> 1 | Removed _ \<Rightarrow> - 1) :: 64 word)"
    using assms(2) by (cases c) (auto simp: size_Diff_singleton word_of_nat_pred split: if_splits)
  with assms(1) show ?thesis
    by (cases c) (auto simp: count_holds_def memory_accumulators_def evaluate_aggregate_def load_accumulator_def
        Count_function_def run_aggregate_def count_apply_def count_revert_def count_change_def store_accumulator_def
        ri_get_def ri_set_def act_defs split: option.splits)
qed

lemma sets_hold_empty: "sets_hold g i new_result_index {#}"
  by (simp add: sets_hold_def sets_ok_def set_counts_def new_result_index_def fun_eq_iff)

lemma group_run_min:
  assumes "group_values {#} cs = Some M" "cs \<noteq> []"
  shows "\<exists>t. group_run (memory_accumulators h) (Min_function set_hash env memory_store) p keys cs new_result_index =
      (Inr (min_report (set_mset M)), t) \<and> sets_hold (\<lambda>k. k) (set_hash p keys) t M"
  by (rule group_run_induct [where report = "\<lambda>M. min_report (set_mset M)"
        and P = "sets_hold (\<lambda>k. k) (set_hash p keys)", OF _ sets_hold_empty assms])
     (rule group_step_min)

lemma group_run_max:
  assumes "group_values {#} cs = Some M" "cs \<noteq> []"
  shows "\<exists>t. group_run (memory_accumulators h) (Max_function set_hash env memory_store) p keys cs new_result_index =
      (Inr (max_report (set_mset M)), t) \<and> sets_hold uminus (set_hash p keys) t M"
  by (rule group_run_induct [where report = "\<lambda>M. max_report (set_mset M)"
        and P = "sets_hold uminus (set_hash p keys)", OF _ sets_hold_empty assms])
     (rule group_step_max)

lemma group_run_count:
  assumes "group_values {#} cs = Some M" "cs \<noteq> []"
  shows "\<exists>t. group_run (memory_accumulators h) Count_function p keys cs new_result_index =
      (Inr (VInteger (from_signed (of_nat (size M)))), t) \<and> count_holds (h (FunctionOwner p) (GroupKey keys)) t M"
proof -
  have "count_holds k new_result_index {#}" for k by (simp add: count_holds_def new_result_index_def)
  then show ?thesis
    by (rule group_run_induct [where report = "\<lambda>M. VInteger (from_signed (of_nat (size M)))", OF _ _ assms, rotated])
       (rule group_step_count)
qed


text \<open>A calendar for concrete evaluation: times are milliseconds after midnight, or since the epoch.\<close>

definition plain_env :: "(int, int) agg_env" where
  "plain_env =
     \<lparr>f64_of_int = (\<lambda>k. Fin (of_int k)), f64_add = (\<lambda>x y. Fin (f64_key x + f64_key y)),
      f64_sub = (\<lambda>x y. Fin (f64_key x - f64_key y)), f64_div = (\<lambda>x y. Fin (f64_key x / f64_key y)),
      zoned_datetime_millis = (\<lambda>k. k), zoned_datetime_of_millis = (\<lambda>k. k),
      duration_millis = (\<lambda>k. k), duration_of_millis = (\<lambda>k. k), date_days = (\<lambda>k. k), date_of_days = (\<lambda>k. k),
      local_time_millis = (\<lambda>k. k), local_time_of_millis = (\<lambda>k. k mod 86400000),
      local_datetime_millis = (\<lambda>k. k), local_datetime_of_millis = (\<lambda>k. k),
      zoned_time_instant = Some, midnight_instant = Some 0, instant_millis = (\<lambda>k. k),
      instant_add = (+), zoned_time_of_instant = (\<lambda>k. k mod 86400000)\<rparr>"




end
