(* ===== verification/Session.thy ===== *)
theory Session
  imports Prelude
begin

text \<open>
  Session-scoped transactions, \<^verbatim>\<open>src/core/src/interface/session_control.rs\<close>: the trait a
  backend implements, the implementation of the in-memory backends, and the guard that rolls
  back unless it was committed. The state \<open>'s\<close> is everything the backend stores; a panic is
  an error value, as unwinding drops the guard like an early return does.
\<close>

record ('s, 'e) session_ops =
  op_begin :: "('s, 'e, unit) action"
  op_commit :: "('s, 'e, unit) action"
  op_rollback :: "('s, 'e, unit) action"

definition NoOpSessionControl :: "('s, 'e) session_ops" where
  "NoOpSessionControl =
     \<lparr>op_begin = act_return (), op_commit = act_return (), op_rollback = act_return ()\<rparr>"

text \<open>
  The life of a guard: \<open>begin\<close>, the body between, \<open>commit\<close>, and \<open>drop\<close>. A failed begin
  creates no guard. A failed body or a failed commit drops the guard uncommitted, which rolls
  back; an error of the rollback is only logged.
\<close>

definition session_drop :: "('s, 'e) session_ops \<Rightarrow> 's \<Rightarrow> 's" where
  "session_drop ses s = snd (op_rollback ses s)"

definition session_guard ::
    "('e \<Rightarrow> 'g) \<Rightarrow> ('s, 'e) session_ops \<Rightarrow> ('s, 'g, 'a) action \<Rightarrow> ('s, 'g, 'a) action" where
  "session_guard conv ses body s =
     (case op_begin ses s of
        (Inl e, s1) \<Rightarrow> (Inl (conv e), s1)
      | (Inr _, s1) \<Rightarrow>
          (case body s1 of
             (Inl g, s2) \<Rightarrow> (Inl g, session_drop ses s2)
           | (Inr x, s2) \<Rightarrow>
               (case op_commit ses s2 of
                  (Inl e, s3) \<Rightarrow> (Inl (conv e), session_drop ses s3)
                | (Inr _, s3) \<Rightarrow> (Inr x, s3))))"

text \<open>The outcome of a guarded body, case by case.\<close>

lemma session_guard_Inr:
  assumes "session_guard conv ses body s = (Inr x, t)"
  obtains s1 s2 u v where "op_begin ses s = (Inr u, s1)" "body s1 = (Inr x, s2)" "op_commit ses s2 = (Inr v, t)"
  using assms by (auto simp: session_guard_def split: prod.splits sum.splits)

lemma session_guard_Inl:
  assumes "session_guard conv ses body s = (Inl g, t)"
  obtains (not_begun) e where "op_begin ses s = (Inl e, t)" "g = conv e"
    | (body) u s1 s2 where "op_begin ses s = (Inr u, s1)" "body s1 = (Inl g, s2)" "t = session_drop ses s2"
    | (commit) u x s1 s2 e s3 where "op_begin ses s = (Inr u, s1)" "body s1 = (Inr x, s2)"
        "op_commit ses s2 = (Inl e, s3)" "g = conv e" "t = session_drop ses s3"
  using assms by (auto simp: session_guard_def split: prod.splits sum.splits)

text \<open>
  What a transactional backend promises: \<open>durable s\<close> is what would survive a crash. Beginning
  and rolling back do not change it, and neither does a commit that reports an error.
\<close>

locale transactional_backend =
  fixes ses :: "('s, 'e) session_ops" and durable :: "'s \<Rightarrow> 'c"
  assumes begin_durable: "durable (snd (op_begin ses s)) = durable s"
    and rollback_durable: "durable (snd (op_rollback ses s)) = durable s"
    and failed_commit_durable: "op_commit ses s = (Inl e, t) \<Longrightarrow> durable t = durable s"
begin

lemma drop_durable: "durable (session_drop ses s) = durable s"
  by (simp add: session_drop_def rollback_durable)

text \<open>A body that writes only to the session leaves nothing behind when anything fails.\<close>

lemma guard_error_atomic:
  assumes body: "\<And>c. act_keeps (\<lambda>s. durable s = c) body"
    and run: "session_guard conv ses body s = (Inl g, t)"
  shows "durable t = durable s"
  using run
proof (cases rule: session_guard_Inl)
  case (not_begun e)
  with begin_durable [of s] show ?thesis by simp
next
  case (body u s1 s2)
  have "durable s1 = durable s" using begin_durable [of s] body(1) by simp
  moreover have "durable s2 = durable s1"
    using assms(1) [THEN act_keepsD, of s1 "durable s1"] body(2) by simp
  ultimately show ?thesis by (simp add: body(3) drop_durable)
next
  case (commit u x s1 s2 e s3)
  have "durable s1 = durable s" using begin_durable [of s] commit(1) by simp
  moreover have "durable s2 = durable s1"
    using assms(1) [THEN act_keepsD, of s1 "durable s1"] commit(2) by simp
  moreover have "durable s3 = durable s2" by (rule failed_commit_durable [OF commit(3)])
  ultimately show ?thesis by (simp add: commit(5) drop_durable)
qed

end

end
