(* ===== verification/Garnet_Session.thy ===== *)
theory Garnet_Session
  imports Session
begin

text \<open>
  The session of the Garnet backend,
  \<^verbatim>\<open>src/components/indexes/garnet/src/session_state.rs\<close>: the write buffer that collects
  the writes of a session, its drain into one atomic pipeline, the nesting counter, and the
  buffered set operations of
  \<^verbatim>\<open>src/components/indexes/garnet/src/element_index.rs\<close>.

  The server is a parameter (record \<open>redis_ops\<close>); what the code relies on is the locale
  \<open>redis_service\<close>: the documented effect of the commands and of an atomic pipeline. Scores
  are of a parameter type \<open>'f\<close>. The mutex around the session is held for each operation on
  the buffer and the query's change lock serializes the operations, so each is one step.
\<close>

subsection \<open>The write buffer\<close>

datatype 'a buffer_read_result = Found 'a | KeyDeleted | NotInBuffer

datatype 'f key_state =
    Deleted
  | StringValue bytes
  | HashState "string \<rightharpoonup> bytes option"
  | SetState "bytes set" "bytes set"
  | SortedSetState "bytes \<rightharpoonup> 'f" "bytes set"

record 'f write_buffer =
  buf_keys :: "string \<rightharpoonup> 'f key_state"
  cleared_keys :: "string set"

record set_deltas =
  deltas_added :: "bytes set"
  deltas_removed :: "bytes set"
  deltas_full_replace :: bool

record 'f sorted_set_deltas =
  zdeltas_added :: "bytes \<rightharpoonup> 'f"
  zdeltas_removed :: "bytes set"
  zdeltas_full_replace :: bool

definition new_buffer :: "'f write_buffer" where
  "new_buffer = \<lparr>buf_keys = Map.empty, cleared_keys = {}\<rparr>"

definition put_key :: "string \<Rightarrow> 'f key_state \<Rightarrow> 'f write_buffer \<Rightarrow> 'f write_buffer" where
  "put_key k st b = b\<lparr>buf_keys := (buf_keys b)(k \<mapsto> st)\<rparr>"

definition string_set :: "string \<Rightarrow> bytes \<Rightarrow> 'f write_buffer \<Rightarrow> 'f write_buffer" where
  "string_set k v b = put_key k (StringValue v) b"

definition string_get :: "'f write_buffer \<Rightarrow> string \<Rightarrow> bytes buffer_read_result" where
  "string_get b k =
     (case buf_keys b k of
        Some (StringValue v) \<Rightarrow> Found v
      | Some Deleted \<Rightarrow> KeyDeleted
      | _ \<Rightarrow> NotInBuffer)"

definition hash_set :: "string \<Rightarrow> string \<Rightarrow> bytes \<Rightarrow> 'f write_buffer \<Rightarrow> 'f write_buffer" where
  "hash_set k f v b =
     (case buf_keys b k of
        Some (HashState fs) \<Rightarrow> put_key k (HashState (fs(f \<mapsto> Some v))) b
      | _ \<Rightarrow> put_key k (HashState [f \<mapsto> Some v]) b)"

definition hash_get :: "'f write_buffer \<Rightarrow> string \<Rightarrow> string \<Rightarrow> bytes buffer_read_result" where
  "hash_get b k f =
     (case buf_keys b k of
        Some (HashState fs) \<Rightarrow>
          (case fs f of
             Some (Some v) \<Rightarrow> Found v
           | Some None \<Rightarrow> KeyDeleted
           | None \<Rightarrow> if k \<in> cleared_keys b then KeyDeleted else NotInBuffer)
      | Some Deleted \<Rightarrow> KeyDeleted
      | _ \<Rightarrow> NotInBuffer)"

definition hash_del :: "string \<Rightarrow> string \<Rightarrow> 'f write_buffer \<Rightarrow> 'f write_buffer" where
  "hash_del k f b =
     (case buf_keys b k of
        Some (HashState fs) \<Rightarrow> put_key k (HashState (fs(f \<mapsto> None))) b
      | _ \<Rightarrow> put_key k (HashState [f \<mapsto> None]) b)"

definition set_add :: "string \<Rightarrow> bytes \<Rightarrow> 'f write_buffer \<Rightarrow> 'f write_buffer" where
  "set_add k m b =
     (case buf_keys b k of
        Some (SetState added removed) \<Rightarrow> put_key k (SetState (insert m added) (removed - {m})) b
      | _ \<Rightarrow> put_key k (SetState {m} {}) b)"

definition set_remove :: "string \<Rightarrow> bytes \<Rightarrow> 'f write_buffer \<Rightarrow> 'f write_buffer" where
  "set_remove k m b =
     (case buf_keys b k of
        Some (SetState added removed) \<Rightarrow>
          if m \<in> added then put_key k (SetState (added - {m}) removed) b
          else put_key k (SetState added (insert m removed)) b
      | Some Deleted \<Rightarrow> b
      | _ \<Rightarrow> put_key k (SetState {} {m}) b)"

definition set_is_member :: "'f write_buffer \<Rightarrow> string \<Rightarrow> bytes \<Rightarrow> bool buffer_read_result" where
  "set_is_member b k m =
     (case buf_keys b k of
        Some (SetState added removed) \<Rightarrow>
          if m \<in> added then Found True
          else if m \<in> removed then Found False
          else if k \<in> cleared_keys b then Found False
          else NotInBuffer
      | Some Deleted \<Rightarrow> KeyDeleted
      | _ \<Rightarrow> NotInBuffer)"

definition set_get_deltas :: "'f write_buffer \<Rightarrow> string \<Rightarrow> set_deltas buffer_read_result" where
  "set_get_deltas b k =
     (case buf_keys b k of
        Some (SetState added removed) \<Rightarrow>
          Found \<lparr>deltas_added = added, deltas_removed = removed, deltas_full_replace = (k \<in> cleared_keys b)\<rparr>
      | Some Deleted \<Rightarrow> KeyDeleted
      | _ \<Rightarrow> NotInBuffer)"

definition zset_add :: "string \<Rightarrow> bytes \<Rightarrow> 'f \<Rightarrow> 'f write_buffer \<Rightarrow> 'f write_buffer" where
  "zset_add k m score b =
     (case buf_keys b k of
        Some (SortedSetState added removed) \<Rightarrow>
          put_key k (SortedSetState (added(m \<mapsto> score)) (removed - {m})) b
      | _ \<Rightarrow> put_key k (SortedSetState [m \<mapsto> score] {}) b)"

definition zset_remove :: "string \<Rightarrow> bytes \<Rightarrow> 'f write_buffer \<Rightarrow> 'f write_buffer" where
  "zset_remove k m b =
     (case buf_keys b k of
        Some (SortedSetState added removed) \<Rightarrow>
          if added m = None then put_key k (SortedSetState added (insert m removed)) b
          else put_key k (SortedSetState (added(m := None)) removed) b
      | Some Deleted \<Rightarrow> b
      | _ \<Rightarrow> put_key k (SortedSetState Map.empty {m}) b)"

definition zset_get_deltas :: "'f write_buffer \<Rightarrow> string \<Rightarrow> 'f sorted_set_deltas buffer_read_result" where
  "zset_get_deltas b k =
     (case buf_keys b k of
        Some (SortedSetState added removed) \<Rightarrow>
          Found \<lparr>zdeltas_added = added, zdeltas_removed = removed,
                 zdeltas_full_replace = (k \<in> cleared_keys b)\<rparr>
      | Some Deleted \<Rightarrow> KeyDeleted
      | _ \<Rightarrow> NotInBuffer)"

definition del_key :: "string \<Rightarrow> 'f write_buffer \<Rightarrow> 'f write_buffer" where
  "del_key k b = put_key k Deleted (b\<lparr>cleared_keys := insert k (cleared_keys b)\<rparr>)"

definition is_deleted :: "'f write_buffer \<Rightarrow> string \<Rightarrow> bool" where
  "is_deleted b k \<longleftrightarrow> (case buf_keys b k of Some Deleted \<Rightarrow> True | _ \<Rightarrow> False)"

subsection \<open>Draining into a pipeline\<close>

datatype 'f redis_command =
    DEL string
  | SET string bytes
  | HSET string "(string \<times> bytes) list"
  | HDEL string "string list"
  | SREM string "bytes list"
  | SADD string "bytes list"
  | ZREM string "bytes list"
  | ZADD string "('f \<times> bytes) list"

record buffer_iters =
  string_iter :: "string iter"
  member_iter :: "bytes iter"

definition unless_empty :: "'a list \<Rightarrow> 'c \<Rightarrow> 'c list" where
  "unless_empty xs c = (if xs = [] then [] else [c])"

fun drain_key :: "buffer_iters \<Rightarrow> bool \<Rightarrow> string \<Rightarrow> 'f key_state \<Rightarrow> 'f redis_command list" where
  "drain_key it cleared k Deleted = [DEL k]"
| "drain_key it cleared k (StringValue v) = [SET k v]"
| "drain_key it cleared k (HashState fs) =
     (let order = string_iter it (dom fs);
          sets = List.map_filter (\<lambda>f. case fs f of Some (Some v) \<Rightarrow> Some (f, v) | _ \<Rightarrow> None) order;
          dels = filter (\<lambda>f. fs f = Some None) order
      in (if cleared then [DEL k] else []) @ unless_empty sets (HSET k sets) @ unless_empty dels (HDEL k dels))"
| "drain_key it cleared k (SetState added removed) =
     (if cleared then [DEL k]
      else unless_empty (member_iter it removed) (SREM k (member_iter it removed))) @
     unless_empty (member_iter it added) (SADD k (member_iter it added))"
| "drain_key it cleared k (SortedSetState added removed) =
     (if cleared then [DEL k]
      else unless_empty (member_iter it removed) (ZREM k (member_iter it removed))) @
     (let adds = map (\<lambda>m. (the (added m), m)) (member_iter it (dom added))
      in unless_empty adds (ZADD k adds))"

definition drain_into_pipeline :: "buffer_iters \<Rightarrow> 'f write_buffer \<Rightarrow> 'f redis_command list" where
  "drain_into_pipeline it b =
     concat (map (\<lambda>k. drain_key it (k \<in> cleared_keys b) k (the (buf_keys b k)))
       (string_iter it (dom (buf_keys b))))"

subsection \<open>The server\<close>

datatype 'f redis_value =
    RString bytes
  | RHash "string \<rightharpoonup> bytes"
  | RSet "bytes set"
  | RZSet "bytes \<rightharpoonup> 'f"

type_synonym 'f redis_db = "string \<rightharpoonup> 'f redis_value"

record ('r, 'e, 'f) redis_ops =
  redis_contents :: "'r \<Rightarrow> 'f redis_db"
  redis_unreachable :: "'r \<Rightarrow> 'e option"
  redis_pipeline :: "'f redis_command list \<Rightarrow> ('r, 'e, unit) action"

subsection \<open>The session\<close>

record 'f session_inner =
  ses_buffer :: "'f write_buffer option"
  ses_depth :: "32 word"

record ('r, 'f) garnet_state =
  redis :: 'r
  inner :: "'f session_inner"

datatype 'e garnet_error = RedisError 'e | NoSession | NoBuffer | Malformed

definition new_session :: "'f session_inner" where
  "new_session = \<lparr>ses_buffer = None, ses_depth = 0\<rparr>"

definition garnet_begin :: "(('r, 'f) garnet_state, 'e garnet_error, unit) action" where
  "garnet_begin s =
     (if ses_depth (inner s) > 0
      then (Inr (), s\<lparr>inner := (inner s)\<lparr>ses_depth := ses_depth (inner s) + 1\<rparr>\<rparr>)
      else (Inr (), s\<lparr>inner := \<lparr>ses_buffer = Some new_buffer, ses_depth = 1\<rparr>\<rparr>))"

definition garnet_commit ::
    "('r, 'e, 'f) redis_ops \<Rightarrow> buffer_iters \<Rightarrow> (('r, 'f) garnet_state, 'e garnet_error, unit) action" where
  "garnet_commit ops it s =
     (if ses_depth (inner s) = 0 then (Inl NoSession, s)
      else if ses_depth (inner s) = 1 then
        (case ses_buffer (inner s) of
           None \<Rightarrow> (Inl NoBuffer, s)
         | Some b \<Rightarrow>
             let s1 = s\<lparr>inner := new_session\<rparr> in
             (case redis_pipeline ops (drain_into_pipeline it b) (redis s) of
                (Inl e, r) \<Rightarrow> (Inl (RedisError e), s1\<lparr>redis := r\<rparr>)
              | (Inr _, r) \<Rightarrow> (Inr (), s1\<lparr>redis := r\<rparr>)))
      else (Inr (), s\<lparr>inner := (inner s)\<lparr>ses_depth := ses_depth (inner s) - 1\<rparr>\<rparr>))"

definition garnet_rollback :: "(('r, 'f) garnet_state, 'e garnet_error, unit) action" where
  "garnet_rollback s =
     (if ses_depth (inner s) = 0 then (Inr (), s) else (Inr (), s\<lparr>inner := new_session\<rparr>))"

definition garnet_session ::
    "('r, 'e, 'f) redis_ops \<Rightarrow> buffer_iters \<Rightarrow> (('r, 'f) garnet_state, 'e garnet_error) session_ops" where
  "garnet_session ops it =
     \<lparr>op_begin = garnet_begin, op_commit = garnet_commit ops it, op_rollback = garnet_rollback\<rparr>"

definition with_active_buffer ::
    "('f write_buffer \<Rightarrow> 'a \<times> 'f write_buffer) \<Rightarrow> (('r, 'f) garnet_state, 'e garnet_error, 'a option) action" where
  "with_active_buffer f s =
     (case ses_buffer (inner s) of
        None \<Rightarrow> (Inr None, s)
      | Some b \<Rightarrow> (case f b of (x, b') \<Rightarrow> (Inr (Some x), s\<lparr>inner := (inner s)\<lparr>ses_buffer := Some b'\<rparr>\<rparr>)))"

definition with_active_buffer_required ::
    "('f write_buffer \<Rightarrow> 'a \<times> 'f write_buffer) \<Rightarrow> (('r, 'f) garnet_state, 'e garnet_error, 'a) action" where
  "with_active_buffer_required f =
     act_bind (with_active_buffer f) (\<lambda>r. case r of Some x \<Rightarrow> act_return x | None \<Rightarrow> act_fail NoSession)"

subsection \<open>Buffered set operations\<close>

text \<open>Views of a stored value; a key that is absent reads as the empty container.\<close>

fun v_string :: "'f redis_value option \<Rightarrow> bytes option" where
  "v_string (Some (RString v)) = Some v"
| "v_string _ = None"

fun v_hash :: "'f redis_value option \<Rightarrow> (string \<rightharpoonup> bytes)" where
  "v_hash (Some (RHash h)) = h"
| "v_hash _ = Map.empty"

fun v_set :: "'f redis_value option \<Rightarrow> bytes set" where
  "v_set (Some (RSet S)) = S"
| "v_set _ = {}"

fun v_zset :: "'f redis_value option \<Rightarrow> (bytes \<rightharpoonup> 'f)" where
  "v_zset (Some (RZSet Z)) = Z"
| "v_zset _ = Map.empty"

text \<open>A read of the server, which may be unreachable.\<close>

definition redis_read :: "('r, 'e, 'f) redis_ops \<Rightarrow> ('f redis_db \<Rightarrow> 'a) \<Rightarrow> (('r, 'f) garnet_state, 'e garnet_error, 'a) action" where
  "redis_read ops f =
     act_read (\<lambda>s. case redis_unreachable ops (redis s) of
                Some e \<Rightarrow> Inl (RedisError e)
              | None \<Rightarrow> Inr (f (redis_contents ops (redis s))))"

text \<open>The lock, the check for a session and a read of the buffer.\<close>

definition buffer_read :: "('f write_buffer \<Rightarrow> 'a) \<Rightarrow> (('r, 'f) garnet_state, 'e garnet_error, 'a) action" where
  "buffer_read f =
     act_read (\<lambda>s. case ses_buffer (inner s) of None \<Rightarrow> Inl NoSession | Some b \<Rightarrow> Inr (f b))"

definition buffer_write :: "('f write_buffer \<Rightarrow> 'f write_buffer) \<Rightarrow> (('r, 'f) garnet_state, 'e garnet_error, unit) action" where
  "buffer_write f = with_active_buffer_required (\<lambda>b. ((), f b))"

definition buffered_sadd ::
    "('r, 'e, 'f) redis_ops \<Rightarrow> string \<Rightarrow> bytes \<Rightarrow> (('r, 'f) garnet_state, 'e garnet_error, bool) action" where
  "buffered_sadd ops k m =
     act_bind (buffer_read (\<lambda>b. set_is_member b k m))
       (\<lambda>r. case r of
          Found True \<Rightarrow> act_return False
        | Found False \<Rightarrow> act_bind (buffer_write (set_add k m)) (\<lambda>_. act_return True)
        | KeyDeleted \<Rightarrow> act_bind (buffer_write (set_add k m)) (\<lambda>_. act_return True)
        | NotInBuffer \<Rightarrow>
            act_bind (redis_read ops (\<lambda>db. m \<in> v_set (db k)))
              (\<lambda>exists. if exists then act_return False
                 else act_bind (buffer_write (set_add k m)) (\<lambda>_. act_return True)))"

definition buffered_srem ::
    "('r, 'e, 'f) redis_ops \<Rightarrow> string \<Rightarrow> bytes \<Rightarrow> (('r, 'f) garnet_state, 'e garnet_error, bool) action" where
  "buffered_srem ops k m =
     act_bind (buffer_read (\<lambda>b. set_is_member b k m))
       (\<lambda>r. case r of
          Found True \<Rightarrow> act_bind (buffer_write (set_remove k m)) (\<lambda>_. act_return True)
        | Found False \<Rightarrow> act_return False
        | KeyDeleted \<Rightarrow> act_return False
        | NotInBuffer \<Rightarrow>
            act_bind (redis_read ops (\<lambda>db. m \<in> v_set (db k)))
              (\<lambda>exists. if \<not> exists then act_return False
                 else act_bind (buffer_write (set_remove k m)) (\<lambda>_. act_return True)))"

definition buffered_smembers_raw ::
    "('r, 'e, 'f) redis_ops \<Rightarrow> buffer_iters \<Rightarrow> string \<Rightarrow> (('r, 'f) garnet_state, 'e garnet_error, bytes list) action" where
  "buffered_smembers_raw ops it k =
     act_bind (buffer_read (\<lambda>b. set_get_deltas b k))
       (\<lambda>r. case r of
          KeyDeleted \<Rightarrow> act_return []
        | Found d \<Rightarrow>
            if deltas_full_replace d then act_return (member_iter it (deltas_added d))
            else act_bind (redis_read ops (\<lambda>db. member_iter it (v_set (db k))))
              (\<lambda>ms. let kept = filter (\<lambda>m. m \<notin> deltas_removed d) ms
                 in act_return (kept @ filter (\<lambda>m. m \<notin> set kept) (member_iter it (deltas_added d))))
        | NotInBuffer \<Rightarrow> redis_read ops (\<lambda>db. member_iter it (v_set (db k))))"

subsection \<open>The documented effect of the commands\<close>

definition mk_hash :: "(string \<rightharpoonup> bytes) \<Rightarrow> 'f redis_value option" where
  "mk_hash h = (if h = Map.empty then None else Some (RHash h))"

definition mk_set :: "bytes set \<Rightarrow> 'f redis_value option" where
  "mk_set S = (if S = {} then None else Some (RSet S))"

definition mk_zset :: "(bytes \<rightharpoonup> 'f) \<Rightarrow> 'f redis_value option" where
  "mk_zset Z = (if Z = Map.empty then None else Some (RZSet Z))"

fun command_key :: "'f redis_command \<Rightarrow> string" where
  "command_key (DEL k) = k"
| "command_key (SET k _) = k"
| "command_key (HSET k _) = k"
| "command_key (HDEL k _) = k"
| "command_key (SREM k _) = k"
| "command_key (SADD k _) = k"
| "command_key (ZREM k _) = k"
| "command_key (ZADD k _) = k"

fun exec_value :: "'f redis_command \<Rightarrow> 'f redis_value option \<Rightarrow> 'f redis_value option" where
  "exec_value (DEL k) v = None"
| "exec_value (SET k x) v = Some (RString x)"
| "exec_value (HSET k fs) v = mk_hash (fold (\<lambda>(f, x) h. h(f \<mapsto> x)) fs (v_hash v))"
| "exec_value (HDEL k fs) v = mk_hash (fold (\<lambda>f h. h(f := None)) fs (v_hash v))"
| "exec_value (SREM k ms) v = mk_set (v_set v - set ms)"
| "exec_value (SADD k ms) v = mk_set (v_set v \<union> set ms)"
| "exec_value (ZREM k ms) v = mk_zset (fold (\<lambda>m z. z(m := None)) ms (v_zset v))"
| "exec_value (ZADD k ms) v = mk_zset (fold (\<lambda>(x, m) z. z(m \<mapsto> x)) ms (v_zset v))"

text \<open>
  The effect of a command on a key of the type it expects. A command on a key of another type
  is an error of the server; the keys of the backend each have one type, by their prefix.
\<close>

definition exec_command :: "'f redis_command \<Rightarrow> 'f redis_db \<Rightarrow> 'f redis_db" where
  "exec_command c db = db(command_key c := exec_value c (db (command_key c)))"

locale redis_service =
  fixes ops :: "('r, 'e, 'f) redis_ops"
  assumes pipeline_applied:
    "redis_pipeline ops cmds r = (Inr u, r') \<Longrightarrow> redis_contents ops r' = fold exec_command cmds (redis_contents ops r)"
    and pipeline_atomic:
    "redis_pipeline ops cmds r = (Inl e, r') \<Longrightarrow> redis_contents ops r' = redis_contents ops r"

text \<open>
  The contents as the session sees them: the state of the server with the buffer applied.
\<close>

definition overlay_key :: "bool \<Rightarrow> 'f key_state \<Rightarrow> 'f redis_value option \<Rightarrow> 'f redis_value option" where
  "overlay_key cleared st v0 =
     (let v = (if cleared then None else v0) in
      case st of
        Deleted \<Rightarrow> None
      | StringValue x \<Rightarrow> Some (RString x)
      | HashState fs \<Rightarrow> mk_hash (\<lambda>f. case fs f of None \<Rightarrow> v_hash v f | Some w \<Rightarrow> w)
      | SetState added removed \<Rightarrow> mk_set ((if cleared then {} else v_set v - removed) \<union> added)
      | SortedSetState added removed \<Rightarrow>
          mk_zset ((if cleared then Map.empty else v_zset v |` (- removed)) ++ added))"

definition overlay :: "'f write_buffer \<Rightarrow> 'f redis_db \<Rightarrow> 'f redis_db" where
  "overlay b db k =
     (case buf_keys b k of
        None \<Rightarrow> db k
      | Some st \<Rightarrow> overlay_key (k \<in> cleared_keys b) st (db k))"

subsection \<open>Views\<close>

lemma v_mk [simp]:
  "v_hash (mk_hash h) = h" "v_set (mk_set S) = S" "v_zset (mk_zset Z) = Z"
  "v_string (mk_hash h) = None" "v_string (mk_set S) = None" "v_string (mk_zset Z) = None"
  by (simp_all add: mk_hash_def mk_set_def mk_zset_def)

text \<open>The types of keys.\<close>

datatype key_kind = StringKey | HashKey | SetKey | ZSetKey

fun value_kind :: "'f redis_value \<Rightarrow> key_kind" where
  "value_kind (RString _) = StringKey"
| "value_kind (RHash _) = HashKey"
| "value_kind (RSet _) = SetKey"
| "value_kind (RZSet _) = ZSetKey"

fun state_kind :: "'f key_state \<Rightarrow> key_kind \<Rightarrow> bool" where
  "state_kind Deleted q = True"
| "state_kind (StringValue _) q = (q = StringKey)"
| "state_kind (HashState _) q = (q = HashKey)"
| "state_kind (SetState _ _) q = (q = SetKey)"
| "state_kind (SortedSetState _ _) q = (q = ZSetKey)"

definition db_typed :: "(string \<Rightarrow> key_kind) \<Rightarrow> 'f redis_db \<Rightarrow> bool" where
  "db_typed kind db \<longleftrightarrow> (\<forall>k v. db k = Some v \<longrightarrow> value_kind v = kind k \<and>
     v \<noteq> RHash Map.empty \<and> v \<noteq> RSet {} \<and> v \<noteq> RZSet Map.empty)"

fun state_ok :: "'f key_state \<Rightarrow> bool" where
  "state_ok (HashState fs) = finite (dom fs)"
| "state_ok (SetState added removed) = (finite added \<and> finite removed \<and> added \<inter> removed = {})"
| "state_ok (SortedSetState added removed) = (finite (dom added) \<and> finite removed \<and> dom added \<inter> removed = {})"
| "state_ok _ = True"

definition buffer_ok :: "(string \<Rightarrow> key_kind) \<Rightarrow> 'f write_buffer \<Rightarrow> bool" where
  "buffer_ok kind b \<longleftrightarrow> finite (dom (buf_keys b)) \<and> cleared_keys b \<subseteq> dom (buf_keys b) \<and>
     (\<forall>k st. buf_keys b k = Some st \<longrightarrow>
        state_kind st (kind k) \<and> state_ok st \<and> (st = Deleted \<longrightarrow> k \<in> cleared_keys b))"

lemma buffer_ok_new [simp]: "buffer_ok kind new_buffer"
  by (simp add: buffer_ok_def new_buffer_def)

subsection \<open>The invariant of the buffer\<close>

lemma buffer_ok_put:
  assumes "buffer_ok kind b" "state_kind st (kind k)" "state_ok st" "st \<noteq> Deleted"
  shows "buffer_ok kind (put_key k st b)"
  using assms by (auto simp: buffer_ok_def put_key_def)

lemma buffer_ok_state:
  "buffer_ok kind b \<Longrightarrow> buf_keys b k = Some st \<Longrightarrow> state_kind st (kind k) \<and> state_ok st"
  by (simp add: buffer_ok_def)

lemma buffer_ok_ops:
  assumes b: "buffer_ok kind b"
  shows "kind k = StringKey \<Longrightarrow> buffer_ok kind (string_set k v b)"
    and "kind k = HashKey \<Longrightarrow> buffer_ok kind (hash_set k f v b)"
    and "kind k = HashKey \<Longrightarrow> buffer_ok kind (hash_del k f b)"
    and "kind k = SetKey \<Longrightarrow> buffer_ok kind (set_add k m b)"
    and "kind k = SetKey \<Longrightarrow> buffer_ok kind (set_remove k m b)"
    and "kind k = ZSetKey \<Longrightarrow> buffer_ok kind (zset_add k m x b)"
    and "kind k = ZSetKey \<Longrightarrow> buffer_ok kind (zset_remove k m b)"
    and "buffer_ok kind (del_key k b)"
proof -
  note st = buffer_ok_state [OF b, of k]
  show "kind k = StringKey \<Longrightarrow> buffer_ok kind (string_set k v b)"
    by (simp add: string_set_def buffer_ok_put b)
  show "kind k = HashKey \<Longrightarrow> buffer_ok kind (hash_set k f v b)"
    using st by (auto simp: hash_set_def intro!: buffer_ok_put b split: option.split key_state.split)
  show "kind k = HashKey \<Longrightarrow> buffer_ok kind (hash_del k f b)"
    using st by (auto simp: hash_del_def intro!: buffer_ok_put b split: option.split key_state.split)
  show "kind k = SetKey \<Longrightarrow> buffer_ok kind (set_add k m b)"
    using st by (auto simp: set_add_def intro!: buffer_ok_put b split: option.split key_state.split)
  show "kind k = SetKey \<Longrightarrow> buffer_ok kind (set_remove k m b)"
    using st b by (auto simp: set_remove_def intro!: buffer_ok_put b split: option.split key_state.split)
  show "kind k = ZSetKey \<Longrightarrow> buffer_ok kind (zset_add k m x b)"
    using st by (auto simp: zset_add_def disjoint_iff intro!: buffer_ok_put b split: option.split key_state.split)
  show "kind k = ZSetKey \<Longrightarrow> buffer_ok kind (zset_remove k m b)"
    using st b by (auto simp: zset_remove_def disjoint_iff domIff intro!: buffer_ok_put b split: option.split key_state.split)
  show "buffer_ok kind (del_key k b)"
    using b by (auto simp: buffer_ok_def del_key_def put_key_def)
qed

subsection \<open>Commit\<close>

lemma exec_command_other: "command_key c \<noteq> k \<Longrightarrow> exec_command c db k = db k"
  by (simp add: exec_command_def)

lemma fold_exec_key:
  "\<forall>c \<in> set cs. command_key c = k \<Longrightarrow> fold exec_command cs db = db(k := fold exec_value cs (db k))"
  by (induction cs arbitrary: db) (auto simp: exec_command_def)

lemma drain_key_keys: "c \<in> set (drain_key it cl k st) \<Longrightarrow> command_key c = k"
  by (cases st) (auto simp: Let_def unless_empty_def split: if_splits)

text \<open>The pipeline changes each buffered key by the commands of its own state.\<close>

lemma fold_drain:
  assumes "distinct ks"
  shows "fold exec_command (concat (map (\<lambda>k. drain_key it (C k) k (S k)) ks)) db j =
    (if j \<in> set ks then fold exec_value (drain_key it (C j) j (S j)) (db j) else db j)"
  using assms
proof (induction ks arbitrary: db)
  case (Cons k ks)
  have "fold exec_command (drain_key it (C k) k (S k)) db =
      db(k := fold exec_value (drain_key it (C k) k (S k)) (db k))"
    by (rule fold_exec_key) (auto dest: drain_key_keys)
  with Cons show ?case by auto
qed simp

lemma fold_hset: "distinct (map fst fs) \<Longrightarrow>
    fold (\<lambda>(f, x) h. h(f \<mapsto> x)) fs h0 f = (case map_of fs f of None \<Rightarrow> h0 f | Some x \<Rightarrow> Some x)"
proof (induction fs arbitrary: h0)
  case (Cons p fs)
  then show ?case
    by (cases p) (auto split: option.split simp: map_of_eq_None_iff image_iff dest!: map_of_SomeD; force)
qed simp

lemma fold_del: "fold (\<lambda>f h. h(f := None)) fs h0 f = (if f \<in> set fs then None else h0 f)"
  by (induction fs arbitrary: h0) auto

definition hash_sets :: "(string \<rightharpoonup> bytes option) \<Rightarrow> string list \<Rightarrow> (string \<times> bytes) list" where
  "hash_sets fs os = List.map_filter (\<lambda>f. case fs f of Some (Some v) \<Rightarrow> Some (f, v) | _ \<Rightarrow> None) os"

lemma hash_sets_fst: "map fst (hash_sets fs os) = filter (\<lambda>f. \<exists>x. fs f = Some (Some x)) os"
  unfolding hash_sets_def by (induction os) (auto simp: map_filter_simps split: option.split)

lemma hash_sets_map_of:
  "map_of (hash_sets fs os) f = (if f \<in> set os then case fs f of Some (Some x) \<Rightarrow> Some x | _ \<Rightarrow> None else None)"
  unfolding hash_sets_def by (induction os) (auto simp: map_filter_simps split: option.split)

lemma exec_hash_steps:
  "fold exec_value (unless_empty sets (HSET k sets) @ unless_empty dels (HDEL k dels)) (mk_hash h) =
     mk_hash (fold (\<lambda>f h. h(f := None)) dels (fold (\<lambda>(f, x) h. h(f \<mapsto> x)) sets h))"
  by (simp add: unless_empty_def)

lemma exec_set_steps:
  "fold exec_value (unless_empty rs (SREM k rs) @ unless_empty as (SADD k as)) (mk_set S) =
     mk_set ((S - set rs) \<union> set as)"
  by (simp add: unless_empty_def)

lemma exec_zset_steps:
  "fold exec_value (unless_empty rs (ZREM k rs) @ unless_empty as (ZADD k as)) (mk_zset Z) =
     mk_zset (fold (\<lambda>(x, m) z. z(m \<mapsto> x)) as (fold (\<lambda>m z. z(m := None)) rs Z))"
  by (simp add: unless_empty_def)

lemma fold_zadd: "fold (\<lambda>(x, m) z. z(m \<mapsto> x)) (map (\<lambda>m. (g m, m)) ms) z0 m = (if m \<in> set ms then Some (g m) else z0 m)"
  by (induction ms arbitrary: z0) auto

lemma mk_v:
  assumes "\<And>w. v = Some w \<Longrightarrow> value_kind w = q"
    and "v \<noteq> Some (RHash Map.empty)" "v \<noteq> Some (RSet {})" "v \<noteq> Some (RZSet Map.empty)"
  shows "q = HashKey \<Longrightarrow> mk_hash (v_hash v) = v" "q = SetKey \<Longrightarrow> mk_set (v_set v) = v"
    "q = ZSetKey \<Longrightarrow> mk_zset (v_zset v) = v"
proof -
  show "q = HashKey \<Longrightarrow> mk_hash (v_hash v) = v"
    using assms by (cases v rule: v_hash.cases) (auto simp: mk_hash_def)
  show "q = SetKey \<Longrightarrow> mk_set (v_set v) = v"
    using assms by (cases v rule: v_set.cases) (auto simp: mk_set_def)
  show "q = ZSetKey \<Longrightarrow> mk_zset (v_zset v) = v"
    using assms by (cases v rule: v_zset.cases) (auto simp: mk_zset_def)
qed

lemma drain_key_overlay:
  assumes it: "iter_ok (string_iter it)" "iter_ok (member_iter it)"
    and st: "state_ok st" "state_kind st q" and v: "\<And>w. v = Some w \<Longrightarrow> value_kind w = q"
    and ne: "v \<noteq> Some (RHash Map.empty)" "v \<noteq> Some (RSet {})" "v \<noteq> Some (RZSet Map.empty)"
  shows "fold exec_value (drain_key it cl k st) v = overlay_key cl st v"
proof (cases st)
  case (HashState fs)
  let ?o = "string_iter it (dom fs)"
  let ?v = "if cl then None else v"
  have o: "set ?o = dom fs" "distinct ?o" using it(1) st(1) by (simp_all add: iter_ok_def HashState)
  have d: "distinct (map fst (hash_sets fs ?o))" using o(2) by (simp add: hash_sets_fst)
  have mk: "mk_hash (v_hash ?v) = ?v"
    using mk_v(1) [OF v ne] st(2) by (auto simp: HashState mk_hash_def)
  have "fold exec_value (drain_key it cl k st) v =
      mk_hash (fold (\<lambda>f h. h(f := None)) (filter (\<lambda>f. fs f = Some None) ?o)
        (fold (\<lambda>(f, x) h. h(f \<mapsto> x)) (hash_sets fs ?o) (v_hash ?v)))"
    unfolding exec_hash_steps [of _ k, symmetric] mk
    by (simp add: HashState hash_sets_def Let_def)
  also have "\<dots> = overlay_key cl st v"
    unfolding overlay_key_def HashState Let_def key_state.case
    by (rule arg_cong [where f = mk_hash])
      (auto simp: fun_eq_iff fold_del fold_hset [OF d] hash_sets_map_of o(1) split: option.split)
  finally show ?thesis .
next
  case (SetState added removed)
  have o: "set (member_iter it added) = added" "set (member_iter it removed) = removed"
    using it(2) st(1) by (simp_all add: iter_ok_def SetState)
  show ?thesis
  proof (cases cl)
    case True
    show ?thesis using exec_set_steps [of "[]" k "member_iter it added" "{}"] o
      by (simp add: SetState True overlay_key_def unless_empty_def mk_set_def)
  next
    case False
    have mk: "mk_set (v_set v) = v" using mk_v(2) [OF v ne] st(2) by (simp add: SetState)
    have "fold exec_value (drain_key it cl k st) (mk_set (v_set v)) = overlay_key cl st v"
      using exec_set_steps [of "member_iter it removed" k "member_iter it added" "v_set v"] o
      by (simp add: SetState False overlay_key_def)
    then show ?thesis by (simp only: mk)
  qed
next
  case (SortedSetState added removed)
  have o: "set (member_iter it (dom added)) = dom added" "set (member_iter it removed) = removed"
    using it(2) st(1) by (simp_all add: iter_ok_def SortedSetState)
  let ?as = "map (\<lambda>m. (the (added m), m)) (member_iter it (dom added))"
  have ext: "fold (\<lambda>(x, m) z. z(m \<mapsto> x)) ?as (fold (\<lambda>m z. z(m := None)) rs Z) = Z |` (- set rs) ++ added" for rs Z
    by (rule ext) (auto simp: fold_zadd fold_del o(1) map_add_def restrict_map_def split: option.split)
  show ?thesis
  proof (cases cl)
    case True
    show ?thesis using exec_zset_steps [of "[]" k ?as Map.empty] ext [of "[]" Map.empty]
      by (simp add: SortedSetState True overlay_key_def unless_empty_def mk_zset_def Let_def)
  next
    case False
    have mk: "mk_zset (v_zset v) = v" using mk_v(3) [OF v ne] st(2) by (simp add: SortedSetState)
    have "fold exec_value (drain_key it cl k st) (mk_zset (v_zset v)) = overlay_key cl st v"
      using exec_zset_steps [of "member_iter it removed" k ?as "v_zset v"]
        ext [of "member_iter it removed" "v_zset v"]
      by (simp add: SortedSetState False overlay_key_def Let_def o)
    then show ?thesis by (simp only: mk)
  qed
qed (simp_all add: overlay_key_def)

definition iters_ok :: "buffer_iters \<Rightarrow> bool" where
  "iters_ok it \<longleftrightarrow> iter_ok (string_iter it) \<and> iter_ok (member_iter it)"

lemma drain_overlay:
  assumes it: "iters_ok it" and b: "buffer_ok kind b" and db: "db_typed kind db"
  shows "fold exec_command (drain_into_pipeline it b) db = overlay b db"
proof
  fix k
  have ks: "set (string_iter it (dom (buf_keys b))) = dom (buf_keys b)" "distinct (string_iter it (dom (buf_keys b)))"
    using it b by (simp_all add: iters_ok_def iter_ok_def buffer_ok_def)
  show "fold exec_command (drain_into_pipeline it b) db k = overlay b db k"
  proof (cases "buf_keys b k")
    case None
    then show ?thesis by (simp add: drain_into_pipeline_def fold_drain [OF ks(2)] ks(1) overlay_def domIff)
  next
    case (Some st)
    have "fold exec_value (drain_key it (k \<in> cleared_keys b) k st) (db k) = overlay_key (k \<in> cleared_keys b) st (db k)"
      using buffer_ok_state [OF b Some] db it
      by (intro drain_key_overlay [where q = "kind k"]) (auto simp: iters_ok_def db_typed_def)
    then show ?thesis
      using Some by (simp add: drain_into_pipeline_def fold_drain [OF ks(2)] ks(1) overlay_def domIff)
  qed
qed

text \<open>Reads of the buffer, falling through to the server where it has no information.\<close>

fun read_through :: "'a buffer_read_result \<Rightarrow> 'a option \<Rightarrow> 'a option" where
  "read_through (Found x) s = Some x"
| "read_through KeyDeleted s = None"
| "read_through NotInBuffer s = s"

lemma string_get_overlay:
  assumes "buffer_ok kind b" "kind k = StringKey"
  shows "read_through (string_get b k) (v_string (db k)) = v_string (overlay b db k)"
proof (cases "buf_keys b k")
  case (Some st)
  then show ?thesis
    using buffer_ok_state [OF assms(1) Some] assms(2)
    by (cases st) (simp_all add: string_get_def overlay_def overlay_key_def)
qed (simp add: string_get_def overlay_def)

lemma hash_get_overlay:
  assumes "buffer_ok kind b" "kind k = HashKey"
  shows "read_through (hash_get b k f) (v_hash (db k) f) = v_hash (overlay b db k) f"
proof (cases "buf_keys b k")
  case (Some st)
  then show ?thesis
    using buffer_ok_state [OF assms(1) Some] assms(2)
    by (cases st) (auto simp: hash_get_def overlay_def overlay_key_def Let_def split: option.split)
qed (simp add: hash_get_def overlay_def)

lemma set_is_member_overlay:
  assumes "buffer_ok kind b" "kind k = SetKey"
  shows "read_through (set_is_member b k m) (Some (m \<in> v_set (db k))) \<in>
    (if m \<in> v_set (overlay b db k) then {Some True} else {Some False, None})"
proof (cases "buf_keys b k")
  case (Some st)
  then show ?thesis
    using buffer_ok_state [OF assms(1) Some] assms(2)
    by (cases st) (auto simp: set_is_member_def overlay_def overlay_key_def Let_def)
qed (simp add: set_is_member_def overlay_def)

lemma smembers_overlay:
  assumes it: "iters_ok it" and b: "buffer_ok kind b" and k: "kind k = SetKey" and fin: "finite (v_set (redis_contents ops (redis s) k))"
    and s: "ses_buffer (inner s) = Some b" and up: "redis_unreachable ops (redis s) = None"
  shows "\<exists>ms. buffered_smembers_raw ops it k s = (Inr ms, s) \<and>
    set ms = v_set (overlay b (redis_contents ops (redis s)) k) \<and> distinct ms"
proof -
  let ?db = "redis_contents ops (redis s)"
  have io: "finite S \<Longrightarrow> set (member_iter it S) = S \<and> distinct (member_iter it S)" for S
    using it by (simp add: iters_ok_def iter_ok_def)
  show ?thesis
  proof (cases "buf_keys b k")
    case None
    then show ?thesis using io [OF fin]
      by (simp add: buffered_smembers_raw_def buffer_read_def act_bind_def s set_get_deltas_def redis_read_def up
          overlay_def)
  next
    case (Some st)
    note ok = buffer_ok_state [OF b Some]
    show ?thesis
    proof (cases st)
      case (SetState added removed)
      then have a: "finite added" "finite removed" "added \<inter> removed = {}" using ok by auto
      then show ?thesis
        using io [OF fin] io [OF a(1)] Some
        by (auto simp: buffered_smembers_raw_def buffer_read_def act_bind_def s set_get_deltas_def redis_read_def up
            overlay_def SetState overlay_key_def Let_def)
    qed (use ok k Some in \<open>auto simp: buffered_smembers_raw_def buffer_read_def act_bind_def s set_get_deltas_def
        overlay_def overlay_key_def\<close>)
  qed
qed


subsection \<open>Writes\<close>

text \<open>
  A removal that is not recorded: the member is among those added in this session, and the
  server has it from before. The buffer then forgets the addition and nothing more.
\<close>

definition removal_lost :: "string \<Rightarrow> bytes \<Rightarrow> 'f write_buffer \<Rightarrow> 'f redis_db \<Rightarrow> bool" where
  "removal_lost k m b db \<longleftrightarrow> k \<notin> cleared_keys b \<and> m \<in> v_set (db k) \<and>
     (\<exists>added removed. buf_keys b k = Some (SetState added removed) \<and> m \<in> added)"

lemma overlay_put: "overlay (put_key k st b) db = (overlay b db)(k := overlay_key (k \<in> cleared_keys b) st (db k))"
  by (auto simp: overlay_def put_key_def fun_eq_iff split: option.split)

lemma mk_cong:
  "(\<And>f. h f = h' f) \<Longrightarrow> mk_hash h = mk_hash h'" "(\<And>m. Z m = Z' m) \<Longrightarrow> mk_zset Z = mk_zset Z'"
  by (auto intro: arg_cong [where f = mk_hash] arg_cong [where f = mk_zset])

lemma put_refines:
  assumes "overlay_key (k \<in> cleared_keys b) st (db k) = exec_value c (overlay b db k)" "command_key c = k"
  shows "overlay (put_key k st b) db = exec_command c (overlay b db)"
  using assms by (simp add: overlay_put exec_command_def)

text \<open>What the session knows about a key: nothing, that it is deleted, or changes of its type.\<close>

lemma key_cases:
  assumes "buffer_ok kind b"
  obtains (fresh) "buf_keys b k = None" "k \<notin> cleared_keys b" "overlay b db k = db k"
    | (deleted) "buf_keys b k = Some Deleted" "k \<in> cleared_keys b" "overlay b db k = None"
    | (changed) st where "buf_keys b k = Some st" "st \<noteq> Deleted" "state_kind st (kind k)" "state_ok st"
        "overlay b db k = overlay_key (k \<in> cleared_keys b) st (db k)"
proof (cases "buf_keys b k")
  case None
  with assms fresh show ?thesis by (auto simp: buffer_ok_def overlay_def)
next
  case (Some st)
  with assms deleted changed show ?thesis
    by (cases "st = Deleted") (auto simp: buffer_ok_def overlay_def overlay_key_def)
qed

lemma hash_set_refines:
  assumes b: "buffer_ok kind b" and k: "kind k = HashKey"
  shows "overlay (hash_set k f v b) db = exec_command (HSET k [(f, v)]) (overlay b db)"
  using b
proof (cases rule: key_cases [where k = k and db = db])
  case (changed st)
  with k show ?thesis
    by (cases st) (auto simp: hash_set_def overlay_key_def Let_def intro!: put_refines mk_cong split: option.split)
qed (auto simp: hash_set_def overlay_key_def intro!: put_refines mk_cong split: option.split)

lemma hash_del_refines:
  assumes b: "buffer_ok kind b" and k: "kind k = HashKey"
  shows "overlay (hash_del k f b) db = exec_command (HDEL k [f]) (overlay b db)"
  using b
proof (cases rule: key_cases [where k = k and db = db])
  case (changed st)
  with k show ?thesis
    by (cases st) (auto simp: hash_del_def overlay_key_def Let_def intro!: put_refines mk_cong split: option.split)
qed (auto simp: hash_del_def overlay_key_def intro!: put_refines mk_cong split: option.split)

lemma set_add_refines:
  assumes b: "buffer_ok kind b" and k: "kind k = SetKey"
  shows "overlay (set_add k m b) db = exec_command (SADD k [m]) (overlay b db)"
  using b
proof (cases rule: key_cases [where k = k and db = db])
  case (changed st)
  with k show ?thesis
    by (cases st) (auto simp: set_add_def overlay_key_def Let_def intro!: put_refines arg_cong [where f = mk_set])
qed (auto simp: set_add_def overlay_key_def intro!: put_refines arg_cong [where f = mk_set])

lemma zset_add_refines:
  assumes b: "buffer_ok kind b" and k: "kind k = ZSetKey"
  shows "overlay (zset_add k m x b) db = exec_command (ZADD k [(x, m)]) (overlay b db)"
  using b
proof (cases rule: key_cases [where k = k and db = db])
  case (changed st)
  with k show ?thesis
    by (cases st) (auto simp: zset_add_def overlay_key_def Let_def map_add_def restrict_map_def
        intro!: put_refines mk_cong split: option.split)
qed (auto simp: zset_add_def overlay_key_def map_add_def intro!: put_refines mk_cong)

lemma set_remove_refines:
  assumes b: "buffer_ok kind b" and k: "kind k = SetKey"
  shows "overlay (set_remove k m b) db =
    (if removal_lost k m b db then overlay b db else exec_command (SREM k [m]) (overlay b db))"
  using b
proof (cases rule: key_cases [where k = k and db = db])
  case fresh
  then show ?thesis
    by (auto simp: set_remove_def removal_lost_def overlay_key_def intro!: put_refines arg_cong [where f = mk_set])
next
  case deleted
  then show ?thesis
    by (auto simp: set_remove_def removal_lost_def exec_command_def mk_set_def fun_eq_iff)
next
  case (changed st)
  with k obtain added removed where st: "st = SetState added removed" "added \<inter> removed = {}"
    by (cases st) auto
  have old: "overlay b db k = mk_set ((if k \<in> cleared_keys b then {} else v_set (db k) - removed) \<union> added)"
    using changed(5) by (simp add: st overlay_key_def)
  show ?thesis
  proof (cases "removal_lost k m b db")
    case True
    then have "m \<in> added" "k \<notin> cleared_keys b" "m \<in> v_set (db k)" "m \<notin> removed"
      using changed(1) st by (auto simp: removal_lost_def)
    then have "overlay_key False (SetState (added - {m}) removed) (db k) = overlay b db k"
      unfolding old by (auto simp: overlay_key_def intro!: arg_cong [where f = mk_set])
    with True \<open>m \<in> added\<close> \<open>k \<notin> cleared_keys b\<close> changed(1) show ?thesis
      by (simp add: set_remove_def st overlay_put fun_upd_idem_iff)
  next
    case False
    have "overlay (set_remove k m b) db = exec_command (SREM k [m]) (overlay b db)"
    proof (cases "m \<in> added")
      case True
      with False changed(1) st have "k \<in> cleared_keys b \<or> m \<notin> v_set (db k)" by (auto simp: removal_lost_def)
      then show ?thesis
        using True changed(1)
        by (auto simp: set_remove_def st old overlay_key_def intro!: put_refines arg_cong [where f = mk_set])
    next
      case False
      then show ?thesis
        using changed(1)
        by (auto simp: set_remove_def st old overlay_key_def intro!: put_refines arg_cong [where f = mk_set])
    qed
    with False show ?thesis by simp
  qed
qed

lemma string_set_refines: "overlay (string_set k v b) db = exec_command (SET k v) (overlay b db)"
  by (simp add: string_set_def overlay_key_def put_refines)

lemma del_key_refines: "overlay (del_key k b) db = exec_command (DEL k) (overlay b db)"
  by (auto simp: del_key_def put_key_def overlay_def overlay_key_def exec_command_def fun_eq_iff split: option.split)


text \<open>
  C31. A lost removal. When a session adds a member to a set (or a sorted set) that already has
  it on the server and then removes it, the removal is not recorded: the commit leaves the
  member in the set, where the same two commands would have removed it.
\<close>

theorem set_removal_lost:
  assumes svc: "redis_service ops" and it: "iters_ok it" and kinds: "kind k = SetKey" "kind z = ZSetKey"
    and db: "db_typed kind (redis_contents ops (redis s))"
    and k: "m \<in> v_set (redis_contents ops (redis s) k)" and z: "m \<in> dom (v_zset (redis_contents ops (redis s) z))"
    and s: "inner s = \<lparr>ses_buffer = Some (zset_remove z m (zset_add z m x (set_remove k m (set_add k m new_buffer)))),
      ses_depth = 1\<rparr>"
    and run: "garnet_commit ops it s = (Inr (), t)"
  shows "m \<in> v_set (redis_contents ops (redis t) k) \<and> m \<in> dom (v_zset (redis_contents ops (redis t) z)) \<and>
    m \<notin> v_set (fold exec_command [SADD k [m], SREM k [m]] (redis_contents ops (redis s)) k) \<and>
    m \<notin> dom (v_zset (fold exec_command [ZADD z [(x, m)], ZREM z [m]] (redis_contents ops (redis s)) z))"
proof -
  let ?b = "zset_remove z m (zset_add z m x (set_remove k m (set_add k m new_buffer)))"
  have ok: "buffer_ok kind ?b" by (intro buffer_ok_ops buffer_ok_new kinds)
  from run obtain r where r: "redis_pipeline ops (drain_into_pipeline it ?b) (redis s) = (Inr (), r)"
    and t: "t = s\<lparr>inner := new_session, redis := r\<rparr>"
    by (auto simp: garnet_commit_def s Let_def split: prod.splits sum.splits)
  have c: "redis_contents ops (redis t) = overlay ?b (redis_contents ops (redis s))"
    using redis_service.pipeline_applied [OF svc r] drain_overlay [OF it ok db] by (simp add: t)
  have ne: "z \<noteq> k" using kinds by auto
  have keys: "buf_keys ?b k = Some (SetState {} {})" "buf_keys ?b z = Some (SortedSetState Map.empty {})"
    "cleared_keys ?b = {}"
    using ne by (simp_all add: set_add_def set_remove_def zset_add_def zset_remove_def put_key_def new_buffer_def)
  have "v_set (overlay ?b db k) = v_set (db k)" "v_zset (overlay ?b db z) = v_zset (db z)" for db
    by (simp_all add: overlay_def keys overlay_key_def restrict_map_def)
  with k z show ?thesis by (simp add: c exec_command_def)
qed

subsection \<open>Nesting\<close>

definition session_ok :: "'f session_inner \<Rightarrow> bool" where
  "session_ok i \<longleftrightarrow> (ses_depth i = 0 \<longleftrightarrow> ses_buffer i = None)"


subsection \<open>The session control of the backend\<close>

sublocale redis_service \<subseteq> garnet: transactional_backend "garnet_session ops it" "\<lambda>s. redis_contents ops (redis s)" for it
proof unfold_locales
  fix s
  show "redis_contents ops (redis (snd (op_begin (garnet_session ops it) s))) = redis_contents ops (redis s)"
    by (simp add: garnet_session_def garnet_begin_def)
  show "redis_contents ops (redis (snd (op_rollback (garnet_session ops it) s))) = redis_contents ops (redis s)"
    by (simp add: garnet_session_def garnet_rollback_def)
next
  fix s e t
  assume "op_commit (garnet_session ops it) s = (Inl e, t)"
  then show "redis_contents ops (redis t) = redis_contents ops (redis s)"
    by (auto simp: garnet_session_def garnet_commit_def Let_def dest: pipeline_atomic
        split: if_splits option.splits prod.splits sum.splits)
qed

context redis_service
begin

lemma provides_transactions:
  "transactional_backend (garnet_session ops it) (\<lambda>s. redis_contents ops (redis s))"
  by (rule garnet.transactional_backend_axioms)

end

text \<open>A server that executes the commands as documented.\<close>

definition mem_redis :: "('f redis_db, 'e, 'f) redis_ops" where
  "mem_redis = \<lparr>redis_contents = (\<lambda>r. r), redis_unreachable = (\<lambda>_. None),
                redis_pipeline = (\<lambda>cmds r. (Inr (), fold exec_command cmds r))\<rparr>"

lemma mem_redis_contents [simp]: "redis_contents mem_redis r = r"
  by (simp add: mem_redis_def)

interpretation mem_redis: redis_service mem_redis
  by unfold_locales (simp_all add: mem_redis_def)

definition sorted_iters :: buffer_iters where
  "sorted_iters = \<lparr>string_iter = sorted_list_of_set, member_iter = sorted_list_of_set\<rparr>"

lemma sorted_iters_ok: "iters_ok sorted_iters"
  by (simp add: iters_ok_def sorted_iters_def)

subsection \<open>Examples\<close>

definition key_types :: "string \<Rightarrow> key_kind" where
  "key_types k = (if k = ''s'' then SetKey else if k = ''z'' then ZSetKey else if k = ''h'' then HashKey else StringKey)"

definition sample_db :: "nat redis_db" where
  "sample_db = [''s'' \<mapsto> RSet {[1]}, ''z'' \<mapsto> RZSet [[1] \<mapsto> 5], ''h'' \<mapsto> RHash [''f'' \<mapsto> [7]]]"

lemma sample_typed: "db_typed key_types sample_db"
  by (auto simp: db_typed_def sample_db_def key_types_def split: if_splits)

definition sample_state :: "nat write_buffer \<Rightarrow> (nat redis_db, nat) garnet_state" where
  "sample_state b = \<lparr>redis = sample_db, inner = \<lparr>ses_buffer = Some b, ses_depth = 1\<rparr>\<rparr>"

lemma sample_commit:
  "garnet_commit (mem_redis :: (nat redis_db, unit, nat) redis_ops) sorted_iters (sample_state b) =
     (Inr (), \<lparr>redis = fold exec_command (drain_into_pipeline sorted_iters b) sample_db, inner = new_session\<rparr>)"
  by (simp add: garnet_commit_def sample_state_def mem_redis_def Let_def)



theorem set_removal_lost_witness:
  "\<exists>t. garnet_commit (mem_redis :: (nat redis_db, unit, nat) redis_ops) sorted_iters
      (sample_state (zset_remove ''z'' [1] (zset_add ''z'' [1] 6 (set_remove ''s'' [1] (set_add ''s'' [1] new_buffer))))) =
        (Inr (), t) \<and> [1] \<in> v_set (redis t ''s'') \<and> [1] \<in> dom (v_zset (redis t ''z''))"
proof -
  let ?b = "zset_remove ''z'' [1] (zset_add ''z'' [1] 6 (set_remove ''s'' [1] (set_add ''s'' [1] new_buffer)))
    :: nat write_buffer"
  let ?ops = "mem_redis :: (nat redis_db, unit, nat) redis_ops"
  have db: "db_typed key_types (redis_contents ?ops (redis (sample_state ?b)))"
    using sample_typed by (simp add: sample_state_def)
  have inn: "inner (sample_state ?b) = \<lparr>ses_buffer = Some ?b, ses_depth = 1\<rparr>" by (simp add: sample_state_def)
  have mem: "[1] \<in> v_set (redis_contents ?ops (redis (sample_state ?b)) ''s'')"
    "[1] \<in> dom (v_zset (redis_contents ?ops (redis (sample_state ?b)) ''z''))"
    by (simp_all add: sample_state_def sample_db_def)
  have kinds: "key_types ''s'' = SetKey" "key_types ''z'' = ZSetKey" by (simp_all add: key_types_def)
  from set_removal_lost [OF mem_redis.redis_service_axioms sorted_iters_ok kinds db mem inn sample_commit]
  show ?thesis by (simp add: sample_commit)
qed


end
