(* ===== verification/Middleware.thy ===== *)
theory Middleware
  imports Models
begin

text \<open>
  Source middleware, \<^verbatim>\<open>src/core/src/middleware/mod.rs\<close>: the registry of factories, the
  container of configured instances, pipelines of instances and the collection of pipelines
  per source. A middleware instance is an arbitrary action that turns one change into a list
  of changes; it may use the element index, which is part of the state \<open>'s\<close>.
\<close>

type_synonym ('s, 'm, 'v) middleware = "'v source_change \<Rightarrow> ('s, 'm, 'v source_change list) action"

text \<open>\<open>SourceMiddlewareConfig\<close>, with the factory specific part of type \<open>'c\<close>.\<close>

record 'c middleware_config =
  config_kind :: string
  config_name :: string
  config_body :: 'c

datatype 'f setup_error = UnknownMiddlewareKind string | UnknownMiddleware string | FactoryError 'f

record ('c, 'f, 'i) middleware_factory =
  factory_name :: string
  factory_create :: "'c middleware_config \<Rightarrow> 'f + 'i"

type_synonym ('c, 'f, 'i) registry = "string \<rightharpoonup> ('c, 'f, 'i) middleware_factory"

definition registry_register ::
    "('c, 'f, 'i) middleware_factory \<Rightarrow> ('c, 'f, 'i) registry \<Rightarrow> ('c, 'f, 'i) registry" where
  "registry_register f r = r(factory_name f \<mapsto> f)"

definition registry_get :: "('c, 'f, 'i) registry \<Rightarrow> string \<Rightarrow> ('c, 'f, 'i) middleware_factory option" where
  "registry_get r name = r name"

definition container_step ::
    "('c, 'f, 'i) registry \<Rightarrow> (string \<rightharpoonup> 'i) \<Rightarrow> 'c middleware_config \<Rightarrow> 'f setup_error + (string \<rightharpoonup> 'i)" where
  "container_step r m c =
     (case registry_get r (config_kind c) of
        None \<Rightarrow> Inl (UnknownMiddlewareKind (config_kind c))
      | Some f \<Rightarrow>
          (case factory_create f c of
             Inl e \<Rightarrow> Inl (FactoryError e)
           | Inr i \<Rightarrow> Inr (m(config_name c \<mapsto> i))))"

definition container_new ::
    "('c, 'f, 'i) registry \<Rightarrow> 'c middleware_config list \<Rightarrow> 'f setup_error + (string \<rightharpoonup> 'i)" where
  "container_new r configs = res_foldl (container_step r) Map.empty configs"

definition container_get :: "(string \<rightharpoonup> 'i) \<Rightarrow> string \<Rightarrow> 'i option" where
  "container_get c name = c name"

fun pipeline_new :: "(string \<rightharpoonup> 'i) \<Rightarrow> string list \<Rightarrow> 'f setup_error + 'i list" where
  "pipeline_new c [] = Inr []"
| "pipeline_new c (name # names) =
     (case container_get c name of
        None \<Rightarrow> Inl (UnknownMiddleware name)
      | Some i \<Rightarrow> res_bind (pipeline_new c names) (\<lambda>is. Inr (i # is)))"

text \<open>One stage: every change in turn, the results appended.\<close>

definition stage_step ::
    "('s, 'm, 'v) middleware \<Rightarrow> 'v source_change list \<Rightarrow> 'v source_change \<Rightarrow> ('s, 'm, 'v source_change list) action" where
  "stage_step mw acc c = act_bind (mw c) (\<lambda>cs. act_return (acc @ cs))"

definition run_stage :: "('s, 'm, 'v) middleware \<Rightarrow> 'v source_change list \<Rightarrow> ('s, 'm, 'v source_change list) action" where
  "run_stage mw = act_foldl (stage_step mw) []"

definition pipeline_process ::
    "('s, 'm, 'v) middleware list \<Rightarrow> 'v source_change \<Rightarrow> ('s, 'm, 'v source_change list) action" where
  "pipeline_process pipeline change = act_foldl (\<lambda>cs mw. run_stage mw cs) [change] pipeline"

type_synonym ('s, 'm, 'v) pipelines = "string \<rightharpoonup> ('s, 'm, 'v) middleware list"

definition pipelines_insert ::
    "string \<Rightarrow> ('s, 'm, 'v) middleware list \<Rightarrow> ('s, 'm, 'v) pipelines \<Rightarrow> ('s, 'm, 'v) pipelines" where
  "pipelines_insert source p m = m(source \<mapsto> p)"

definition pipelines_get :: "('s, 'm, 'v) pipelines \<Rightarrow> string \<Rightarrow> ('s, 'm, 'v) middleware list option" where
  "pipelines_get m source = m source"

text \<open>\<open>ContinuousQuery::execute_source_middleware\<close>.\<close>

definition execute_source_middleware ::
    "('s, 'm, 'v) pipelines \<Rightarrow> 'v source_change \<Rightarrow> ('s, 'm, 'v source_change list) action" where
  "execute_source_middleware ps change =
     (case pipelines_get ps (source_id (change_reference change)) of
        None \<Rightarrow> act_return [change]
      | Some pipeline \<Rightarrow> run_stage (pipeline_process pipeline) [change])"

subsection \<open>Construction\<close>

lemma pipeline_new_Inr:
  "pipeline_new c names = Inr is \<longleftrightarrow> map c names = map Some is"
proof (induction names arbitrary: "is")
  case (Cons n names)
  show ?case
  proof (cases "c n")
    case (Some i)
    show ?thesis
      using Cons.IH by (cases "is") (auto simp: container_get_def Some res_bind_Inr)
  qed (auto simp: container_get_def)
qed auto

lemma pipeline_new_total: "(\<exists>is. pipeline_new c names = Inr is) \<longleftrightarrow> set names \<subseteq> dom c"
proof (induction names)
  case (Cons n names)
  then show ?case by (cases "c n") (auto simp: container_get_def res_bind_Inr)
qed simp

lemma container_fold:
  assumes "res_foldl (container_step r) m configs = Inr c"
  shows "dom c = dom m \<union> config_name ` set configs"
    and "c n = Some i \<Longrightarrow> m n = Some i \<or> (\<exists>k \<in> set configs. \<exists>f. config_name k = n \<and>
       r (config_kind k) = Some f \<and> factory_create f k = Inr i)"
  using assms
proof (induction configs arbitrary: m)
  case (Cons k configs)
  {
    case 1
    then obtain t where t: "container_step r m k = Inr t" "res_foldl (container_step r) t configs = Inr c"
      by (auto simp: res_bind_Inr)
    from Cons.IH(1) [OF t(2)] t(1) show ?case
      by (auto simp: container_step_def registry_get_def split: option.splits sum.splits if_splits)
  next
    case 2
    then obtain t where t: "container_step r m k = Inr t" "res_foldl (container_step r) t configs = Inr c"
      by (auto simp: res_bind_Inr)
    from t(1) obtain f j where f: "r (config_kind k) = Some f" "factory_create f k = Inr j"
      and "t = m(config_name k \<mapsto> j)"
      by (auto simp: container_step_def registry_get_def split: option.splits sum.splits)
    with Cons.IH(2) [OF 2(1) t(2)] show ?case by (cases "n = config_name k") auto
  }
qed simp_all

subsection \<open>Composition\<close>

lemma stage_step_run:
  "stage_step mw acc c s = (case mw c s of (Inl e, t) \<Rightarrow> (Inl e, t) | (Inr cs, t) \<Rightarrow> (Inr (acc @ cs), t))"
  by (simp add: stage_step_def act_bind_def split: prod.split sum.split)

text \<open>The results of a stage are appended to what is there.\<close>

lemma stage_from:
  "act_foldl (stage_step mw) acc zs s =
     (case act_foldl (stage_step mw) [] zs s of (Inl e, t) \<Rightarrow> (Inl e, t) | (Inr b, t) \<Rightarrow> (Inr (acc @ b), t))"
proof (induction zs arbitrary: acc s)
  case (Cons z zs)
  obtain r t where r: "mw z s = (r, t)" by (cases "mw z s")
  show ?case
  proof (cases r)
    case (Inr cs)
    show ?thesis
      using Cons.IH [of "acc @ cs" t] Cons.IH [of cs t]
      by (simp add: act_bind_def stage_step_run r Inr split: prod.splits sum.splits)
  qed (simp add: act_bind_def stage_step_run r)
qed simp

lemma run_stage_append:
  "run_stage mw (xs @ ys) s =
     (case run_stage mw xs s of
        (Inl e, t) \<Rightarrow> (Inl e, t)
      | (Inr a, t) \<Rightarrow>
          (case run_stage mw ys t of (Inl e, u) \<Rightarrow> (Inl e, u) | (Inr b, u) \<Rightarrow> (Inr (a @ b), u)))"
proof (cases "act_foldl (stage_step mw) [] xs s")
  case (Pair r t)
  show ?thesis
  proof (cases r)
    case (Inr a)
    then show ?thesis using Pair stage_from [of mw a ys t] by (simp add: run_stage_def act_foldl_append)
  qed (simp add: run_stage_def act_foldl_append Pair)
qed

text \<open>Two pipelines in a row are one pipeline.\<close>

lemma pipeline_process_append:
  "pipeline_process (p @ q) c =
     act_bind (pipeline_process p c) (\<lambda>cs. act_foldl (\<lambda>cs mw. run_stage mw cs) cs q)"
  by (simp add: pipeline_process_def act_foldl_append)

lemma execute_keeps:
  assumes "\<And>p mw c. p \<in> ran ps \<Longrightarrow> mw \<in> set p \<Longrightarrow> act_keeps P (mw c)"
  shows "act_keeps P (execute_source_middleware ps change)"
proof -
  have stage: "act_keeps P (run_stage mw cs)" if "\<And>c. act_keeps P (mw c)" for mw cs
    unfolding run_stage_def stage_step_def by (intro act_keeps_intros that act_keeps_return)
  show ?thesis
    using assms unfolding execute_source_middleware_def pipelines_get_def pipeline_process_def
    by (auto split: option.split intro!: stage act_keeps_foldl intro: ranI)
qed

end
