(* ===== verification/Continuous_Query.thy ===== *)
theory Continuous_Query
  imports Evaluation_Context Path_Solver Garnet_Session Middleware
begin

text \<open>
  The continuous query, \<^verbatim>\<open>src/core/src/query/continuous_query.rs\<close>: how a source change
  becomes the changes of match solutions, how these pass through the query parts, and how the
  whole is one session.

  The collaborators are the fields of \<open>query_env\<close>: the element index and the future queue of
  the backend, the expression and part evaluators, the middleware pipelines, the session
  control, the hash functions and the iteration orders of the hash maps keyed by slot and by
  hash. Every collaborator works on the one state \<open>'s\<close> of the backend. The lock that
  serializes the entry points makes each of them one atomic action.
\<close>

subsection \<open>Collaborators\<close>

datatype ('e, 'm, 'o) evaluation_error =
    EvIndex 'e
  | EvMiddleware 'm
  | DivideByZero
  | EvPanic
  | EvOther 'o

record ('s, 'e, 'm, 'o, 'f, 'd, 'x, 'v) query_env =
  spooky :: signature_hash
  reference_hash :: "element_reference \<Rightarrow> u64"
  group_hash :: "('f, 'd, 'x, 'v) variable_value option list \<Rightarrow> u64"
  value_eq :: "('f, 'd, 'x, 'v) variable_value \<Rightarrow> ('f, 'd, 'x, 'v) variable_value \<Rightarrow> bool"
  value_eq_for_groupby :: "('f, 'd, 'x, 'v) variable_value \<Rightarrow> ('f, 'd, 'x, 'v) variable_value \<Rightarrow> bool"
  slot_iter :: "nat iter"
  hash_iter :: "u64 iter"
  index_get_element :: "element_reference \<Rightarrow> 's \<Rightarrow> 'e + 'v element option"
  index_set_element :: "'v element \<Rightarrow> nat list \<Rightarrow> ('s, 'e, unit) action"
  index_delete_element :: "element_reference \<Rightarrow> ('s, 'e, unit) action"
  index_lookups :: "'s \<Rightarrow> ('e, 'v) index_ops"
  future_pop :: "('s, 'e, future_element_ref option) action"
  evaluate_predicate ::
    "(('f, 'd, 'x, 'v) variable_value, 'x, 'v) expression_context \<Rightarrow> 'x \<Rightarrow>
     ('s, ('e, 'm, 'o) evaluation_error, bool) action"
  evaluate_part ::
    "('f, 'd, 'x, 'v) variable_value part_context \<Rightarrow> nat \<Rightarrow> 'x query_part \<Rightarrow> 'v change_context \<Rightarrow>
     ('s, ('e, 'm, 'o) evaluation_error, ('f, 'd, 'x, 'v) variable_value part_context list) action"
  source_pipelines :: "('s, 'm, 'v) pipelines"
  session_control :: "('s, 'e) session_ops"
  query_match_path :: "'x match_path"
  query_parts :: "'x query_part list"

subsection \<open>Matching an element to slots\<close>

fun check_predicates ::
    "('s, 'e, 'm, 'o, 'f, 'd, 'x, 'v) query_env \<Rightarrow>
     (('f, 'd, 'x, 'v) variable_value, 'x, 'v) expression_context \<Rightarrow> 'x list \<Rightarrow>
     ('s, ('e, 'm, 'o) evaluation_error, bool) action" where
  "check_predicates env ctx [] = act_return True"
| "check_predicates env ctx (p # ps) =
     act_bind (evaluate_predicate env ctx p)
       (\<lambda>b. if b then check_predicates env ctx ps else act_return False)"

definition label_match :: "'x slot_element_spec \<Rightarrow> 'v element \<Rightarrow> bool" where
  "label_match sp e \<longleftrightarrow>
     spec_labels sp = [] \<or> list_ex (\<lambda>l. List.member (labels (get_metadata e)) l) (spec_labels sp)"

definition match_element_to_slot ::
    "('s, 'e, 'm, 'o, 'f, 'd, 'x, 'v) query_env \<Rightarrow> ('f, 'd, 'x, 'v) query_variables \<Rightarrow> query_clock \<Rightarrow>
     'x slot_element_spec \<Rightarrow> 'v element \<Rightarrow> ('s, ('e, 'm, 'o) evaluation_error, bool) action" where
  "match_element_to_slot env base clock sp e =
     (if \<not> label_match sp e then act_return False
      else
        let v = to_expression_variable e;
            vars = (case annotation sp of Some a \<Rightarrow> bt_insert a v base | None \<Rightarrow> base);
            vars' = bt_insert '''' v vars;
            ctx = from_slot (reference_hash env) vars' clock (reference (get_metadata e))
        in check_predicates env ctx (predicates sp))"

definition get_slots_with_affinity ::
    "('s, 'e, 'm, 'o, 'f, 'd, 'x, 'v) query_env \<Rightarrow> ('f, 'd, 'x, 'v) query_variables \<Rightarrow> 'v element \<Rightarrow>
     query_clock \<Rightarrow> ('s, ('e, 'm, 'o) evaluation_error, nat list) action" where
  "get_slots_with_affinity env base e clock =
     act_foldl (\<lambda>acc (n, sl).
         act_bind (match_element_to_slot env base clock (spec sl) e)
           (\<lambda>b. act_return (if b then acc @ [n] else acc)))
       [] (enumerate 0 (slots (query_match_path env)))"

subsection \<open>Solutions around an element\<close>

fun solve_result ::
    "'e solve_failure + (u64 \<rightharpoonup> 'v solution) \<Rightarrow> ('e, 'm, 'o) evaluation_error + (u64 \<rightharpoonup> 'v solution)" where
  "solve_result (Inr m) = Inr m"
| "solve_result (Inl (SolveError e)) = Inl (EvIndex e)"
| "solve_result (Inl SolvePanic) = Inl EvPanic"
| "solve_result (Inl SolveBlocked) = Inl EvPanic"

definition solve_slots ::
    "('s, 'e, 'm, 'o, 'f, 'd, 'x, 'v) query_env \<Rightarrow> 'v element \<Rightarrow> nat list \<Rightarrow>
     ('s, ('e, 'm, 'o) evaluation_error, u64 \<rightharpoonup> 'v solution) action" where
  "solve_slots env e =
     act_foldl (\<lambda>acc n.
         act_bind (act_read (\<lambda>s. solve_result
             (solve (spooky env) (slot_iter env) (index_lookups env s) (query_match_path env) e n)))
           (\<lambda>m. act_return (acc ++ m)))
       Map.empty"

definition resolve_solutions ::
    "('s, 'e, 'm, 'o, 'f, 'd, 'x, 'v) query_env \<Rightarrow> 'v element \<Rightarrow> nat list \<Rightarrow> bool \<Rightarrow>
     ('s, ('e, 'm, 'o) evaluation_error, u64 \<rightharpoonup> 'v solution) action" where
  "resolve_solutions env e affinity_slots update_index =
     act_bind
       (if update_index then act_map_err EvIndex (index_set_element env e affinity_slots) else act_return ())
       (\<lambda>_. solve_slots env e affinity_slots)"

definition find_solutions ::
    "('s, 'e, 'm, 'o, 'f, 'd, 'x, 'v) query_env \<Rightarrow> ('f, 'd, 'x, 'v) query_variables \<Rightarrow> 'v element \<Rightarrow>
     query_clock \<Rightarrow> bool \<Rightarrow> ('s, ('e, 'm, 'o) evaluation_error, u64 \<rightharpoonup> 'v solution) action" where
  "find_solutions env base e clock update_index =
     act_bind (get_slots_with_affinity env base e clock)
       (\<lambda>ns. resolve_solutions env e ns update_index)"

text \<open>The blank solution of each solution that has one, under the signature of the solution.\<close>

definition blank_solutions ::
    "('s, 'e, 'm, 'o, 'f, 'd, 'x, 'v) query_env \<Rightarrow> (u64 \<rightharpoonup> 'v solution) \<Rightarrow> (u64 \<rightharpoonup> 'v solution)" where
  "blank_solutions env sols sig =
     Option.bind (sols sig)
       (get_empty_optional_solution (spooky env) (slot_iter env) (query_match_path env))"

subsection \<open>Changes of solutions\<close>

record ('w, 'v) solution_changes =
  changes :: "(u64 \<times> 'w part_context) list"
  sc_anchor_element :: "'v element option"
  sc_before_clock :: "query_clock option"
  sc_before_anchor_element :: "'v element option"
  sc_is_future_reprocess :: bool

definition new_solution_changes :: "('w, 'v) solution_changes" where
  "new_solution_changes =
     \<lparr>changes = [], sc_anchor_element = None, sc_before_clock = None, sc_before_anchor_element = None,
      sc_is_future_reprocess = False\<rparr>"

text \<open>The comparison of the solutions before and after the change.\<close>

definition solution_diff ::
    "u64 iter \<Rightarrow> (u64 \<rightharpoonup> 'w row) \<Rightarrow> (u64 \<rightharpoonup> 'w row) \<Rightarrow> (u64 \<times> 'w part_context) list" where
  "solution_diff it before after =
     map (\<lambda>sig. (sig,
            case after sig of
              Some a \<Rightarrow> Updating (the (before sig)) a 0
            | None \<Rightarrow> Removing (the (before sig)) 0))
       (it (dom before)) @
     map (\<lambda>sig. (sig, Adding (the (after sig)) 0))
       (filter (\<lambda>sig. before sig = None) (it (dom after)))"

text \<open>
  Each kind of change yields the solutions before it, the solutions after it and the rest of
  the result; only an insertion, an update and a deletion write to the element index.
\<close>

type_synonym ('f, 'd, 'x, 'v) change_solutions =
  "(u64 \<rightharpoonup> 'v solution) \<times> (u64 \<rightharpoonup> 'v solution) \<times> (('f, 'd, 'x, 'v) variable_value, 'v) solution_changes"

definition insert_solutions ::
    "('s, 'e, 'm, 'o, 'f, 'd, 'x, 'v) query_env \<Rightarrow> ('f, 'd, 'x, 'v) query_variables \<Rightarrow> query_clock \<Rightarrow>
     'v element \<Rightarrow> ('s, ('e, 'm, 'o) evaluation_error, ('f, 'd, 'x, 'v) change_solutions) action" where
  "insert_solutions env base clock e =
     act_bind (find_solutions env base e clock True)
       (\<lambda>sols. act_return (blank_solutions env sols, sols, new_solution_changes\<lparr>sc_anchor_element := Some e\<rparr>))"

definition update_solutions ::
    "('s, 'e, 'm, 'o, 'f, 'd, 'x, 'v) query_env \<Rightarrow> ('f, 'd, 'x, 'v) query_variables \<Rightarrow> query_clock \<Rightarrow>
     'v element \<Rightarrow> ('s, ('e, 'm, 'o) evaluation_error, ('f, 'd, 'x, 'v) change_solutions) action" where
  "update_solutions env base clock e =
     act_bind (act_map_err EvIndex (act_read (index_get_element env (get_reference e))))
       (\<lambda>prev. act_bind
          (case prev of
             None \<Rightarrow> act_return (Map.empty, e, new_solution_changes)
           | Some p \<Rightarrow>
               let bc = \<lparr>clock_transaction_time = get_effective_from p, clock_realtime = clock_realtime clock\<rparr>
               in act_bind (find_solutions env base p bc False)
                    (\<lambda>sols. case merge_missing_properties e p of
                        None \<Rightarrow> act_fail EvPanic
                      | Some e' \<Rightarrow> act_return (sols, e',
                          new_solution_changes\<lparr>sc_before_clock := Some bc, sc_before_anchor_element := Some p\<rparr>)))
          (\<lambda>(before, e', r). act_bind (find_solutions env base e' clock True)
             (\<lambda>sols. act_return (before, sols, r\<lparr>sc_anchor_element := Some e'\<rparr>))))"

definition delete_solutions ::
    "('s, 'e, 'm, 'o, 'f, 'd, 'x, 'v) query_env \<Rightarrow> ('f, 'd, 'x, 'v) query_variables \<Rightarrow> query_clock \<Rightarrow>
     element_metadata \<Rightarrow> ('s, ('e, 'm, 'o) evaluation_error, ('f, 'd, 'x, 'v) change_solutions) action" where
  "delete_solutions env base clock m =
     act_bind (act_map_err EvIndex (act_read (index_get_element env (reference m))))
       (\<lambda>prev. case prev of
          None \<Rightarrow> act_return (Map.empty, Map.empty, new_solution_changes)
        | Some p \<Rightarrow>
            let bc = \<lparr>clock_transaction_time = get_effective_from p, clock_realtime = clock_realtime clock\<rparr>
            in act_bind (find_solutions env base p bc False)
                 (\<lambda>sols. act_bind (act_map_err EvIndex (index_delete_element env (reference m)))
                    (\<lambda>_. act_return (sols, blank_solutions env sols,
                       new_solution_changes\<lparr>sc_before_clock := Some bc, sc_before_anchor_element := Some p\<rparr>))))"

definition future_solutions ::
    "('s, 'e, 'm, 'o, 'f, 'd, 'x, 'v) query_env \<Rightarrow> ('f, 'd, 'x, 'v) query_variables \<Rightarrow> query_clock \<Rightarrow>
     future_element_ref \<Rightarrow> ('s, ('e, 'm, 'o) evaluation_error, ('f, 'd, 'x, 'v) change_solutions) action" where
  "future_solutions env base clock fr =
     (let r = new_solution_changes\<lparr>sc_is_future_reprocess := True\<rparr> in
      act_bind (act_map_err EvIndex (act_read (index_get_element env (element_ref fr))))
       (\<lambda>prev. case prev of
          None \<Rightarrow> act_return (Map.empty, Map.empty, r)
        | Some p \<Rightarrow>
            if due_time fr \<le> get_effective_from p then act_return (Map.empty, Map.empty, r)
            else
              let bc = \<lparr>clock_transaction_time = get_effective_from p, clock_realtime = get_effective_from p\<rparr>
              in act_bind (find_solutions env base p bc False)
                   (\<lambda>before. act_bind (find_solutions env base p clock False)
                      (\<lambda>after. act_return (before, after,
                         r\<lparr>sc_before_clock := Some bc, sc_before_anchor_element := Some p,
                           sc_anchor_element := Some p\<rparr>)))))"

definition change_solutions_of ::
    "('s, 'e, 'm, 'o, 'f, 'd, 'x, 'v) query_env \<Rightarrow> ('f, 'd, 'x, 'v) query_variables \<Rightarrow> 'v source_change \<Rightarrow>
     query_clock \<Rightarrow> ('s, ('e, 'm, 'o) evaluation_error, ('f, 'd, 'x, 'v) change_solutions) action" where
  "change_solutions_of env base change clock =
     (case change of
        Insert e \<Rightarrow> insert_solutions env base clock e
      | Update e \<Rightarrow> update_solutions env base clock e
      | Delete m \<Rightarrow> delete_solutions env base clock m
      | Future fr \<Rightarrow> future_solutions env base clock fr)"

definition solution_rows ::
    "('s, 'e, 'm, 'o, 'f, 'd, 'x, 'v) query_env \<Rightarrow> ('f, 'd, 'x, 'v) query_variables \<Rightarrow> (u64 \<rightharpoonup> 'v solution) \<Rightarrow>
     (u64 \<rightharpoonup> ('f, 'd, 'x, 'v) variable_value row)" where
  "solution_rows env base sols sig = map_option (into_query_variables (query_match_path env) base) (sols sig)"

definition build_solution_changes ::
    "('s, 'e, 'm, 'o, 'f, 'd, 'x, 'v) query_env \<Rightarrow> ('f, 'd, 'x, 'v) query_variables \<Rightarrow> 'v source_change \<Rightarrow>
     query_clock \<Rightarrow>
     ('s, ('e, 'm, 'o) evaluation_error, (('f, 'd, 'x, 'v) variable_value, 'v) solution_changes) action" where
  "build_solution_changes env base change clock =
     act_bind (change_solutions_of env base change clock)
       (\<lambda>(before, after, r). act_return (r\<lparr>changes :=
          solution_diff (hash_iter env) (solution_rows env base before) (solution_rows env base after)\<rparr>))"

subsection \<open>Collapsing aggregation results\<close>

definition extract_grouping_value_hash :: "('w option list \<Rightarrow> u64) \<Rightarrow> string list \<Rightarrow> 'w row \<Rightarrow> u64" where
  "extract_grouping_value_hash hash keys vars = hash (map (bt_get vars) keys)"

type_synonym 'w collapsed = "u64 \<rightharpoonup> 'w part_context \<times> u64"

text \<open>An entry is only ever an aggregation; the code drops an entry of another kind.\<close>

fun collapsed_insert ::
    "('w option list \<Rightarrow> u64) \<Rightarrow> 'w part_context \<Rightarrow> 'w collapsed \<Rightarrow> 'w collapsed" where
  "collapsed_insert hash (Aggregation before after keys default_before default_after _) d =
     (let after_key = extract_grouping_value_hash hash keys after;
          before_key = (case before of Some b \<Rightarrow> extract_grouping_value_hash hash keys b | None \<Rightarrow> after_key)
      in case d after_key of
           Some (Aggregation eb _ _ edb _ _, ebk) \<Rightarrow>
             d(after_key \<mapsto> (Aggregation eb after keys edb default_after after_key, ebk))
         | Some _ \<Rightarrow> d(after_key := None)
         | None \<Rightarrow>
             d(after_key \<mapsto> (Aggregation before after keys default_before default_after after_key, before_key)))"
| "collapsed_insert hash _ d = d"

definition into_vec_with_context ::
    "u64 iter \<Rightarrow> 'v change_context \<Rightarrow> 'w collapsed \<Rightarrow> ('w part_context \<times> 'v change_context) list" where
  "into_vec_with_context it cc d =
     map (\<lambda>k. (fst (the (d k)),
               cc\<lparr>before_grouping_hash := snd (the (d k)), after_grouping_hash := k\<rparr>)) (it (dom d))"

fun set_row_signature :: "u64 \<Rightarrow> 'w part_context \<Rightarrow> 'w part_context" where
  "set_row_signature k (Aggregation b a g db da r) = Aggregation b a g db da k"
| "set_row_signature k other = other"

definition into_result_vec :: "u64 iter \<Rightarrow> 'w collapsed \<Rightarrow> 'w part_context list" where
  "into_result_vec it d = map (\<lambda>k. set_row_signature k (fst (the (d k)))) (it (dom d))"

subsection \<open>Projection through the query parts\<close>

fun is_aggregation :: "'w part_context \<Rightarrow> bool" where
  "is_aggregation (Aggregation b a g db da r) = True"
| "is_aggregation _ = False"

definition collapse_part ::
    "('w option list \<Rightarrow> u64) \<Rightarrow> u64 iter \<Rightarrow> 'v change_context \<Rightarrow> 'w part_context list \<Rightarrow>
     ('w part_context \<times> 'v change_context) list" where
  "collapse_part hash it cc news =
     map (\<lambda>c. (c, cc)) (filter (\<lambda>c. \<not> is_aggregation c \<and> c \<noteq> Noop) news) @
     into_vec_with_context it cc (fold (collapsed_insert hash) (filter is_aggregation news) Map.empty)"

definition project_part ::
    "('s, 'e, 'm, 'o, 'f, 'd, 'x, 'v) query_env \<Rightarrow> nat \<Rightarrow> 'x query_part \<Rightarrow>
     (('f, 'd, 'x, 'v) variable_value part_context \<times> 'v change_context) list \<Rightarrow>
     ('s, ('e, 'm, 'o) evaluation_error,
      (('f, 'd, 'x, 'v) variable_value part_context \<times> 'v change_context) list) action" where
  "project_part env part_num part =
     act_foldl (\<lambda>acc (pc, cc).
         act_bind (evaluate_part env pc part_num part cc)
           (\<lambda>news. act_return (acc @ collapse_part (group_hash env) (hash_iter env) cc news)))
       []"

fun final_signature :: "'w part_context \<times> 'v change_context \<Rightarrow> 'w part_context" where
  "final_signature (Adding a _, cc) = Adding a (after_grouping_hash cc)"
| "final_signature (Updating b a _, cc) = Updating b a (after_grouping_hash cc)"
| "final_signature (Removing b _, cc) = Removing b (before_grouping_hash cc)"
| "final_signature (Aggregation b a g db da _, cc) = Aggregation b a g db da (after_grouping_hash cc)"
| "final_signature (Noop, cc) = Noop"

definition project_solution ::
    "('s, 'e, 'm, 'o, 'f, 'd, 'x, 'v) query_env \<Rightarrow> ('f, 'd, 'x, 'v) variable_value part_context \<Rightarrow>
     'v change_context \<Rightarrow>
     ('s, ('e, 'm, 'o) evaluation_error, ('f, 'd, 'x, 'v) variable_value part_context list) action" where
  "project_solution env pc cc =
     act_bind
       (act_foldl (\<lambda>(contexts, result) (n, part).
            act_bind (project_part env n part contexts) (\<lambda>r. act_return (r, r)))
          ([(pc, cc)], []) (enumerate 1 (query_parts env)))
       (\<lambda>(contexts, result). act_return (map final_signature result))"

subsection \<open>Processing changes\<close>

text \<open>Which results are reported, and which are collapsed first.\<close>

definition unchanged ::
    "('s, 'e, 'm, 'o, 'f, 'd, 'x, 'v) query_env \<Rightarrow> ('f, 'd, 'x, 'v) variable_value row \<Rightarrow>
     ('f, 'd, 'x, 'v) variable_value row \<Rightarrow> bool" where
  "unchanged env = query_variables_unchanged (value_eq env) (value_eq_for_groupby env)"

fun report ::
    "('s, 'e, 'm, 'o, 'f, 'd, 'x, 'v) query_env \<Rightarrow> ('f, 'd, 'x, 'v) variable_value part_context \<Rightarrow>
     ('f, 'd, 'x, 'v) variable_value part_context list \<times> ('f, 'd, 'x, 'v) variable_value collapsed \<Rightarrow>
     ('f, 'd, 'x, 'v) variable_value part_context list \<times> ('f, 'd, 'x, 'v) variable_value collapsed" where
  "report env (Aggregation b a g db da r) (res, agg) =
     (if (case b of Some b' \<Rightarrow> unchanged env b' a \<and> \<not> db | None \<Rightarrow> False) then (res, agg)
      else (res, collapsed_insert (group_hash env) (Aggregation b a g db da r) agg))"
| "report env (Updating b a r) (res, agg) =
     (if unchanged env b a then (res, agg) else (res @ [Updating b a r], agg))"
| "report env c (res, agg) = (res @ [c], agg)"

definition change_context_of ::
    "query_clock \<Rightarrow> query_clock \<Rightarrow> ('w, 'v) solution_changes \<Rightarrow> u64 \<Rightarrow> 'v change_context" where
  "change_context_of bc ac r sig =
     \<lparr>cc_solution_signature = sig, before_anchor_element = sc_before_anchor_element r,
      after_anchor_element = sc_anchor_element r, before_clock = bc, after_clock = ac,
      is_future_reprocess = sc_is_future_reprocess r,
      before_grouping_hash = sig, after_grouping_hash = sig\<rparr>"

text \<open>A division by zero skips the solution; any other error ends the processing.\<close>

definition project_or_skip ::
    "('s, 'e, 'm, 'o, 'f, 'd, 'x, 'v) query_env \<Rightarrow> ('f, 'd, 'x, 'v) variable_value part_context \<Rightarrow>
     'v change_context \<Rightarrow>
     ('s, ('e, 'm, 'o) evaluation_error, ('f, 'd, 'x, 'v) variable_value part_context list) action" where
  "project_or_skip env pc cc s =
     (case project_solution env pc cc s of
        (Inl DivideByZero, t) \<Rightarrow> (Inr [], t)
      | r \<Rightarrow> r)"

definition process_change ::
    "('s, 'e, 'm, 'o, 'f, 'd, 'x, 'v) query_env \<Rightarrow> 'v source_change \<Rightarrow>
     ('s, ('e, 'm, 'o) evaluation_error, ('f, 'd, 'x, 'v) variable_value part_context list) action" where
  "process_change env change =
     (let ac = from_source_change change in
      act_bind (build_solution_changes env [] change ac)
        (\<lambda>r. let bc = (case sc_before_clock r of Some c \<Rightarrow> c | None \<Rightarrow> ac) in
           act_bind
             (act_foldl (\<lambda>acc (sig, pc).
                  act_bind (project_or_skip env pc (change_context_of bc ac r sig))
                    (\<lambda>cs. act_return (fold (report env) cs acc)))
                ([], Map.empty) (changes r))
             (\<lambda>(res, agg). act_return (res @ into_result_vec (hash_iter env) agg))))"

definition process_changes_inner ::
    "('s, 'e, 'm, 'o, 'f, 'd, 'x, 'v) query_env \<Rightarrow> 'v source_change list \<Rightarrow>
     ('s, ('e, 'm, 'o) evaluation_error, ('f, 'd, 'x, 'v) variable_value part_context list) action" where
  "process_changes_inner env =
     act_foldl (\<lambda>acc c. act_bind (process_change env c) (\<lambda>r. act_return (acc @ r))) []"

definition process_source_change ::
    "('s, 'e, 'm, 'o, 'f, 'd, 'x, 'v) query_env \<Rightarrow> 'v source_change \<Rightarrow>
     ('s, ('e, 'm, 'o) evaluation_error, ('f, 'd, 'x, 'v) variable_value part_context list) action" where
  "process_source_change env change =
     session_guard EvIndex (session_control env)
       (act_bind (act_map_err EvMiddleware (execute_source_middleware (source_pipelines env) change))
          (process_changes_inner env))"

definition process_source_change_with_hook ::
    "('s, 'e, 'm, 'o, 'f, 'd, 'x, 'v) query_env \<Rightarrow>
     (('f, 'd, 'x, 'v) variable_value part_context list \<Rightarrow> ('s, 'e, unit) action) \<Rightarrow> 'v source_change \<Rightarrow>
     ('s, ('e, 'm, 'o) evaluation_error, ('f, 'd, 'x, 'v) variable_value part_context list) action" where
  "process_source_change_with_hook env hook change =
     session_guard EvIndex (session_control env)
       (act_bind (act_map_err EvMiddleware (execute_source_middleware (source_pipelines env) change))
          (\<lambda>cs. act_bind (process_changes_inner env cs)
             (\<lambda>res. act_bind (act_map_err EvIndex (hook res)) (\<lambda>_. act_return res))))"

definition process_due_futures_with_hook ::
    "('s, 'e, 'm, 'o, 'f, 'd, 'x, 'v) query_env \<Rightarrow>
     (('f, 'd, 'x, 'v) variable_value part_context list \<Rightarrow> string \<Rightarrow> ('s, 'e, unit) action) \<Rightarrow>
     ('s, ('e, 'm, 'o) evaluation_error,
      (('f, 'd, 'x, 'v) variable_value part_context list \<times> string) option) action" where
  "process_due_futures_with_hook env hook =
     session_guard EvIndex (session_control env)
       (act_bind (act_map_err EvIndex (future_pop env))
          (\<lambda>popped. case popped of
             None \<Rightarrow> act_return None
           | Some fr \<Rightarrow>
               let source = source_id (element_ref fr) in
               act_bind (act_map_err EvMiddleware
                    (execute_source_middleware (source_pipelines env) (Future fr)))
                 (\<lambda>cs. act_bind (process_changes_inner env cs)
                    (\<lambda>res. act_bind (act_map_err EvIndex (hook res source))
                       (\<lambda>_. act_return (Some (res, source)))))))"

definition process_due_futures ::
    "('s, 'e, 'm, 'o, 'f, 'd, 'x, 'v) query_env \<Rightarrow>
     ('s, ('e, 'm, 'o) evaluation_error,
      (('f, 'd, 'x, 'v) variable_value part_context list \<times> string) option) action" where
  "process_due_futures env = process_due_futures_with_hook env (\<lambda>_ _. act_return ())"

subsection \<open>The comparison of solutions\<close>

fun apply_change :: "u64 \<times> 'w part_context \<Rightarrow> (u64 \<rightharpoonup> 'w row) \<Rightarrow> (u64 \<rightharpoonup> 'w row)" where
  "apply_change (sig, Adding a _) m = m(sig \<mapsto> a)"
| "apply_change (sig, Updating b a _) m = m(sig \<mapsto> a)"
| "apply_change (sig, Removing b _) m = m(sig := None)"
| "apply_change (sig, _) m = m"

definition diff_entry :: "(u64 \<rightharpoonup> 'w row) \<Rightarrow> (u64 \<rightharpoonup> 'w row) \<Rightarrow> u64 \<Rightarrow> 'w part_context option" where
  "diff_entry before after sig =
     (case (before sig, after sig) of
        (Some b, Some a) \<Rightarrow> Some (Updating b a 0)
      | (Some b, None) \<Rightarrow> Some (Removing b 0)
      | (None, Some a) \<Rightarrow> Some (Adding a 0)
      | (None, None) \<Rightarrow> None)"

lemma solution_diff_mem:
  assumes "iter_ok it" "finite (dom before)" "finite (dom after)"
  shows "(sig, c) \<in> set (solution_diff it before after) \<longleftrightarrow> diff_entry before after sig = Some c"
proof -
  have "set (it (dom before)) = dom before" "set (it (dom after)) = dom after"
    using assms by (simp_all add: iter_ok_def)
  then show ?thesis
    by (cases "before sig"; cases "after sig")
      (auto simp: solution_diff_def diff_entry_def image_iff dom_def)
qed

lemma solution_diff_distinct:
  assumes "iter_ok it" "finite (dom before)" "finite (dom after)"
  shows "distinct (map fst (solution_diff it before after))"
proof -
  have "set (it (dom before)) = dom before" "distinct (it (dom before))" "distinct (it (dom after))"
    using assms by (simp_all add: iter_ok_def)
  then show ?thesis by (auto simp: solution_diff_def comp_def dom_def)
qed

text \<open>Applying changes of distinct rows, row by row.\<close>

lemma fold_apply_change:
  assumes "distinct (map fst cs)"
  shows "fold apply_change cs m sig =
    (case map_of cs sig of None \<Rightarrow> m sig | Some c \<Rightarrow> apply_change (sig, c) m sig)"
  using assms
proof (induction cs arbitrary: m)
  case (Cons x cs)
  obtain k c where x: "x = (k, c)" by (cases x)
  have other: "apply_change (k, c) m j = m j" if "j \<noteq> k" for j
    using that by (cases c) auto
  have same: "apply_change (j, d) m j = apply_change (j, d) m' j" if "m j = m' j" for j d and m m' :: "u64 \<rightharpoonup> 'a row"
    using that by (cases d) auto
  show ?case
  proof (cases "sig = k")
    case True
    then have "map_of cs sig = None" using Cons.prems by (auto simp: x map_of_eq_None_iff)
    with Cons True show ?thesis by (simp add: x)
  next
    case False
    then show ?thesis
      using Cons other [of sig] same [of "apply_change (k, c) m" sig m]
      by (simp add: x split: option.split)
  qed
qed simp

text \<open>
  C24. The changes of the match solutions. The comparison reports every affected solution once,
  as an update when there is a solution with its signature before and after the change, as a
  removal when there is one only before and as an addition when there is one only after; and
  applying the reported changes to any table of rows that holds the solutions before the
  change yields the table with the solutions after it, all other rows as they were.
\<close>

theorem solution_diff_exact:
  assumes it: "iter_ok it" and fin: "finite (dom before)" "finite (dom after)"
    and rows: "\<And>sig. sig \<in> dom before \<union> dom after \<Longrightarrow> rows sig = before sig"
  shows "distinct (map fst (solution_diff it before after)) \<and>
    (\<forall>sig c. (sig, c) \<in> set (solution_diff it before after) \<longleftrightarrow> diff_entry before after sig = Some c) \<and>
    fold apply_change (solution_diff it before after) rows =
      (\<lambda>sig. if sig \<in> dom before \<union> dom after then after sig else rows sig)"
proof (intro conjI)
  show d: "distinct (map fst (solution_diff it before after))"
    by (rule solution_diff_distinct [OF it fin])
  show m: "\<forall>sig c. (sig, c) \<in> set (solution_diff it before after) \<longleftrightarrow> diff_entry before after sig = Some c"
    by (simp add: solution_diff_mem [OF it fin])
  have e: "map_of (solution_diff it before after) sig = diff_entry before after sig" for sig
    using m d by (cases "diff_entry before after sig") (force simp: map_of_eq_None_iff, simp)
  show "fold apply_change (solution_diff it before after) rows =
      (\<lambda>sig. if sig \<in> dom before \<union> dom after then after sig else rows sig)"
  proof (rule ext)
    fix sig
    show "fold apply_change (solution_diff it before after) rows sig =
        (if sig \<in> dom before \<union> dom after then after sig else rows sig)"
      unfolding fold_apply_change [OF d] e
      by (cases "before sig"; cases "after sig") (auto simp: diff_entry_def dom_def)
  qed
qed

theorem solution_diff_exact_witness:
  "fold apply_change (solution_diff sorted_list_of_set [1::u64 \<mapsto> [(''n'', True)], 2 \<mapsto> []] [2 \<mapsto> [(''n'', False)]])
     [1 \<mapsto> [(''n'', True)], 2 \<mapsto> [], 3 \<mapsto> []] = [2 \<mapsto> [(''n'', False)], 3 \<mapsto> []]"
proof -
  let ?b = "[1::u64 \<mapsto> [(''n'', True)], 2 \<mapsto> []]"
  let ?a = "[2::u64 \<mapsto> [(''n'', False)]]"
  let ?r = "[1::u64 \<mapsto> [(''n'', True)], 2 \<mapsto> [], 3 \<mapsto> []]"
  have "?r sig = ?b sig" if "sig \<in> dom ?b \<union> dom ?a" for sig
    using that by (auto split: if_splits)
  then have "fold apply_change (solution_diff sorted_list_of_set ?b ?a) ?r =
      (\<lambda>sig. if sig \<in> dom ?b \<union> dom ?a then ?a sig else ?r sig)"
    using solution_diff_exact [OF iter_ok_sorted, of ?b ?a ?r] by simp
  also have "\<dots> = [2 \<mapsto> [(''n'', False)], 3 \<mapsto> []]" by (auto simp: fun_eq_iff)
  finally show ?thesis .
qed

subsection \<open>Which changes a source change can cause\<close>

lemma collect_finite: "collect xs m = Inr m' \<Longrightarrow> finite (dom m) \<Longrightarrow> finite (dom m')"
  by (induction xs m rule: collect.induct) auto

lemma solve_finite: "solve h it idx mp e n = Inr m \<Longrightarrow> finite (dom m)"
  by (auto simp: solve_def collect_finite split: option.splits)

lemma solve_result_Inr: "solve_result r = Inr m \<longleftrightarrow> r = Inr m"
  by (induction r rule: solve_result.induct) auto

lemma find_solutions_finite:
  assumes "find_solutions env base e clock upd s = (Inr m, t)"
  shows "finite (dom m)"
proof -
  from assms obtain ns u where "solve_slots env e ns u = (Inr m, t)"
    by (auto simp: find_solutions_def resolve_solutions_def)
  then show ?thesis
    unfolding solve_slots_def
    by (rule act_foldl_invariant [where P = "\<lambda>m. finite (dom m)"])
      (auto simp: solve_result_Inr dest: solve_finite)
qed

lemma blank_solutions_dom: "dom (blank_solutions env sols) \<subseteq> dom sols"
  by (auto simp: blank_solutions_def bind_eq_Some_conv)

lemma solution_rows_dom [simp]: "dom (solution_rows env base sols) = dom sols"
  by (auto simp: solution_rows_def dom_def)

lemma solution_rows_empty: "solution_rows env base Map.empty = Map.empty"
  by (simp add: solution_rows_def fun_eq_iff)

text \<open>The solutions before and after each kind of change.\<close>

lemma change_solutions_of_dom:
  assumes "change_solutions_of env base change clock s = (Inr (before, after, r), t)"
  shows "finite (dom before)" "finite (dom after)"
    "(\<exists>e. change = Insert e) \<Longrightarrow> dom before \<subseteq> dom after"
    "(\<exists>m. change = Delete m) \<Longrightarrow> dom after \<subseteq> dom before"
    "sc_is_future_reprocess r \<longleftrightarrow> (\<exists>fr. change = Future fr)"
proof -
  have "finite (dom before) \<and> finite (dom after) \<and>
    ((\<exists>e. change = Insert e) \<longrightarrow> dom before \<subseteq> dom after) \<and>
    ((\<exists>m. change = Delete m) \<longrightarrow> dom after \<subseteq> dom before) \<and>
    (sc_is_future_reprocess r \<longleftrightarrow> (\<exists>fr. change = Future fr))"
  proof (cases change)
    case (Insert e)
    with assms obtain sols where "before = blank_solutions env sols" "after = sols" "finite (dom sols)"
      "r = new_solution_changes\<lparr>sc_anchor_element := Some e\<rparr>"
      by (auto simp: change_solutions_of_def insert_solutions_def dest: find_solutions_finite)
    then show ?thesis
      using blank_solutions_dom [of env sols] finite_subset Insert by (auto simp: new_solution_changes_def)
  next
    case (Update e)
    with assms show ?thesis
      by (auto simp: change_solutions_of_def update_solutions_def Let_def new_solution_changes_def
          dest: find_solutions_finite split: option.splits)
  next
    case (Delete m)
    show ?thesis
    proof (cases "before = Map.empty \<and> after = Map.empty")
      case True
      with Delete assms show ?thesis
        by (auto simp: change_solutions_of_def delete_solutions_def Let_def new_solution_changes_def
            split: option.splits)
    next
      case False
      with Delete assms obtain sols where "before = sols" "after = blank_solutions env sols" "finite (dom sols)"
        "\<not> sc_is_future_reprocess r"
        by (auto simp: change_solutions_of_def delete_solutions_def Let_def new_solution_changes_def
            dest: find_solutions_finite split: option.splits)
      then show ?thesis using blank_solutions_dom [of env sols] finite_subset Delete by auto
    qed
  next
    case (Future fr)
    with assms show ?thesis
      by (auto simp: change_solutions_of_def future_solutions_def Let_def new_solution_changes_def
          dest: find_solutions_finite split: option.splits if_splits)
  qed
  then show "finite (dom before)" "finite (dom after)"
    "(\<exists>e. change = Insert e) \<Longrightarrow> dom before \<subseteq> dom after"
    "(\<exists>m. change = Delete m) \<Longrightarrow> dom after \<subseteq> dom before"
    "sc_is_future_reprocess r \<longleftrightarrow> (\<exists>fr. change = Future fr)" by blast+
qed

lemma build_solution_changes_cases:
  assumes "build_solution_changes env base change clock s = (Inr r, t)"
  obtains before after r0 where "change_solutions_of env base change clock s = (Inr (before, after, r0), t)"
    "r = r0\<lparr>changes := solution_diff (hash_iter env) (solution_rows env base before) (solution_rows env base after)\<rparr>"
  using assms by (auto simp: build_solution_changes_def)


subsection \<open>Collapsing\<close>

fun after_key :: "('w option list \<Rightarrow> u64) \<Rightarrow> 'w part_context \<Rightarrow> u64" where
  "after_key h (Aggregation b a g db da r) = extract_grouping_value_hash h g a"
| "after_key h _ = 0"

fun before_key :: "('w option list \<Rightarrow> u64) \<Rightarrow> 'w part_context \<Rightarrow> u64" where
  "before_key h (Aggregation (Some b) a g db da r) = extract_grouping_value_hash h g b"
| "before_key h c = after_key h c"

fun merge_ends :: "u64 \<Rightarrow> 'w part_context \<Rightarrow> 'w part_context \<Rightarrow> 'w part_context" where
  "merge_ends k (Aggregation b _ _ db _ _) (Aggregation _ a g _ da _) = Aggregation b a g db da k"
| "merge_ends k c d = d"

definition collapse_of :: "('w option list \<Rightarrow> u64) \<Rightarrow> 'w part_context list \<Rightarrow> 'w collapsed" where
  "collapse_of h cs k =
     (let ks = filter (\<lambda>c. after_key h c = k) cs in
      if ks = [] then None else Some (merge_ends k (hd ks) (last ks), before_key h (hd ks)))"

lemma collapsed_insert_of:
  assumes "list_all is_aggregation cs" "is_aggregation c"
  shows "collapsed_insert h c (collapse_of h cs) = collapse_of h (cs @ [c])"
proof -
  obtain b a g db da r where c: "c = Aggregation b a g db da r"
    using assms(2) by (cases c) auto
  let ?k = "after_key h c"
  let ?ks = "filter (\<lambda>c. after_key h c = ?k) cs"
  have other: "collapse_of h (cs @ [c]) j = collapse_of h cs j" if "j \<noteq> ?k" for j
    using that by (simp add: collapse_of_def)
  show ?thesis
  proof (cases "?ks = []")
    case True
    then have "collapse_of h cs ?k = None" and "collapse_of h (cs @ [c]) ?k = Some (merge_ends ?k c c, before_key h c)"
      by (simp_all add: collapse_of_def)
    with other show ?thesis by (cases b) (auto simp: c fun_eq_iff Let_def)
  next
    case False
    then have "hd ?ks \<in> set cs" by (metis filter_is_subset hd_in_set subsetD)
    then have agg: "is_aggregation (hd ?ks)" "is_aggregation (last ?ks)"
      using assms(1) False by (auto simp: list_all_iff) (metis filter_is_subset last_in_set subsetD)
    then obtain eb ea eg edb eda er lb la lg ldb lda lr where
      e: "hd ?ks = Aggregation eb ea eg edb eda er" and l: "last ?ks = Aggregation lb la lg ldb lda lr"
      by (cases "hd ?ks"; cases "last ?ks") auto
    have 1: "collapse_of h cs ?k = Some (Aggregation eb la lg edb lda ?k, before_key h (hd ?ks))"
      using False e l by (simp add: collapse_of_def Let_def)
    have 2: "collapse_of h (cs @ [c]) ?k = Some (Aggregation eb a g edb da ?k, before_key h (hd ?ks))"
      using False e by (simp add: collapse_of_def Let_def c)
    from 1 have "collapsed_insert h c (collapse_of h cs) =
        (collapse_of h cs)(?k \<mapsto> (Aggregation eb a g edb da ?k, before_key h (hd ?ks)))"
      by (simp add: c Let_def)
    with 2 other show ?thesis by (auto simp: fun_eq_iff)
  qed
qed

lemma fold_collapsed_insert:
  "list_all is_aggregation cs \<Longrightarrow> fold (collapsed_insert h) cs Map.empty = collapse_of h cs"
proof (induction cs rule: rev_induct)
  case Nil
  show ?case by (simp add: collapse_of_def fun_eq_iff)
next
  case (snoc c cs)
  then show ?case using collapsed_insert_of [of cs c h] by simp
qed

lemma collapse_of_dom: "dom (collapse_of h cs) = after_key h ` set cs"
  by (auto simp: collapse_of_def Let_def dom_def filter_empty_conv)

text \<open>
  C26. Collapsing the aggregation results of a change. Inserting a sequence of aggregation
  results and reading them out gives one result per group of the after row: with the before
  row and its default marker of the earliest insertion for the group, the after row, its
  grouping keys and its default marker of the latest, and the group's hash as row signature.
\<close>

theorem collapsed_earliest_before_latest_after:
  assumes it: "iter_ok it" and agg: "list_all is_aggregation cs"
  shows "distinct (it (dom (fold (collapsed_insert h) cs Map.empty))) \<and>
    set (into_result_vec it (fold (collapsed_insert h) cs Map.empty)) =
      (\<lambda>k. let ks = filter (\<lambda>c. after_key h c = k) cs in merge_ends k (hd ks) (last ks)) ` after_key h ` set cs"
proof -
  have fin: "finite (dom (collapse_of h cs))" by (simp add: collapse_of_dom)
  then have o: "set (it (dom (collapse_of h cs))) = after_key h ` set cs" "distinct (it (dom (collapse_of h cs)))"
    using it by (simp_all add: iter_ok_def collapse_of_dom)
  have "set_row_signature k (fst (the (collapse_of h cs k))) =
      (let ks = filter (\<lambda>c. after_key h c = k) cs in merge_ends k (hd ks) (last ks))"
    if "k \<in> after_key h ` set cs" for k
  proof -
    let ?ks = "filter (\<lambda>c. after_key h c = k) cs"
    have ne: "?ks \<noteq> []" using that by (auto simp: filter_empty_conv)
    have "set_row_signature k (merge_ends k c d) = merge_ends k c d" if "is_aggregation c" "is_aggregation d" for c d
      using that by (cases c; cases d) auto
    moreover have "is_aggregation (hd ?ks)" "is_aggregation (last ?ks)"
      using agg hd_in_set [OF ne] last_in_set [OF ne] by (auto simp: list_all_iff)
    ultimately show ?thesis using ne by (simp add: collapse_of_def Let_def)
  qed
  then show ?thesis
    using o by (simp add: fold_collapsed_insert [OF agg] into_result_vec_def)
qed

theorem collapsed_earliest_before_latest_after_witness:
  "set (into_result_vec sorted_list_of_set (fold (collapsed_insert (\<lambda>_. 9))
      [Aggregation (Some [(''n'', 1::nat)]) [(''n'', 2)] [] True False 0,
       Aggregation (Some [(''n'', 2)]) [(''n'', 5)] [] False True 0] Map.empty)) =
   {Aggregation (Some [(''n'', 1)]) [(''n'', 5)] [] True True 9}"
  using collapsed_earliest_before_latest_after [OF iter_ok_sorted, of "[Aggregation (Some [(''n'', 1::nat)])
      [(''n'', 2)] [] True False 0, Aggregation (Some [(''n'', 2)]) [(''n'', 5)] [] False True 0]" "\<lambda>_. 9"]
  by (simp add: extract_grouping_value_hash_def)

subsection \<open>Row signatures\<close>

definition nonaggregating :: "('s, 'e, 'm, 'o, 'f, 'd, 'x, 'v) query_env \<Rightarrow> bool" where
  "nonaggregating env \<longleftrightarrow>
     (\<forall>pc n part cc s news t. part \<in> set (query_parts env) \<longrightarrow> \<not> is_aggregation pc \<longrightarrow>
        evaluate_part env pc n part cc s = (Inr news, t) \<longrightarrow> \<not> list_ex is_aggregation news)"

lemma enumerate_snd: "x \<in> set (enumerate n xs) \<Longrightarrow> snd x \<in> set xs"
  by (cases x) (auto simp: enumerate_eq_zip dest: set_zip_rightD)

lemma collapse_part_nonaggregating:
  assumes "\<not> list_ex is_aggregation news" "iter_ok it"
  shows "collapse_part h it cc news = map (\<lambda>c. (c, cc)) (filter (\<lambda>c. c \<noteq> Noop) news)"
proof -
  have "filter is_aggregation news = []" "filter (\<lambda>c. \<not> is_aggregation c \<and> c \<noteq> Noop) news = filter (\<lambda>c. c \<noteq> Noop) news"
    using assms(1) by (auto simp: list_ex_iff filter_empty_conv intro: filter_cong)
  moreover have "it {} = []" using assms(2) by (metis finite.emptyI iter_ok_def set_empty)
  ultimately show ?thesis by (simp add: collapse_part_def into_vec_with_context_def)
qed

text \<open>
  C27. The identity of a row. When no part of the query aggregates, every row change a solution
  leads to is reported under the signature of the solution, whatever the parts do; in no case
  is a change without effect passed on.
\<close>

theorem project_solution_row_signature:
  assumes it: "iter_ok (hash_iter env)" and na: "nonaggregating env" and pc: "\<not> is_aggregation pc"
    and cc: "before_grouping_hash cc = sig" "after_grouping_hash cc = sig"
    and run: "project_solution env pc cc s = (Inr res, t)"
  shows "\<forall>c \<in> set res. row_signature c = sig \<and> c \<noteq> Noop"
proof -
  let ?Q = "\<lambda>rs. \<forall>x \<in> set rs. \<not> is_aggregation (fst x) \<and> snd x = cc"
  let ?P = "\<lambda>rs. \<forall>x \<in> set rs. fst x \<noteq> Noop \<and> \<not> is_aggregation (fst x) \<and> snd x = cc"
  have step: "?P rs'" if r: "project_part env n part rs u = (Inr rs', u')" and part: "part \<in> set (query_parts env)"
      and q: "?Q rs" for n part rs rs' u u'
    using r unfolding project_part_def
  proof (rule act_foldl_invariant [where P = ?P])
    fix acc x v b w
    assume x: "x \<in> set rs" and acc: "?P acc"
      and b: "(case x of (pc, cc) \<Rightarrow> act_bind (evaluate_part env pc n part cc)
        (\<lambda>news. act_return (acc @ collapse_part (group_hash env) (hash_iter env) cc news))) v = (Inr b, w)"
    from b obtain news where e: "evaluate_part env (fst x) n part (snd x) v = (Inr news, w)"
      and bb: "b = acc @ collapse_part (group_hash env) (hash_iter env) (snd x) news"
      by (auto split: prod.splits)
    have n: "\<not> list_ex is_aggregation news" using na part e q x unfolding nonaggregating_def by blast
    with acc q x show "?P b" by (auto simp: bb collapse_part_nonaggregating [OF n it] list_ex_iff)
  qed simp
  from run obtain cs rs u where f: "act_foldl (\<lambda>(contexts, result) (n, part).
            act_bind (project_part env n part contexts) (\<lambda>r. act_return (r, r)))
          ([(pc, cc)], []) (enumerate 1 (query_parts env)) s = (Inr (cs, rs), u)"
    and res: "res = map final_signature rs"
    by (auto simp: project_solution_def split: prod.splits)
  have "?Q (fst (cs, rs)) \<and> ?P (snd (cs, rs))"
    using f
  proof (rule act_foldl_invariant [where P = "\<lambda>p. ?Q (fst p) \<and> ?P (snd p)"])
    fix p x v b w
    assume x: "x \<in> set (enumerate 1 (query_parts env))" and p: "?Q (fst p) \<and> ?P (snd p)"
      and b: "(case p of (contexts, result) \<Rightarrow> \<lambda>(n, part). act_bind (project_part env n part contexts)
        (\<lambda>r. act_return (r, r))) x v = (Inr b, w)"
    from b obtain r where r: "project_part env (fst x) (snd x) (fst p) v = (Inr r, w)" and "b = (r, r)"
      by (auto split: prod.splits)
    moreover have "snd x \<in> set (query_parts env)" using x by (rule enumerate_snd)
    ultimately show "?Q (fst b) \<and> ?P (snd b)" using step [OF r] p by simp
  qed (simp add: pc)
  moreover have "row_signature (final_signature x) = sig \<and> final_signature x \<noteq> Noop"
    if "fst x \<noteq> Noop" "snd x = cc" for x
    using that cc by (cases x; cases "fst x") auto
  ultimately show ?thesis by (simp add: res) blast
qed

subsection \<open>Due futures\<close>

text \<open>
  C28. A due future is not applied twice. When the element of a popped future already carries a
  version at or after the due time, processing the future reports no change and leaves the
  backend as the pop left it, apart from the commit.
\<close>

theorem stale_future_skipped:
  assumes it: "iter_ok (hash_iter env)"
    and b: "op_begin (session_control env) s = (Inr (), s1)"
    and pop: "future_pop env s1 = (Inr (Some fr), s2)"
    and nomw: "source_pipelines env (source_id (element_ref fr)) = None"
    and el: "index_get_element env (element_ref fr) s2 = Inr (Some e)"
    and stale: "due_time fr \<le> get_effective_from e"
    and c: "op_commit (session_control env) s2 = (Inr (), s3)"
  shows "process_due_futures env s = (Inr (Some ([], source_id (element_ref fr))), s3)"
proof -
  have e: "hash_iter env {} = []" using it by (metis finite.emptyI iter_ok_def set_empty)
  have "change_solutions_of env [] (Future fr) clock s2 =
      (Inr (Map.empty, Map.empty, new_solution_changes\<lparr>sc_is_future_reprocess := True\<rparr>), s2)" for clock
    using stale by (simp add: change_solutions_of_def future_solutions_def Let_def act_bind_def act_map_err_def el)
  then have "build_solution_changes env [] (Future fr) clock s2 =
      (Inr (new_solution_changes\<lparr>sc_is_future_reprocess := True\<rparr>), s2)" for clock
    by (simp add: build_solution_changes_def solution_diff_def solution_rows_empty e new_solution_changes_def)
  then have "process_changes_inner env [Future fr] s2 = (Inr [], s2)"
    by (simp add: process_changes_inner_def process_change_def act_bind_def Let_def new_solution_changes_def
        into_result_vec_def e)
  then show ?thesis
    by (simp add: process_due_futures_def process_due_futures_with_hook_def session_guard_def b c act_bind_def
        act_map_err_def pop execute_source_middleware_def pipelines_get_def nomw)
qed

subsection \<open>Failed changes\<close>

text \<open>Every collaborator preserves \<open>P\<close>; each confines its writes to the session when it leaves what is durable alone.\<close>

definition preserves :: "('s \<Rightarrow> bool) \<Rightarrow> ('s, 'e, 'm, 'o, 'f, 'd, 'x, 'v) query_env \<Rightarrow> bool" where
  "preserves P env \<longleftrightarrow>
     (\<forall>e ns. act_keeps P (index_set_element env e ns)) \<and> (\<forall>r. act_keeps P (index_delete_element env r)) \<and>
     act_keeps P (future_pop env) \<and> (\<forall>ctx p. act_keeps P (evaluate_predicate env ctx p)) \<and>
     (\<forall>pc n part cc. act_keeps P (evaluate_part env pc n part cc)) \<and>
     (\<forall>p \<in> ran (source_pipelines env). \<forall>mw \<in> set p. \<forall>ch. act_keeps P (mw ch))"

definition confined :: "('s \<Rightarrow> 'c) \<Rightarrow> ('s, 'e, 'm, 'o, 'f, 'd, 'x, 'v) query_env \<Rightarrow> bool" where
  "confined durable env \<longleftrightarrow> (\<forall>c. preserves (\<lambda>s. durable s = c) env)"

lemma check_predicates_keeps:
  "(\<And>p. act_keeps P (evaluate_predicate env ctx p)) \<Longrightarrow> act_keeps P (check_predicates env ctx ps)"
  by (induction ps) (auto intro!: act_keeps_bind)

lemma find_solutions_keeps:
  assumes "\<And>ctx p. act_keeps P (evaluate_predicate env ctx p)" "\<And>e ns. act_keeps P (index_set_element env e ns)"
  shows "act_keeps P (find_solutions env base e clock upd)"
proof -
  have "act_keeps P (match_element_to_slot env base clock sp e)" for sp
    by (simp add: match_element_to_slot_def Let_def check_predicates_keeps assms(1))
  then have "act_keeps P (get_slots_with_affinity env base e clock)"
    unfolding get_slots_with_affinity_def by (intro act_keeps_foldl) (auto intro!: act_keeps_bind)
  then show ?thesis
    unfolding find_solutions_def resolve_solutions_def solve_slots_def
    by (auto intro!: act_keeps_bind act_keeps_map_err act_keeps_foldl assms(2))
qed

lemma process_changes_inner_keeps:
  assumes "\<And>ctx p. act_keeps P (evaluate_predicate env ctx p)" "\<And>e ns. act_keeps P (index_set_element env e ns)"
    "\<And>r. act_keeps P (index_delete_element env r)" "\<And>pc n part cc. act_keeps P (evaluate_part env pc n part cc)"
  shows "act_keeps P (process_changes_inner env cs)"
proof -
  note find = find_solutions_keeps [of P env, OF assms(1,2)]
  have "act_keeps P (change_solutions_of env base change clock)" for base change clock
    by (cases change) (auto simp: change_solutions_of_def insert_solutions_def update_solutions_def
        delete_solutions_def future_solutions_def Let_def
        intro!: act_keeps_bind act_keeps_map_err find assms(3) split: option.split)
  then have build: "act_keeps P (build_solution_changes env base change clock)" for base change clock
    by (auto simp: build_solution_changes_def intro!: act_keeps_bind)
  have part: "act_keeps P (project_part env n part pcs)" for n part pcs
    by (auto simp: project_part_def intro!: act_keeps_foldl act_keeps_bind assms(4) split: prod.split)
  have "act_keeps P (project_solution env pc cc)" for pc cc
    by (auto simp: project_solution_def intro!: act_keeps_foldl act_keeps_bind part split: prod.split)
  moreover have "snd (project_or_skip env pc cc s) = snd (project_solution env pc cc s)" for pc cc s
    by (simp add: project_or_skip_def split: prod.split sum.split evaluation_error.split)
  ultimately have "act_keeps P (project_or_skip env pc cc)" for pc cc
    by (simp add: act_keeps_def)
  then have "act_keeps P (process_change env c)" for c
    by (auto simp: process_change_def Let_def intro!: act_keeps_bind act_keeps_foldl build split: prod.split)
  then show ?thesis
    by (auto simp: process_changes_inner_def intro!: act_keeps_foldl act_keeps_bind)
qed


subsection \<open>Examples\<close>

text \<open>
  A query for the single node pattern \<open>(p:Person)\<close> on a Garnet session, with an index that
  records every write in the buffer and holds one element, and a query part that passes every
  change on.
\<close>

definition person :: "u64 \<Rightarrow> nat element" where
  "person t = Node \<lparr>reference = ElementReference ''hr'' ''p1'', labels = [''Person''], effective_from = t\<rparr> []"

definition person_path :: "unit match_path" where
  "person_path = \<lparr>slots = [\<lparr>spec = \<lparr>annotation = Some ''p'', spec_labels = [''Person''], predicates = []\<rparr>,
     in_slots = [], out_slots = [], paths = {0}, optional = False\<rparr>], optional_paths = {}\<rparr>"

definition no_lookups :: "(unit garnet_error, nat) index_ops" where
  "no_lookups = \<lparr>op_get_slot_element_by_ref = (\<lambda>_ _. Inr None),
     op_get_slot_elements_by_inbound = (\<lambda>_ _. Inr []), op_get_slot_elements_by_outbound = (\<lambda>_ _. Inr [])\<rparr>"

definition person_env ::
    "((nat redis_db, nat) garnet_state, unit garnet_error, unit, unit, unit, unit, unit, nat) query_env" where
  "person_env =
     \<lparr>spooky = (\<lambda>_. 7), reference_hash = (\<lambda>_. 0), group_hash = (\<lambda>_. 0), value_eq = (=),
      value_eq_for_groupby = (=), slot_iter = sorted_list_of_set, hash_iter = sorted_list_of_set,
      index_get_element = (\<lambda>r s. Inr (if r = get_reference (person 0) then Some (person 5) else None)),
      index_set_element = (\<lambda>e ns. buffer_write (string_set ''e'' [])),
      index_delete_element = (\<lambda>r. buffer_write (del_key ''e'')),
      index_lookups = (\<lambda>s. no_lookups),
      future_pop = act_return (Some \<lparr>element_ref = get_reference (person 0), original_time = 1, due_time = 4,
                                     group_signature = 0\<rparr>),
      evaluate_predicate = (\<lambda>_ _. act_return True), evaluate_part = (\<lambda>pc _ _ _. act_return [pc]),
      source_pipelines = Map.empty, session_control = garnet_session mem_redis sorted_iters,
      query_match_path = person_path,
      query_parts = [\<lparr>match_clauses = [], where_clauses = [], return_clause = Item []\<rparr>]\<rparr>"

definition open_session :: "(nat redis_db, nat) garnet_state" where
  "open_session = sample_state new_buffer"

lemma person_solved:
  "solve (\<lambda>_. 7) sorted_list_of_set no_lookups person_path (person t) 0 =
     Inr [7 \<mapsto> \<lparr>solved_slots = [(0, Some (person t))], total_slots = 1, queued_slots = [True], slot_cursors = [],
              solution_signature = Some 7, anchor_slot = 0\<rparr>]"
  by (simp add: solve_def person_path_def enqueue_slot_def new_solution_def create_solution_stream_def
      try_complete_solution.simps expand_def mark_slot_solved_def Let_def)

lemma person_env_sel [simp]:
  "spooky person_env = (\<lambda>_. 7)" "hash_iter person_env = sorted_list_of_set" "slot_iter person_env = sorted_list_of_set"
  "query_match_path person_env = person_path" "session_control person_env = garnet_session mem_redis sorted_iters"
  "source_pipelines person_env = Map.empty" "index_lookups person_env s = no_lookups"
  "evaluate_predicate person_env = (\<lambda>_ _. act_return True)" "evaluate_part person_env = (\<lambda>pc _ _ _. act_return [pc])"
  "index_set_element person_env = (\<lambda>e ns. buffer_write (string_set ''e'' []))"
  "index_delete_element person_env = (\<lambda>r. buffer_write (del_key ''e''))"
  "index_get_element person_env r s' = Inr (if r = get_reference (person 0) then Some (person 5) else None)"
  "query_parts person_env = [\<lparr>match_clauses = [], where_clauses = [], return_clause = Item []\<rparr>]"
  "future_pop person_env = act_return (Some \<lparr>element_ref = get_reference (person 0), original_time = 1, due_time = 4,
     group_signature = 0\<rparr>)"
  by (simp_all add: person_env_def)

lemma open_session_write:
  "buffer_write f open_session = (Inr (), sample_state (f new_buffer))"
  by (simp add: buffer_write_def with_active_buffer_required_def with_active_buffer_def act_bind_def open_session_def
      sample_state_def)

lemma person_inserted:
  assumes "buffer_write (string_set ''e'' []) s = ((Inr () :: unit garnet_error + unit), s')"
  shows "build_solution_changes person_env [] (Insert (person t)) clock s =
     (Inr \<lparr>changes = [(7, Adding [(''p'', VElement (person t))] 0)], sc_anchor_element = Some (person t),
           sc_before_clock = None, sc_before_anchor_element = None, sc_is_future_reprocess = False\<rparr>,
      s')"
proof -
  have "get_slots_with_affinity person_env [] (person t) clock s = (Inr [0], s)"
    by (simp add: get_slots_with_affinity_def match_element_to_slot_def label_match_def person_path_def person_def Let_def
        act_bind_def)
  then have "find_solutions person_env [] (person t) clock True s =
      (Inr [7 \<mapsto> \<lparr>solved_slots = [(0, Some (person t))], total_slots = 1, queued_slots = [True], slot_cursors = [],
              solution_signature = Some 7, anchor_slot = 0\<rparr>], s')"
    by (simp add: find_solutions_def resolve_solutions_def act_map_err_def assms solve_slots_def act_bind_def
        person_solved)
  moreover have "blank_solutions person_env [7 \<mapsto> \<lparr>solved_slots = [(0, Some (person t))], total_slots = 1,
      queued_slots = [True], slot_cursors = [], solution_signature = Some 7, anchor_slot = 0\<rparr>] = Map.empty"
    by (auto simp: fun_eq_iff blank_solutions_def get_empty_optional_solution_def person_path_def)
  ultimately have "change_solutions_of person_env [] (Insert (person t)) clock s =
      (Inr (Map.empty, [7 \<mapsto> \<lparr>solved_slots = [(0, Some (person t))], total_slots = 1, queued_slots = [True],
              slot_cursors = [], solution_signature = Some 7, anchor_slot = 0\<rparr>],
        new_solution_changes\<lparr>sc_anchor_element := Some (person t)\<rparr>), s')"
    by (simp add: change_solutions_of_def insert_solutions_def act_bind_def)
  then show ?thesis
    by (simp add: build_solution_changes_def solution_diff_def solution_rows_def new_solution_changes_def
        into_query_variables_def person_path_def to_expression_variable_def dom_def)
qed


lemma person_projected:
  "project_solution person_env pc cc s = (Inr (map final_signature (collapse_part (\<lambda>_. 0) sorted_list_of_set cc [pc])), s)"
  by (simp add: project_solution_def project_part_def act_bind_def person_env_def)

theorem project_solution_row_signature_witness:
  "\<exists>res. project_solution person_env (Adding [] 0) (change_context_of (from_source_change (Insert (person 9)))
         (from_source_change (Insert (person 9))) (new_solution_changes :: (unit, nat) solution_changes) 7) open_session = (Inr res, open_session) \<and>
     (\<forall>c \<in> set res. row_signature c = 7 \<and> c \<noteq> Noop)"
proof -
  let ?cc = "change_context_of (from_source_change (Insert (person 9))) (from_source_change (Insert (person 9)))
         (new_solution_changes :: (unit, nat) solution_changes) 7"
  have "nonaggregating person_env" by (auto simp: nonaggregating_def)
  then show ?thesis
    using project_solution_row_signature [OF _ _ _ _ _ person_projected, where cc = ?cc and sig = 7 and pc = "Adding [] 0"]
    by (simp add: person_projected change_context_of_def)
qed

theorem stale_future_skipped_witness:
  "process_due_futures person_env \<lparr>redis = sample_db, inner = new_session\<rparr> =
     (Inr (Some ([], ''hr'')), \<lparr>redis = sample_db, inner = new_session\<rparr>)"
proof -
  let ?f = "\<lparr>element_ref = get_reference (person 0), original_time = 1, due_time = 4, group_signature = 0\<rparr>"
  have 1: "op_begin (session_control person_env) \<lparr>redis = sample_db, inner = new_session\<rparr> = (Inr (), open_session)"
    by (simp add: garnet_session_def garnet_begin_def new_session_def open_session_def sample_state_def)
  have 2: "future_pop person_env open_session = (Inr (Some ?f), open_session)" by simp
  have 3: "op_commit (session_control person_env) open_session = (Inr (), \<lparr>redis = sample_db, inner = new_session\<rparr>)"
    using sample_commit [of new_buffer]
    by (simp add: garnet_session_def open_session_def drain_into_pipeline_def new_buffer_def sorted_iters_def)
  have 4: "index_get_element person_env (element_ref ?f) open_session = Inr (Some (person 5))" by simp
  have 5: "due_time ?f \<le> get_effective_from (person 5)" by (simp add: get_effective_from_def person_def)
  have 6: "iter_ok (hash_iter person_env)" "source_pipelines person_env (source_id (element_ref ?f)) = None" by simp_all
  from stale_future_skipped [OF 6(1) 1 2 6(2) 4 5 3] show ?thesis by (simp add: person_def)
qed


text \<open>
  Two changes of one group that cancel each other are still reported: the filter looks at each
  result before they are collapsed, so the collapsed result can have equal rows.
\<close>

lemma cancelling_changes_reported:
  "fold (report person_env)
     [Aggregation (Some [(''n'', VInteger (PosInt 1))]) [(''n'', VInteger (PosInt 2))] [] False False 0,
      Aggregation (Some [(''n'', VInteger (PosInt 2))]) [(''n'', VInteger (PosInt 1))] [] False False 0] ([], Map.empty) =
   ([], [0 \<mapsto> (Aggregation (Some [(''n'', VInteger (PosInt 1))]) [(''n'', VInteger (PosInt 1))] [] False False 0, 0)])"
  by (simp add: unchanged_def query_variables_unchanged_iff row_eq_def person_env_def extract_grouping_value_hash_def)

end
