(* ===== verification/Query_Parts.thy ===== *)
theory Query_Parts
  imports Aggregation Continuous_Query
begin

text \<open>
  The evaluation of one part of a query over a change of a row,
  \<^verbatim>\<open>src/core/src/evaluation/parts/mod.rs\<close>.

  The evaluation of expressions is a field of \<open>part_env\<close>: it may change the state, since a
  call of an aggregating function does. The aggregates of a group-by part are described through
  the multiset of rows in each group.
\<close>

subsection \<open>Operations\<close>

record ('s, 'g, 'w, 'x, 'v, 'a) part_env =
  pe_predicate :: "('w, 'x, 'v) expression_context \<Rightarrow> 'x \<Rightarrow> ('s, 'g, bool) action"
  pe_field :: "('w, 'x, 'v) expression_context \<Rightarrow> 'x \<Rightarrow> ('s, 'g, string \<times> 'w) action"
  pe_get :: "'w result_key \<Rightarrow> result_owner \<Rightarrow> ('s, 'g, 'a value_accumulator option) action"
  pe_set :: "'w result_key \<Rightarrow> result_owner \<Rightarrow> 'a value_accumulator option \<Rightarrow> ('s, 'g, unit) action"
  pe_value_eq :: "'w \<Rightarrow> 'w \<Rightarrow> bool"
  pe_eq_for_groupby :: "'w \<Rightarrow> 'w \<Rightarrow> bool"
  pe_row_hash :: "(string \<times> bool \<times> 'w) list \<Rightarrow> u64"
  pe_null :: 'w

text \<open>Group keys are hashed by their grouping identity, the other values by their ordinary hash.\<close>

definition aggregation_snapshot_hash ::
    "('s, 'g, 'w, 'x, 'v, 'a) part_env \<Rightarrow> string list \<Rightarrow> 'w row \<Rightarrow> u64" where
  "aggregation_snapshot_hash pe keys vars =
     pe_row_hash pe (map (\<lambda>(name, v). (name, List.member keys name, v)) vars)"

definition row_unchanged :: "('s, 'g, 'w, 'x, 'v, 'a) part_env \<Rightarrow> 'w row \<Rightarrow> 'w row \<Rightarrow> bool" where
  "row_unchanged pe = query_variables_unchanged (pe_value_eq pe) (pe_eq_for_groupby pe)"

definition is_return_aggregating :: "'x query_part \<Rightarrow> bool" where
  "is_return_aggregating part = (case return_clause part of GroupBy _ _ \<Rightarrow> True | Item _ \<Rightarrow> False)"

definition project_fields ::
    "('s, 'g, 'w, 'x, 'v, 'a) part_env \<Rightarrow> ('w, 'x, 'v) expression_context \<Rightarrow> 'x list \<Rightarrow>
     'w row \<times> string list \<Rightarrow> ('s, 'g, 'w row \<times> string list) action" where
  "project_fields pe ctx es acc =
     act_foldl (\<lambda>(row, names) e. act_bind (pe_field pe ctx e)
        (\<lambda>(name, v). act_return (bt_insert name v row, names @ [name]))) acc es"

text \<open>The projected row with the names of the grouping fields.\<close>

definition project ::
    "('s, 'g, 'w, 'x, 'v, 'a) part_env \<Rightarrow> ('w, 'x, 'v) expression_context \<Rightarrow> 'x projection_clause \<Rightarrow>
     ('s, 'g, 'w row \<times> string list) action" where
  "project pe ctx clause =
     (case clause of
        Item es \<Rightarrow> act_bind (project_fields pe ctx es ([], [])) (\<lambda>(row, _). act_return (row, []))
      | GroupBy gs as \<Rightarrow>
          act_bind (project_fields pe ctx gs ([], []))
            (\<lambda>(row, keys).
               act_bind (project_fields pe (ctx\<lparr>output_grouping_key := Some gs\<rparr>) as (row, []))
                 (\<lambda>(row', _). act_return (row', keys))))"

text \<open>The filters, up to the first that is not satisfied.\<close>

fun filters_pass ::
    "('s, 'g, 'w, 'x, 'v, 'a) part_env \<Rightarrow> ('w, 'x, 'v) expression_context \<Rightarrow> 'x list \<Rightarrow> ('s, 'g, bool) action" where
  "filters_pass pe ctx [] = act_return True"
| "filters_pass pe ctx (f # fs) =
     act_bind (pe_predicate pe ctx f) (\<lambda>b. if b then filters_pass pe ctx fs else act_return False)"

definition snapshot_if_aggregating ::
    "('s, 'g, 'w, 'x, 'v, 'a) part_env \<Rightarrow> 'x query_part \<Rightarrow> 'v change_context \<Rightarrow> 'w row \<Rightarrow> ('s, 'g, 'w row option) action" where
  "snapshot_if_aggregating pe part cc row =
     (if is_return_aggregating part
      then act_bind (project pe (from_before_change row Snapshot cc part) (return_clause part)) (\<lambda>(r, _). act_return (Some r))
      else act_return None)"

definition evaluate_adding ::
    "('s, 'g, 'w, 'x, 'v, 'a) part_env \<Rightarrow> 'x query_part \<Rightarrow> 'v change_context \<Rightarrow> 'w row \<Rightarrow> ('s, 'g, 'w part_context list) action" where
  "evaluate_adding pe part cc after =
     act_bind (snapshot_if_aggregating pe part cc after)
       (\<lambda>snapshot. let ctx = from_after_change after cc part in
          act_bind (filters_pass pe ctx (where_clauses part))
            (\<lambda>b. if \<not> b then act_return [Noop]
                 else act_bind (project pe ctx (return_clause part))
                   (\<lambda>(data, keys). act_return
                      [if is_return_aggregating part then Aggregation snapshot data keys True False 0
                       else Adding data 0])))"

definition evaluate_removing ::
    "('s, 'g, 'w, 'x, 'v, 'a) part_env \<Rightarrow> 'x query_part \<Rightarrow> 'v change_context \<Rightarrow> 'w row \<Rightarrow> ('s, 'g, 'w part_context list) action" where
  "evaluate_removing pe part cc before =
     act_bind (snapshot_if_aggregating pe part cc before)
       (\<lambda>snapshot. let ctx = from_before_change before RevertForDelete cc part in
          act_bind (filters_pass pe ctx (where_clauses part))
            (\<lambda>b. if \<not> b then act_return [Noop]
                 else act_bind (project pe ctx (return_clause part))
                   (\<lambda>(data, keys). act_return
                      [if is_return_aggregating part then Aggregation snapshot data keys False True 0
                       else Removing data 0])))"

definition same_group :: "('s, 'g, 'w, 'x, 'v, 'a) part_env \<Rightarrow> string list \<Rightarrow> 'w row \<Rightarrow> 'w row \<Rightarrow> bool" where
  "same_group pe keys before after =
     list_all (\<lambda>k. case (bt_get before k, bt_get after k) of
        (Some x, Some y) \<Rightarrow> pe_eq_for_groupby pe x y | (None, None) \<Rightarrow> True | _ \<Rightarrow> False) keys"

definition reconcile_crossing_aggregate ::
    "('s, 'g, 'w, 'x, 'v, 'a) part_env \<Rightarrow> 'x query_part \<Rightarrow> 'v change_context \<Rightarrow> string list \<Rightarrow> 'w row option \<Rightarrow>
     'w row option \<Rightarrow> 'w row \<Rightarrow> 'w row option \<Rightarrow> ('s, 'g, 'w part_context list) action" where
  "reconcile_crossing_aggregate pe part cc keys before_in before_out after_out snapshot =
     (case (before_in, before_out) of
        (Some before, Some out) \<Rightarrow>
          if same_group pe keys out after_out
          then act_return [Aggregation (Some out) after_out keys False False 0]
          else act_bind (project pe ((new_context before (before_clock cc))\<lparr>xc_side_effects := Snapshot\<rparr>) (return_clause part))
                 (\<lambda>(drained, _). act_return
                    [Aggregation snapshot after_out keys True False 0,
                     Aggregation (Some out) drained keys False True 0])
      | _ \<Rightarrow> act_return [Aggregation before_out after_out keys False False 0])"

text \<open>The contribution of the row before the change: the row it gave, and the row after its removal.\<close>

definition retract_before ::
    "('s, 'g, 'w, 'x, 'v, 'a) part_env \<Rightarrow> 'x query_part \<Rightarrow> 'v change_context \<Rightarrow> 'w row \<Rightarrow>
     ('s, 'g, ('w row \<times> string list \<times> 'w row) option) action" where
  "retract_before pe part cc before =
     (let ctx = from_before_change before Snapshot cc part in
      act_bind (filters_pass pe ctx (where_clauses part))
        (\<lambda>b. if \<not> b then act_return None
             else act_bind (project pe ctx (return_clause part))
               (\<lambda>(out, keys). act_bind (project pe (from_before_change before RevertForUpdate cc part) (return_clause part))
                  (\<lambda>(agg_after, _). act_return (Some (out, keys, agg_after))))))"

definition evaluate_updating ::
    "('s, 'g, 'w, 'x, 'v, 'a) part_env \<Rightarrow> 'x query_part \<Rightarrow> 'v change_context \<Rightarrow> 'w row \<Rightarrow> 'w row \<Rightarrow>
     ('s, 'g, 'w part_context list) action" where
  "evaluate_updating pe part cc before after =
     (if row_unchanged pe before after \<and> \<not> is_future_reprocess cc then act_return [Noop]
      else act_bind (snapshot_if_aggregating pe part cc after)
        (\<lambda>snapshot. act_bind (retract_before pe part cc before)
           (\<lambda>retracted. let ctx = from_after_change after cc part in
              act_bind (filters_pass pe ctx (where_clauses part))
                (\<lambda>b. if b
                     then act_bind (project pe ctx (return_clause part))
                       (\<lambda>(out, keys).
                          if is_return_aggregating part
                          then reconcile_crossing_aggregate pe part cc keys (Some before) (map_option fst retracted) out snapshot
                          else act_return [case retracted of
                                 Some (before_out, _) \<Rightarrow> Updating before_out out 0 | None \<Rightarrow> Adding out 0])
                     else
                       (case retracted of
                          None \<Rightarrow> act_return [Noop]
                        | Some (before_out, keys, agg_after) \<Rightarrow>
                            if is_return_aggregating part
                            then reconcile_crossing_aggregate pe part cc keys (Some before) (Some before_out) agg_after snapshot
                            else act_return [Removing before_out 0])))))"

text \<open>Whether the row of a group counts downstream is recorded by signatures of the current and the default row.\<close>

definition should_revert ::
    "('s, 'g, 'w, 'x, 'v, 'a) part_env \<Rightarrow> nat \<Rightarrow> 'w result_key \<Rightarrow> string list \<Rightarrow> 'w row option \<Rightarrow> bool \<Rightarrow> ('s, 'g, bool) action" where
  "should_revert pe part_num key keys before default_before =
     (case before of
        None \<Rightarrow> act_return False
      | Some row \<Rightarrow>
          if \<not> default_before then act_return True
          else let h = aggregation_snapshot_hash pe keys row in
            act_bind (pe_get pe key (PartCurrent part_num))
              (\<lambda>cur. case cur of
                 Some (SignatureAcc sig) \<Rightarrow> act_return (sig = h)
               | None \<Rightarrow> act_bind (pe_set pe key (PartDefault part_num) (Some (SignatureAcc h))) (\<lambda>_. act_return False)
               | _ \<Rightarrow> act_return False))"

definition should_apply ::
    "('s, 'g, 'w, 'x, 'v, 'a) part_env \<Rightarrow> nat \<Rightarrow> 'w result_key \<Rightarrow> u64 \<Rightarrow> bool \<Rightarrow> ('s, 'g, bool) action" where
  "should_apply pe part_num key h default_after =
     (if \<not> default_after then act_return True
      else act_bind (pe_get pe key (PartDefault part_num))
        (\<lambda>d. case d of
           Some (SignatureAcc sig) \<Rightarrow>
             act_bind (if sig = h then pe_set pe key (PartCurrent part_num) None else act_return ())
               (\<lambda>_. act_return (sig \<noteq> h))
         | _ \<Rightarrow> act_return True))"

definition project_optional ::
    "('s, 'g, 'w, 'x, 'v, 'a) part_env \<Rightarrow> 'x query_part \<Rightarrow> 'v change_context \<Rightarrow> side_effects \<Rightarrow> 'w row option \<Rightarrow>
     ('s, 'g, ('w row \<times> string list) option) action" where
  "project_optional pe part cc side row =
     (case row of
        None \<Rightarrow> act_return None
      | Some r \<Rightarrow> act_bind (project pe (from_before_change r side cc part) (return_clause part)) (\<lambda>p. act_return (Some p)))"

definition evaluate_aggregation ::
    "('s, 'g, 'w, 'x, 'v, 'a) part_env \<Rightarrow> nat \<Rightarrow> 'x query_part \<Rightarrow> 'v change_context \<Rightarrow> 'w row option \<Rightarrow> 'w row \<Rightarrow>
     string list \<Rightarrow> bool \<Rightarrow> bool \<Rightarrow> ('s, 'g, 'w part_context list) action" where
  "evaluate_aggregation pe part_num part cc before after keys default_before default_after =
     (if (case before of Some b \<Rightarrow> row_unchanged pe b after | None \<Rightarrow> False) \<and>
         \<not> is_future_reprocess cc \<and> \<not> default_before \<and> \<not> default_after
      then act_return [Noop]
      else
        let key = groupby_from_variables (pe_null pe) keys after;
            h = aggregation_snapshot_hash pe keys after
        in act_bind (should_revert pe part_num key keys before default_before)
          (\<lambda>revert. act_bind (should_apply pe part_num key h default_after)
          (\<lambda>app. act_bind
             (if app then pe_set pe key (PartCurrent part_num) (Some (SignatureAcc h)) else act_return ())
          (\<lambda>_. act_bind (snapshot_if_aggregating pe part cc after)
          (\<lambda>snapshot. act_bind (project_optional pe part cc Snapshot before)
          (\<lambda>next_before. act_bind
             (case before of
                None \<Rightarrow> act_return True
              | Some b \<Rightarrow> filters_pass pe (from_before_change b Snapshot cc part) (where_clauses part))
          (\<lambda>before_passes. act_bind
             (if before_passes \<and> revert then project_optional pe part cc RevertForUpdate before else act_return None)
          (\<lambda>reverted.
             let ctx = (from_after_change after cc part)\<lparr>xc_side_effects := (if app then Apply else Snapshot)\<rparr> in
             act_bind (filters_pass pe ctx (where_clauses part))
               (\<lambda>b. if b
                    then act_bind (project pe ctx (return_clause part))
                      (\<lambda>(out, out_keys).
                         if is_return_aggregating part
                         then reconcile_crossing_aggregate pe part cc out_keys before (map_option fst next_before) out snapshot
                         else act_return [
                           (case (before_passes \<and> revert, app) of
                              (True, True) \<Rightarrow> Updating (case next_before of Some (r, _) \<Rightarrow> r | None \<Rightarrow> []) out 0
                            | (True, False) \<Rightarrow> Removing (case next_before of Some (r, _) \<Rightarrow> r | None \<Rightarrow> []) 0
                            | (False, True) \<Rightarrow> Adding out 0
                            | (False, False) \<Rightarrow> Noop)])
                    else
                      (case reverted of
                         Some (next_after, next_keys) \<Rightarrow>
                           if is_return_aggregating part
                           then reconcile_crossing_aggregate pe part cc next_keys before (map_option fst next_before) next_after snapshot
                           else act_return [Removing (case next_before of Some (r, _) \<Rightarrow> r | None \<Rightarrow> []) 0]
                       | None \<Rightarrow>
                           if before \<noteq> None \<and> before_passes
                           then act_return [Removing (case next_before of Some (r, _) \<Rightarrow> r | None \<Rightarrow> []) 0]
                           else act_return [Noop]))))))))))"

definition evaluate_query_part ::
    "('s, 'g, 'w, 'x, 'v, 'a) part_env \<Rightarrow> 'w part_context \<Rightarrow> nat \<Rightarrow> 'x query_part \<Rightarrow> 'v change_context \<Rightarrow>
     ('s, 'g, 'w part_context list) action" where
  "evaluate_query_part pe context part_num part cc =
     (case context of
        Adding after _ \<Rightarrow> evaluate_adding pe part cc after
      | Updating before after _ \<Rightarrow> evaluate_updating pe part cc before after
      | Removing before _ \<Rightarrow> evaluate_removing pe part cc before
      | Aggregation before after keys db da _ \<Rightarrow>
          evaluate_aggregation pe part_num part cc before after keys db da
      | Noop \<Rightarrow> act_return [Noop])"

subsection \<open>Parts without aggregation\<close>

text \<open>
  Expressions that read the row only: \<open>pred\<close> and \<open>field\<close> give their values.
\<close>

definition row_filters :: "('s, 'g, 'w, 'x, 'v, 'a) part_env \<Rightarrow> ('w row \<Rightarrow> 'x \<Rightarrow> bool) \<Rightarrow> bool" where
  "row_filters pe pred \<longleftrightarrow> (\<forall>ctx e s. pe_predicate pe ctx e s = (Inr (pred (xc_variables ctx) e), s))"

definition row_fields :: "('s, 'g, 'w, 'x, 'v, 'a) part_env \<Rightarrow> ('w row \<Rightarrow> 'x \<Rightarrow> string \<times> 'w) \<Rightarrow> bool" where
  "row_fields pe field \<longleftrightarrow> (\<forall>ctx e s. pe_field pe ctx e s = (Inr (field (xc_variables ctx) e), s))"

definition passes :: "('w row \<Rightarrow> 'x \<Rightarrow> bool) \<Rightarrow> 'x query_part \<Rightarrow> 'w row \<Rightarrow> bool" where
  "passes pred part r \<longleftrightarrow> list_all (pred r) (where_clauses part)"

definition item_row :: "('w row \<Rightarrow> 'x \<Rightarrow> string \<times> 'w) \<Rightarrow> 'x list \<Rightarrow> 'w row \<Rightarrow> 'w row" where
  "item_row field es r = fold (\<lambda>e. bt_insert (fst (field r e)) (snd (field r e))) es []"

text \<open>The row a part gives for a row, and for a row that may be absent.\<close>

definition part_view ::
    "('w row \<Rightarrow> 'x \<Rightarrow> bool) \<Rightarrow> ('w row \<Rightarrow> 'x \<Rightarrow> string \<times> 'w) \<Rightarrow> 'x query_part \<Rightarrow> 'w row option \<Rightarrow> 'w row option" where
  "part_view pred field part r =
     (case r of
        Some row \<Rightarrow>
          if passes pred part row then Some (item_row field (case return_clause part of Item es \<Rightarrow> es | GroupBy g a \<Rightarrow> g) row)
          else None
      | None \<Rightarrow> None)"

fun row_change :: "'w row option \<Rightarrow> 'w row option \<Rightarrow> 'w part_context" where
  "row_change None None = Noop"
| "row_change None (Some y) = Adding y 0"
| "row_change (Some x) None = Removing x 0"
| "row_change (Some x) (Some y) = Updating x y 0"

lemma filters_pass_row:
  "row_filters pe pred \<Longrightarrow> filters_pass pe ctx fs s = (Inr (list_all (pred (xc_variables ctx)) fs), s)"
  by (induction fs) (auto simp: row_filters_def act_bind_def)

lemma project_fields_row:
  "row_fields pe field \<Longrightarrow> \<exists>names'. project_fields pe ctx es (row, names) s =
     (Inr (fold (\<lambda>e. bt_insert (fst (field (xc_variables ctx) e)) (snd (field (xc_variables ctx) e))) es row, names'), s)"
  by (induction es arbitrary: row names) (auto simp: project_fields_def row_fields_def act_bind_def split: prod.split)

lemma project_item_row:
  assumes "row_fields pe field"
  shows "project pe ctx (Item es) s = (Inr (item_row field es (xc_variables ctx), []), s)"
  using project_fields_row [OF assms, of ctx es "[]" "[]" s] by (auto simp: project_def act_bind_def item_row_def)

lemma context_variables [simp]:
  "xc_variables (from_before_change r side cc part) = r" "xc_variables (from_after_change r cc part) = r"
  "xc_variables (new_context r clock) = r"
  "xc_side_effects (from_before_change r side cc part) = side" "xc_side_effects (from_after_change r cc part) = Apply"
  by (simp_all add: from_before_change_def from_after_change_def new_context_def)

lemma item_part_step:
  assumes "row_filters pe pred" "row_fields pe field" "return_clause part = Item es"
    and "\<not> (\<exists>x y. b = Some x \<and> a = Some y \<and> row_unchanged pe x y \<and> \<not> is_future_reprocess cc)"
  shows "evaluate_query_part pe (row_change b a) n part cc s =
    (Inr [row_change (part_view pred field part b) (part_view pred field part a)], s)"
  using assms
  by (cases b; cases a)
     (auto simp: evaluate_query_part_def evaluate_adding_def evaluate_removing_def evaluate_updating_def
        snapshot_if_aggregating_def retract_before_def is_return_aggregating_def part_view_def passes_def act_bind_def
        filters_pass_row [OF assms(1)] project_item_row [OF assms(2)] Let_def)

subsection \<open>Queries without aggregation\<close>

definition query_view ::
    "('w row \<Rightarrow> 'x \<Rightarrow> bool) \<Rightarrow> ('w row \<Rightarrow> 'x \<Rightarrow> string \<times> 'w) \<Rightarrow> 'x query_part list \<Rightarrow> 'w row option \<Rightarrow> 'w row option" where
  "query_view pred field = fold (part_view pred field)"

definition row_diff :: "'w row option \<Rightarrow> 'w row option \<Rightarrow> 'w part_context list" where
  "row_diff b a = (if b = a then [] else [row_change b a])"

fun is_trivial :: "'w part_context \<Rightarrow> bool" where
  "is_trivial (Updating b a _) = (b = a)"
| "is_trivial _ = False"

definition item_part :: "'x query_part \<Rightarrow> bool" where
  "item_part part = (case return_clause part of Item _ \<Rightarrow> True | GroupBy _ _ \<Rightarrow> False)"

text \<open>The contexts between two parts: the change of the row, or nothing when the row stays the same.\<close>

definition carries ::
    "'v change_context \<Rightarrow> ('w part_context \<times> 'v change_context) list \<Rightarrow> 'w row option \<Rightarrow> 'w row option \<Rightarrow> bool" where
  "carries cc L b a \<longleftrightarrow> L = [] \<and> b = a \<or> (b \<noteq> None \<or> a \<noteq> None) \<and> L = [(row_change b a, cc)]"

lemma row_change_simps:
  "\<not> is_aggregation (row_change b a)" "row_change b a = Noop \<longleftrightarrow> b = None \<and> a = None"
  by (cases b; cases a; simp)+

lemma collapse_part_row:
  assumes "iter_ok it"
  shows "collapse_part h it cc [row_change b a] = (if b = None \<and> a = None then [] else [(row_change b a, cc)])"
  using assms by (auto simp: collapse_part_def into_vec_with_context_def row_change_simps iter_ok_def)

lemma collapse_part_noop: "iter_ok it \<Longrightarrow> collapse_part h it cc [Noop] = []"
  using collapse_part_row [of it h cc None None] by simp

lemma project_part_carries:
  assumes env: "evaluate_part env = evaluate_query_part pe" "iter_ok (hash_iter env)"
    and rows: "row_filters pe pred" "row_fields pe field" "item_part part"
      "\<And>x y. row_unchanged pe x y \<Longrightarrow> x = y"
    and L: "carries cc L b a"
  shows "\<exists>L'. project_part env n part L s = (Inr L', s) \<and>
    carries cc L' (part_view pred field part b) (part_view pred field part a)"
proof -
  obtain es where es: "return_clause part = Item es"
    using rows(3) by (auto simp: item_part_def split: projection_clause.splits)
  consider (same) "L = []" "b = a" | (change) "b \<noteq> None \<or> a \<noteq> None" "L = [(row_change b a, cc)]"
    using L by (auto simp: carries_def)
  then show ?thesis
  proof cases
    case same
    then show ?thesis by (simp add: project_part_def carries_def)
  next
    case change
    show ?thesis
    proof (cases "\<exists>x y. b = Some x \<and> a = Some y \<and> row_unchanged pe x y \<and> \<not> is_future_reprocess cc")
      case True
      then obtain x where x: "b = Some x" "a = Some x" "row_unchanged pe x x" "\<not> is_future_reprocess cc"
        using rows(4) by blast
      have "evaluate_query_part pe (row_change b a) n part cc s = (Inr [row_change None None], s)"
        using x by (simp add: evaluate_query_part_def evaluate_updating_def)
      then show ?thesis
        using x change env by (simp add: project_part_def act_bind_def collapse_part_noop carries_def)
    next
      case False
      have "evaluate_query_part pe (row_change b a) n part cc s =
          (Inr [row_change (part_view pred field part b) (part_view pred field part a)], s)"
        by (rule item_part_step [OF rows(1,2) es False])
      then show ?thesis
        using change env by (auto simp: project_part_def act_bind_def collapse_part_row carries_def)
    qed
  qed
qed

lemma project_parts_carries:
  assumes env: "evaluate_part env = evaluate_query_part pe" "iter_ok (hash_iter env)"
    and rows: "row_filters pe pred" "row_fields pe field" "list_all item_part parts"
      "\<And>x y. row_unchanged pe x y \<Longrightarrow> x = y"
    and L: "carries cc L b a"
  shows "\<exists>L'. act_foldl (\<lambda>(contexts, result) (n, part).
            act_bind (project_part env n part contexts) (\<lambda>r. act_return (r, r))) (L, res) (enumerate n parts) s =
      (Inr (L', if parts = [] then res else L'), s) \<and>
    carries cc L' (query_view pred field parts b) (query_view pred field parts a)"
  using rows(3) L
proof (induction parts arbitrary: L b a n res)
  case (Cons part parts)
  from Cons.prems have "item_part part" by simp
  from project_part_carries [OF env rows(1,2) this rows(4) Cons.prems(2)] obtain L' where
    L': "project_part env n part L s = (Inr L', s)"
      "carries cc L' (part_view pred field part b) (part_view pred field part a)" by blast
  from Cons.IH [OF _ L'(2), of L' "Suc n"] Cons.prems(1) L'(1) show ?case
    by (auto simp: act_bind_def query_view_def)
qed (simp add: query_view_def)


text \<open>A query for concrete evaluation: rows whose \<open>p\<close> holds, with \<open>p\<close> under the name \<open>out\<close>.\<close>

definition flag_of :: "('f, 'd, 'x, 'v) variable_value row \<Rightarrow> ('f, 'd, 'x, 'v) variable_value" where
  "flag_of r = (case bt_get r ''p'' of Some v \<Rightarrow> v | None \<Rightarrow> VNull)"

definition flag_parts ::
    "('s, 'g, ('f, 'd, 'x, 'v) variable_value, 'x, 'v, unit) part_env" where
  "flag_parts =
     \<lparr>pe_predicate = (\<lambda>ctx e. act_return (flag_of (xc_variables ctx) = VBool True)),
      pe_field = (\<lambda>ctx e. act_return (''out'', flag_of (xc_variables ctx))),
      pe_get = (\<lambda>_ _. act_return None), pe_set = (\<lambda>_ _ _. act_return ()),
      pe_value_eq = (=), pe_eq_for_groupby = (=), pe_row_hash = (\<lambda>_. 0), pe_null = VNull\<rparr>"

definition flag_query :: "unit query_part" where
  "flag_query = \<lparr>match_clauses = [], where_clauses = [()], return_clause = Item [()]\<rparr>"

definition plain_change :: "nat change_context" where
  "plain_change =
     \<lparr>cc_solution_signature = 9, before_anchor_element = None, after_anchor_element = None,
      before_clock = \<lparr>clock_transaction_time = 1, clock_realtime = 1\<rparr>,
      after_clock = \<lparr>clock_transaction_time = 2, clock_realtime = 2\<rparr>, is_future_reprocess = False,
      before_grouping_hash = 9, after_grouping_hash = 9\<rparr>"

lemma flag_rows:
  "row_filters flag_parts (\<lambda>r e. flag_of r = VBool True)" "row_fields flag_parts (\<lambda>r e. (''out'', flag_of r))"
  by (simp_all add: row_filters_def row_fields_def flag_parts_def)

lemma flag_unchanged: "row_unchanged flag_parts x y \<Longrightarrow> x = y"
  by (auto simp: row_unchanged_def flag_parts_def query_variables_unchanged_def row_eq_def
      list_all2_conv_all_nth prod_eq_iff intro: nth_equalityI)


subsection \<open>Group-by parts\<close>

text \<open>
  What a group-by part relies on: \<open>R s G\<close> says that the state \<open>s\<close> holds the aggregates of the
  groups \<open>G\<close>, each a multiset of rows. A projection returns the row \<open>out r M\<close> of the group of
  the row \<open>r\<close>; applying adds the row to its group and reverting removes it.
\<close>

definition groups_tracked ::
    "('s, 'g, 'w, 'x, 'v, 'a) part_env \<Rightarrow> 'x query_part \<Rightarrow> ('w row \<Rightarrow> 'k) \<Rightarrow> ('w row \<Rightarrow> 'w row multiset \<Rightarrow> 'w row) \<Rightarrow>
     string list \<Rightarrow> ('s \<Rightarrow> ('k \<Rightarrow> 'w row multiset) \<Rightarrow> bool) \<Rightarrow> bool" where
  "groups_tracked pe part key out keys R \<longleftrightarrow>
     (\<forall>ctx s G. R s G \<longrightarrow>
        (let r = xc_variables ctx; M = G (key r); run = project pe ctx (return_clause part) s in
         (xc_side_effects ctx = Snapshot \<longrightarrow> (\<exists>t. run = (Inr (out r M, keys), t) \<and> R t G)) \<and>
         (xc_side_effects ctx = Apply \<longrightarrow>
            (\<exists>t. run = (Inr (out r (add_mset r M), keys), t) \<and> R t (G(key r := add_mset r M)))) \<and>
         (xc_side_effects ctx \<in> {RevertForUpdate, RevertForDelete} \<and> r \<in># M \<longrightarrow>
            (\<exists>t. run = (Inr (out r (M - {#r#}), keys), t) \<and> R t (G(key r := M - {#r#})))))) \<and>
     (\<forall>b a M N. same_group pe keys (out b M) (out a N) \<longleftrightarrow> key b = key a) \<and> is_return_aggregating part"

definition groups_after ::
    "('r \<Rightarrow> 'k) \<Rightarrow> 'r option \<Rightarrow> 'r option \<Rightarrow> ('k \<Rightarrow> 'r multiset) \<Rightarrow> 'k \<Rightarrow> 'r multiset" where
  "groups_after key removed added G =
     (let H = (case removed of Some b \<Rightarrow> G(key b := G (key b) - {#b#}) | None \<Rightarrow> G)
      in case added of Some a \<Rightarrow> H(key a := add_mset a (H (key a))) | None \<Rightarrow> H)"

lemma tracked_snapshot:
  assumes "groups_tracked pe part key out keys R" "R s G" "xc_side_effects ctx = Snapshot" "xc_variables ctx = r"
  obtains t where "project pe ctx (return_clause part) s = (Inr (out r (G (key r)), keys), t)" "R t G"
  using assms by (simp add: groups_tracked_def Let_def) blast

lemma tracked_apply:
  assumes "groups_tracked pe part key out keys R" "R s G" "xc_side_effects ctx = Apply" "xc_variables ctx = r"
  obtains t where "project pe ctx (return_clause part) s = (Inr (out r (add_mset r (G (key r))), keys), t)"
    "R t (G(key r := add_mset r (G (key r))))"
  using assms by (simp add: groups_tracked_def Let_def) blast

lemma tracked_revert:
  assumes "groups_tracked pe part key out keys R" "R s G"
    "xc_side_effects ctx = RevertForUpdate \<or> xc_side_effects ctx = RevertForDelete"
    "xc_variables ctx = r" "r \<in># G (key r)"
  obtains t where "project pe ctx (return_clause part) s = (Inr (out r (G (key r) - {#r#}), keys), t)"
    "R t (G(key r := G (key r) - {#r#}))"
  using assms by (simp add: groups_tracked_def Let_def) blast

lemma tracked_same_group:
  "groups_tracked pe part key out keys R \<Longrightarrow> same_group pe keys (out b M) (out a N) \<longleftrightarrow> key b = key a"
  by (simp add: groups_tracked_def)

lemma tracked_aggregating: "groups_tracked pe part key out keys R \<Longrightarrow> is_return_aggregating part"
  by (simp add: groups_tracked_def)

lemma snapshot_tracked:
  assumes T: "groups_tracked pe part key out keys R" and R: "R s G"
  obtains t where "snapshot_if_aggregating pe part cc r s = (Inr (Some (out r (G (key r)))), t)" "R t G"
proof -
  let ?ctx = "from_before_change r Snapshot cc part"
  have ctx: "xc_side_effects ?ctx = Snapshot" "xc_variables ?ctx = r" by simp_all
  obtain t where "project pe ?ctx (return_clause part) s = (Inr (out r (G (key r)), keys), t)" "R t G"
    by (rule tracked_snapshot [OF T R ctx])
  then show thesis
    by (intro that) (simp_all add: snapshot_if_aggregating_def tracked_aggregating [OF T] act_bind_def)
qed

lemma grouping_adding:
  assumes T: "groups_tracked pe part key out keys R" and F: "row_filters pe pred" and R: "R s G" and p: "passes pred part a"
  shows "\<exists>t. evaluate_adding pe part cc a s =
      (Inr [Aggregation (Some (out a (G (key a)))) (out a (add_mset a (G (key a)))) keys True False 0], t) \<and>
      R t (groups_after key None (Some a) G)"
proof -
  have ctx: "xc_side_effects (from_after_change a cc part) = Apply" "xc_variables (from_after_change a cc part) = a"
    by simp_all
  obtain s' where s': "snapshot_if_aggregating pe part cc a s = (Inr (Some (out a (G (key a)))), s')" "R s' G"
    by (rule snapshot_tracked [OF T R])
  obtain t where "project pe (from_after_change a cc part) (return_clause part) s' =
      (Inr (out a (add_mset a (G (key a))), keys), t)" "R t (G(key a := add_mset a (G (key a))))"
    by (rule tracked_apply [OF T s'(2) ctx])
  with p s'(1) show ?thesis
    by (simp add: evaluate_adding_def tracked_aggregating [OF T] act_bind_def filters_pass_row [OF F] passes_def groups_after_def Let_def)
qed

lemma grouping_removing:
  assumes T: "groups_tracked pe part key out keys R" and F: "row_filters pe pred" and R: "R s G"
    and p: "passes pred part b" and b: "b \<in># G (key b)"
  shows "\<exists>t. evaluate_removing pe part cc b s =
      (Inr [Aggregation (Some (out b (G (key b)))) (out b (G (key b) - {#b#})) keys False True 0], t) \<and>
      R t (groups_after key (Some b) None G)"
proof -
  let ?ctx = "from_before_change b RevertForDelete cc part"
  have ctx: "xc_side_effects ?ctx = RevertForUpdate \<or> xc_side_effects ?ctx = RevertForDelete" "xc_variables ?ctx = b"
    by simp_all
  obtain s' where s': "snapshot_if_aggregating pe part cc b s = (Inr (Some (out b (G (key b)))), s')" "R s' G"
    by (rule snapshot_tracked [OF T R])
  obtain t where "project pe ?ctx (return_clause part) s' =
      (Inr (out b (G (key b) - {#b#}), keys), t)" "R t (G(key b := G (key b) - {#b#}))"
    by (rule tracked_revert [OF T s'(2) ctx b])
  with p s'(1) show ?thesis
    by (simp add: evaluate_removing_def tracked_aggregating [OF T] act_bind_def filters_pass_row [OF F] passes_def groups_after_def Let_def)
qed

lemma retract_before_group:
  assumes T: "groups_tracked pe part key out keys R" and F: "row_filters pe pred" and R: "R s G"
    and b: "passes pred part b \<Longrightarrow> b \<in># G (key b)"
  shows "\<exists>t. retract_before pe part cc b s =
      (Inr (if passes pred part b then Some (out b (G (key b)), keys, out b (G (key b) - {#b#})) else None), t) \<and>
      R t (groups_after key (if passes pred part b then Some b else None) None G)"
proof (cases "passes pred part b")
  case True
  let ?ctx = "from_before_change b RevertForUpdate cc part"
  have ctx: "xc_side_effects ?ctx = RevertForUpdate \<or> xc_side_effects ?ctx = RevertForDelete" "xc_variables ?ctx = b"
    by simp_all
  let ?snap = "from_before_change b Snapshot cc part"
  have snap: "xc_side_effects ?snap = Snapshot" "xc_variables ?snap = b" by simp_all
  obtain s' where s': "project pe ?snap (return_clause part) s = (Inr (out b (G (key b)), keys), s')" "R s' G"
    by (rule tracked_snapshot [OF T R snap])
  obtain t where "project pe ?ctx (return_clause part) s' =
      (Inr (out b (G (key b) - {#b#}), keys), t)" "R t (G(key b := G (key b) - {#b#}))"
    by (rule tracked_revert [OF T s'(2) ctx b [OF True]])
  with True s'(1) show ?thesis
    by (simp add: retract_before_def act_bind_def filters_pass_row [OF F] passes_def
        groups_after_def Let_def)
next
  case False
  then show ?thesis
    using R by (simp add: retract_before_def act_bind_def filters_pass_row [OF F] passes_def groups_after_def Let_def)
qed

definition update_reports ::
    "('w row \<Rightarrow> 'k) \<Rightarrow> ('w row \<Rightarrow> 'w row multiset \<Rightarrow> 'w row) \<Rightarrow> string list \<Rightarrow> bool \<Rightarrow> bool \<Rightarrow> 'w row \<Rightarrow> 'w row \<Rightarrow>
     ('k \<Rightarrow> 'w row multiset) \<Rightarrow> ('k \<Rightarrow> 'w row multiset) \<Rightarrow> 'w part_context list" where
  "update_reports key out keys pb pa b a G H =
     (if \<not> pa then if pb then [Aggregation (Some (out b (G (key b)))) (out b (H (key b))) keys False False 0] else [Noop]
      else if \<not> pb then [Aggregation None (out a (H (key a))) keys False False 0]
      else if key b = key a then [Aggregation (Some (out b (G (key b)))) (out a (H (key a))) keys False False 0]
      else [Aggregation (Some (out a (G (key a)))) (out a (H (key a))) keys True False 0,
            Aggregation (Some (out b (G (key b)))) (out b (H (key b))) keys False True 0])"

lemma grouping_updating:
  fixes pe :: "('s, 'g, 'w, 'x, 'v, 'a) part_env"
  assumes T: "groups_tracked pe part key out keys R" and F: "row_filters pe pred" and R: "R s G"
    and b: "passes pred part b \<Longrightarrow> b \<in># G (key b)" and u: "\<not> (row_unchanged pe b a \<and> \<not> is_future_reprocess cc)"
  defines "bo \<equiv> if passes pred part b then Some b else None" and "ao \<equiv> if passes pred part a then Some a else None"
  shows "\<exists>t. evaluate_updating pe part cc b a s =
      (Inr (update_reports key out keys (passes pred part b) (passes pred part a) b a G (groups_after key bo ao G)), t) \<and>
      R t (groups_after key bo ao G)"
proof -
  let ?H = "groups_after key bo None G" and ?ctx = "from_after_change a cc part"
  obtain s' where s': "snapshot_if_aggregating pe part cc a s = (Inr (Some (out a (G (key a)))), s')" "R s' G"
    by (rule snapshot_tracked [OF T R])
  obtain t where t: "retract_before pe part cc b s' =
        (Inr (if passes pred part b then Some (out b (G (key b)), keys, out b (G (key b) - {#b#})) else None), t)" "R t ?H"
    using retract_before_group [OF T F s'(2) b] unfolding bo_def by blast
  have start: "evaluate_updating pe part cc b a s =
      (if passes pred part a
       then act_bind (project pe ?ctx (return_clause part))
         (\<lambda>(out', keys'). reconcile_crossing_aggregate pe part cc keys' (Some b)
            (if passes pred part b then Some (out b (G (key b))) else None) out' (Some (out a (G (key a))))) t
       else if passes pred part b
       then reconcile_crossing_aggregate pe part cc keys (Some b) (Some (out b (G (key b)))) (out b (G (key b) - {#b#}))
              (Some (out a (G (key a)))) t
       else (Inr [Noop], t))"
    unfolding evaluate_updating_def if_not_P [OF u] using t(1) s'(1)
    by (simp add: tracked_aggregating [OF T] act_bind_def filters_pass_row [OF F] passes_def Let_def split: prod.split sum.split)
  show ?thesis
  proof (cases "passes pred part a")
    case False
    have "groups_after key bo ao G = ?H" by (simp add: ao_def False)
    then show ?thesis
      using t(2) False
      by (auto simp: start update_reports_def reconcile_crossing_aggregate_def tracked_same_group [OF T]
          groups_after_def bo_def Let_def)
  next
    case True
    have ctx: "xc_side_effects ?ctx = Apply" "xc_variables ?ctx = a" by simp_all
    obtain v where v: "project pe ?ctx (return_clause part) t = (Inr (out a (add_mset a (?H (key a))), keys), v)"
        "R v (?H(key a := add_mset a (?H (key a))))"
      by (rule tracked_apply [OF T, OF t(2) ctx])
    have H: "groups_after key bo ao G = ?H(key a := add_mset a (?H (key a)))"
      by (simp add: ao_def True groups_after_def Let_def)
    let ?prev = "(new_context b (before_clock cc) :: ('w, 'x, 'v) expression_context)\<lparr>xc_side_effects := Snapshot\<rparr>"
    have prev: "xc_side_effects ?prev = Snapshot" "xc_variables ?prev = b" by (simp_all add: new_context_def)
    have Rv: "R v (groups_after key bo ao G)" using v(2) by (simp add: H)
    obtain w where w: "project pe ?prev (return_clause part) v = (Inr (out b (groups_after key bo ao G (key b)), keys), w)"
        "R w (groups_after key bo ao G)"
      by (rule tracked_snapshot [OF T, OF Rv prev])
    have "out a (add_mset a (?H (key a))) = out a (groups_after key bo ao G (key a))"
      by (simp add: H)
    then show ?thesis
      using v(1) True w Rv
      by (intro exI [of _ "if passes pred part b \<and> key b \<noteq> key a then w else v"])
         (simp add: start update_reports_def reconcile_crossing_aggregate_def act_bind_def tracked_same_group [OF T])
  qed
qed

definition change_reports ::
    "('w row \<Rightarrow> 'x \<Rightarrow> bool) \<Rightarrow> 'x query_part \<Rightarrow> ('w row \<Rightarrow> 'k) \<Rightarrow> ('w row \<Rightarrow> 'w row multiset \<Rightarrow> 'w row) \<Rightarrow> string list \<Rightarrow>
     'w row option \<Rightarrow> 'w row option \<Rightarrow> ('k \<Rightarrow> 'w row multiset) \<Rightarrow> ('k \<Rightarrow> 'w row multiset) \<Rightarrow> 'w part_context list" where
  "change_reports pred part key out keys b a G H =
     (case (b, a) of
        (Some x, Some y) \<Rightarrow> update_reports key out keys (passes pred part x) (passes pred part y) x y G H
      | (None, Some y) \<Rightarrow>
          if passes pred part y then [Aggregation (Some (out y (G (key y)))) (out y (H (key y))) keys True False 0] else [Noop]
      | (Some x, None) \<Rightarrow>
          if passes pred part x then [Aggregation (Some (out x (G (key x)))) (out x (H (key x))) keys False True 0] else [Noop]
      | (None, None) \<Rightarrow> [Noop])"

definition passing :: "('w row \<Rightarrow> 'x \<Rightarrow> bool) \<Rightarrow> 'x query_part \<Rightarrow> 'w row option \<Rightarrow> 'w row option" where
  "passing pred part r = Option.bind r (\<lambda>x. if passes pred part x then Some x else None)"

lemma passing_simps [simp]:
  "passing pred part None = None" "passing pred part (Some x) = (if passes pred part x then Some x else None)"
  by (simp_all add: passing_def)

lemma grouping_part_step:
  assumes "groups_tracked pe part key out keys R" "row_filters pe pred" "R s G" "b \<noteq> None \<or> a \<noteq> None"
    "\<And>x. passing pred part b = Some x \<Longrightarrow> x \<in># G (key x)"
    "\<And>x y. b = Some x \<Longrightarrow> a = Some y \<Longrightarrow> \<not> (row_unchanged pe x y \<and> \<not> is_future_reprocess cc)"
  defines "H \<equiv> groups_after key (passing pred part b) (passing pred part a) G"
  shows "\<exists>t. evaluate_query_part pe (row_change b a) n part cc s =
      (Inr (change_reports pred part key out keys b a G H), t) \<and> R t H"
proof -
  consider (add) y where "b = None" "a = Some y" | (rem) x where "b = Some x" "a = None"
    | (upd) x y where "b = Some x" "a = Some y" using assms(4) by (cases b; cases a) auto
  then show ?thesis
  proof cases
    case add
    show ?thesis
    proof (cases "passes pred part y")
      case True
      have "H (key y) = add_mset y (G (key y))" by (simp add: H_def add True groups_after_def)
      with grouping_adding [OF assms(1-3) True, of cc] add True show ?thesis
        by (auto simp: evaluate_query_part_def change_reports_def H_def)
    next
      case False
      obtain t where "snapshot_if_aggregating pe part cc y s = (Inr (Some (out y (G (key y)))), t)" "R t G"
        by (rule snapshot_tracked [OF assms(1,3)])
      with False add show ?thesis
        by (simp add: evaluate_query_part_def evaluate_adding_def act_bind_def H_def
            filters_pass_row [OF assms(2)] passes_def groups_after_def change_reports_def Let_def)
    qed
  next
    case rem
    show ?thesis
    proof (cases "passes pred part x")
      case True
      have x: "x \<in># G (key x)" using assms(5) [of x] rem True by simp
      have "H (key x) = G (key x) - {#x#}" by (simp add: H_def rem True groups_after_def)
      with grouping_removing [OF assms(1-3) True x, of cc] rem True show ?thesis
        by (auto simp: evaluate_query_part_def change_reports_def H_def)
    next
      case False
      obtain t where "snapshot_if_aggregating pe part cc x s = (Inr (Some (out x (G (key x)))), t)" "R t G"
        by (rule snapshot_tracked [OF assms(1,3)])
      with False rem show ?thesis
        by (simp add: evaluate_query_part_def evaluate_removing_def act_bind_def H_def
            filters_pass_row [OF assms(2)] passes_def groups_after_def change_reports_def Let_def)
    qed
  next
    case upd
    then have x: "passes pred part x \<Longrightarrow> x \<in># G (key x)" using assms(5) [of x] by simp
    show ?thesis
      using grouping_updating [OF assms(1-3) x assms(6) [OF upd]] upd
      by (simp add: evaluate_query_part_def change_reports_def H_def)
  qed
qed

text \<open>The transition of one group between the groups before and after.\<close>

definition group_transition ::
    "('w row \<Rightarrow> 'k) \<Rightarrow> ('w row \<Rightarrow> 'w row multiset \<Rightarrow> 'w row) \<Rightarrow> string list \<Rightarrow> bool \<Rightarrow> ('k \<Rightarrow> 'w row multiset) \<Rightarrow>
     ('k \<Rightarrow> 'w row multiset) \<Rightarrow> 'k \<Rightarrow> 'w part_context \<Rightarrow> bool" where
  "group_transition key out keys entered G H k c \<longleftrightarrow>
     (\<exists>x y before db da. key x = k \<and> key y = k \<and> c = Aggregation before (out y (H k)) keys db da 0 \<and>
        before = (if entered then None else Some (out x (G k))))"

lemma group_transitionI:
  "key x = k \<Longrightarrow> key y = k \<Longrightarrow>
     group_transition key out keys False G H k (Aggregation (Some (out x (G k))) (out y (H k)) keys db da 0)"
  "key y = k \<Longrightarrow> group_transition key out keys True G H k (Aggregation None (out y (H k)) keys db da 0)"
  by (auto simp: group_transition_def)

definition enters_by_update :: "('w row \<Rightarrow> 'x \<Rightarrow> bool) \<Rightarrow> 'x query_part \<Rightarrow> 'w row option \<Rightarrow> 'w row option \<Rightarrow> bool" where
  "enters_by_update pred part b a \<longleftrightarrow> b \<noteq> None \<and> passing pred part b = None \<and> passing pred part a \<noteq> None"

lemma groups_after_changed:
  "groups_after key b a G k \<noteq> G k \<Longrightarrow> (\<exists>x. b = Some x \<and> key x = k) \<or> (\<exists>y. a = Some y \<and> key y = k)"
  by (auto simp: groups_after_def Let_def split: option.splits if_splits)

lemma change_reports_transitions:
  "list_all (\<lambda>c. c = Noop \<or> (\<exists>k. group_transition key out keys (enters_by_update pred part b a) G H k c))
     (change_reports pred part key out keys b a G H)"
  by (auto simp: change_reports_def update_reports_def enters_by_update_def intro: group_transitionI split: option.split)

lemma change_reports_complete:
  assumes "(\<exists>x. passing pred part b = Some x \<and> key x = k) \<or> (\<exists>y. passing pred part a = Some y \<and> key y = k)"
  shows "list_ex (group_transition key out keys (enters_by_update pred part b a) G H k)
     (change_reports pred part key out keys b a G H)"
  using assms
  by (cases b; cases a)
     (auto simp: change_reports_def update_reports_def enters_by_update_def intro: group_transitionI split: if_splits)


text \<open>A group reported without its aggregates before: the next part adds its row and retracts nothing.\<close>

lemma entering_group_added:
  assumes T: "groups_tracked pe part key out keys R" and F: "row_filters pe pred" and R: "R s G" and p: "passes pred part r"
    and set: "\<And>k v s. R s G \<Longrightarrow> \<exists>t. pe_set pe k (PartCurrent n) v s = (Inr (), t) \<and> R t G"
  shows "\<exists>t. evaluate_query_part pe (Aggregation None r ks False False sig) n part cc s =
      (Inr [Aggregation None (out r (add_mset r (G (key r)))) keys False False 0], t) \<and>
      R t (G(key r := add_mset r (G (key r))))"
proof -
  let ?ctx = "(from_after_change r cc part)\<lparr>xc_side_effects := Apply\<rparr>"
  have ctx: "xc_side_effects ?ctx = Apply" "xc_variables ?ctx = r" by (simp_all add: from_after_change_def)
  let ?k = "groupby_from_variables (pe_null pe) ks r" and ?v = "Some (SignatureAcc (aggregation_snapshot_hash pe ks r))"
  obtain s1 where s1: "pe_set pe ?k (PartCurrent n) ?v s = (Inr (), s1)" "R s1 G" using set [OF R] by blast
  obtain s2 where s2: "snapshot_if_aggregating pe part cc r s1 = (Inr (Some (out r (G (key r)))), s2)" "R s2 G"
    by (rule snapshot_tracked [OF T s1(2)])
  obtain t where t: "project pe ?ctx (return_clause part) s2 = (Inr (out r (add_mset r (G (key r))), keys), t)"
      "R t (G(key r := add_mset r (G (key r))))"
    by (rule tracked_apply [OF T s2(2) ctx])
  have "evaluate_query_part pe (Aggregation None r ks False False sig) n part cc s =
      (Inr [Aggregation None (out r (add_mset r (G (key r)))) keys False False 0], t)"
    using s1(1) s2(1) t(1) p ctx(2)
    by (simp add: evaluate_query_part_def evaluate_aggregation_def should_revert_def should_apply_def act_bind_def
        project_optional_def filters_pass_row [OF F] passes_def reconcile_crossing_aggregate_def
        tracked_aggregating [OF T] Let_def)
  with t(2) show ?thesis by blast
qed

text \<open>
  C36. A query that aggregates its groups again. When an update lets a row pass the filters of
  the first part, its group is reported without the row it had before, so the second part
  counts the new row of the group in addition to the old one, which is still there.
\<close>

theorem entering_row_counted_twice:
  assumes "groups_tracked pe part1 key1 out1 keys1 R1" "groups_tracked pe part2 key2 out2 keys2 R2"
    "row_filters pe pred" "R1 s G1"
    "\<not> passes pred part1 x" "passes pred part1 y" "\<not> row_unchanged pe x y"
    "R2 (snd (evaluate_query_part pe (row_change (Some x) (Some y)) 1 part1 cc s)) G2"
    "\<And>k v s. R2 s G2 \<Longrightarrow> \<exists>t. pe_set pe k (PartCurrent 2) v s = (Inr (), t) \<and> R2 t G2"
    "r = out1 y (add_mset y (G1 (key1 y)))" "passes pred part2 r"
    "old = out1 z (G1 (key1 y))" "old \<in># G2 (key2 r)"
  shows "\<exists>c t u H. evaluate_query_part pe (row_change (Some x) (Some y)) 1 part1 cc s = (Inr [c], t) \<and>
    evaluate_query_part pe c 2 part2 cc t =
      (Inr [Aggregation None (out2 r (add_mset r (G2 (key2 r)))) keys2 False False 0], u) \<and>
    R2 u H \<and> H (key2 r) = add_mset r (G2 (key2 r)) \<and> old \<in># H (key2 r)"
proof -
  have pass: "passing pred part1 (Some x) = Some w \<Longrightarrow> w \<in># G1 (key1 w)" for w using assms(5) by simp
  have ne: "Some x = Some v \<Longrightarrow> Some y = Some w \<Longrightarrow> \<not> (row_unchanged pe v w \<and> \<not> is_future_reprocess cc)" for v w
    using assms(7) by simp
  obtain t where t: "evaluate_query_part pe (row_change (Some x) (Some y)) 1 part1 cc s =
      (Inr [Aggregation None r keys1 False False 0], t)"
    using grouping_part_step [where b = "Some x" and a = "Some y" and n = 1, OF assms(1,3,4) _ pass ne] assms(5,6,10)
    by (auto simp: change_reports_def update_reports_def groups_after_def)
  have "R2 t G2" using assms(8) t by simp
  from entering_group_added [OF assms(2,3) this assms(11) assms(9), of keys1 0 cc] t assms(13)
  show ?thesis by fastforce
qed

subsection \<open>Counting groups on the in-memory index\<close>

text \<open>
  A two-part query for concrete evaluation: rows with \<open>p\<close> are grouped by \<open>g\<close> and counted, and
  the second part counts the groups. The counters are those of the aggregating function on the
  in-memory result index.
\<close>

type_synonym plain_value = "(f64, unit, nat, nat) variable_value"

fun counting_hash :: "result_owner \<Rightarrow> plain_value result_key \<Rightarrow> u64" where
  "counting_hash (FunctionOwner n) k = (if n = 2 then 2 else if k = GroupKey [VBool True] then 1 else 0)"
| "counting_hash (PartCurrent n) k = 3"
| "counting_hash (PartDefault n) k = 4"

definition in_group :: "plain_value row \<Rightarrow> bool" where
  "in_group r \<longleftrightarrow> bt_get r ''g'' = Some (VBool True)"

definition counting_call ::
    "nat \<Rightarrow> plain_value list \<Rightarrow> side_effects \<Rightarrow>
     ((rat, unit value_accumulator) result_index, index_error agg_error, plain_value) action" where
  "counting_call n keys side = evaluate_aggregate (memory_accumulators counting_hash) Count_function n keys side [VBool True]"

definition counting_parts ::
    "((rat, unit value_accumulator) result_index, index_error agg_error, plain_value, nat, nat, unit) part_env" where
  "counting_parts =
     \<lparr>pe_predicate = (\<lambda>ctx e. act_return (flag_of (xc_variables ctx) = VBool True)),
      pe_field = (\<lambda>ctx e.
        if e = 0 then act_return (''g'', VBool (in_group (xc_variables ctx)))
        else if e = 1 then act_bind (counting_call 1 [VBool (in_group (xc_variables ctx))] (xc_side_effects ctx)) (\<lambda>v. act_return (''n'', v))
        else act_bind (counting_call 2 [] (xc_side_effects ctx)) (\<lambda>v. act_return (''groups'', v))),
      pe_get = (\<lambda>k ow. act_map_err AggIndex (ri_get counting_hash k ow)),
      pe_set = (\<lambda>k ow v. act_map_err AggIndex (ri_set counting_hash k ow v)),
      pe_value_eq = (=), pe_eq_for_groupby = (=), pe_row_hash = (\<lambda>_. 0), pe_null = VNull\<rparr>"

definition count_of :: "(rat, 'a value_accumulator) result_index \<Rightarrow> u64 \<Rightarrow> 64 word option" where
  "count_of s k = (case ri_values s k of None \<Rightarrow> Some 0 | Some (CountAcc n) \<Rightarrow> Some n | _ \<Rightarrow> None)"

fun side_word :: "side_effects \<Rightarrow> 64 word" where
  "side_word Apply = 1"
| "side_word Snapshot = 0"
| "side_word _ = - 1"

lemma load_counter:
  assumes "count_of s (h (FunctionOwner n) (GroupKey keys)) = Some c"
  shows "load_accumulator (memory_accumulators h) Count_function n keys s = (Inr (ValueAccumulator (CountAcc c)), s)"
  using assms
  by (auto simp: count_of_def load_accumulator_def Count_function_def memory_accumulators_def ri_get_def act_bind_def
      split: option.splits value_accumulator.splits)

lemma run_counter:
  "run_aggregate Count_function side [VBool b] (ValueAccumulator (CountAcc c)) s =
     (Inr (VInteger (from_signed (c + side_word side)), ValueAccumulator (CountAcc (c + side_word side))), s)"
  by (cases side) (simp_all add: run_aggregate_def Count_function_def count_apply_def count_revert_def count_change_def
      count_snapshot_def act_bind_def)

lemma store_counter:
  "store_accumulator (memory_accumulators h) n keys (ValueAccumulator a) s =
     (Inr (), s\<lparr>ri_values := (ri_values s)(h (FunctionOwner n) (GroupKey keys) \<mapsto> a)\<rparr>)"
  by (simp add: store_accumulator_def memory_accumulators_def ri_set_def)

lemma counting_call_run:
  assumes "count_of s (counting_hash (FunctionOwner n) (GroupKey keys)) = Some c"
  shows "counting_call n keys side s =
    (Inr (VInteger (from_signed (c + side_word side))),
     s\<lparr>ri_values := (ri_values s)(counting_hash (FunctionOwner n) (GroupKey keys) \<mapsto> CountAcc (c + side_word side))\<rparr>)"
  unfolding counting_call_def evaluate_aggregate_def
  by (simp add: act_bind_def act_map_err_def load_counter [where h = counting_hash, OF assms] run_counter store_counter del: counting_hash.simps)

definition counted_row :: "plain_value row \<Rightarrow> plain_value row multiset \<Rightarrow> plain_value row" where
  "counted_row r M = bt_insert ''n'' (VInteger (from_signed (of_nat (size M)))) (bt_insert ''g'' (VBool (in_group r)) [])"

definition groups_row :: "plain_value row \<Rightarrow> plain_value row multiset \<Rightarrow> plain_value row" where
  "groups_row r M = bt_insert ''groups'' (VInteger (from_signed (of_nat (size M)))) []"

definition counting_part :: "nat query_part" where
  "counting_part = \<lparr>match_clauses = [], where_clauses = [0], return_clause = GroupBy [0] [1]\<rparr>"

definition groups_part :: "nat query_part" where
  "groups_part = \<lparr>match_clauses = [], where_clauses = [], return_clause = GroupBy [] [2]\<rparr>"

definition group_counter :: "bool \<Rightarrow> u64" where
  "group_counter b = (if b then 1 else 0)"

lemma group_counter_inj [simp]: "group_counter b = group_counter c \<longleftrightarrow> b = c"
  by (simp add: group_counter_def)

lemma counting_hash_group: "counting_hash (FunctionOwner (Suc 0)) (GroupKey [VBool b]) = group_counter b"
  by (simp add: group_counter_def)

definition counts_groups :: "(rat, unit value_accumulator) result_index \<Rightarrow> (bool \<Rightarrow> plain_value row multiset) \<Rightarrow> bool" where
  "counts_groups s G \<longleftrightarrow> (\<forall>b. count_of s (group_counter b) = Some (of_nat (size (G b))))"

definition counts_all :: "(rat, unit value_accumulator) result_index \<Rightarrow> (unit \<Rightarrow> plain_value row multiset) \<Rightarrow> bool" where
  "counts_all s G \<longleftrightarrow> count_of s 2 = Some (of_nat (size (G ())))"

lemma of_nat_size_add: "(of_nat (size (add_mset r M)) :: 64 word) = of_nat (size M) + 1"
  by simp

lemma of_nat_size_remove: "r \<in># M \<Longrightarrow> (of_nat (size (M - {#r#})) :: 64 word) = of_nat (size M) + - 1"
  by (simp add: size_Diff_singleton word_of_nat_pred)

lemma count_of_update: "count_of (s\<lparr>ri_values := (ri_values s)(k \<mapsto> CountAcc c)\<rparr>) j = (if j = k then Some c else count_of s j)"
  by (simp add: count_of_def)

lemma project_counting:
  assumes "counts_groups s G" "xc_variables ctx = r"
  shows "\<exists>t. project counting_parts ctx (return_clause counting_part) s =
      (Inr (bt_insert ''n'' (VInteger (from_signed (of_nat (size (G (in_group r))) + side_word (xc_side_effects ctx))))
             (bt_insert ''g'' (VBool (in_group r)) []), [''g'']), t) \<and>
    (\<forall>b. count_of t (group_counter b) =
       Some (of_nat (size (G b)) + (if b = in_group r then side_word (xc_side_effects ctx) else 0)))"
proof -
  have "count_of s (counting_hash (FunctionOwner 1) (GroupKey [VBool (in_group r)])) = Some (of_nat (size (G (in_group r))))"
    using assms(1) by (simp add: counts_groups_def counting_hash_group del: counting_hash.simps)
  from counting_call_run [OF this, of "xc_side_effects ctx"] assms show ?thesis
    by (simp add: project_def project_fields_def counting_part_def counting_parts_def act_bind_def assms(2)
        count_of_update counts_groups_def counting_hash_group eq_commute [of _ "in_group r"] del: counting_hash.simps)
qed

lemma counting_tracked: "groups_tracked counting_parts counting_part in_group counted_row [''g''] counts_groups"
proof -
  have "same_group counting_parts [''g''] (counted_row b M) (counted_row a N) \<longleftrightarrow> in_group b = in_group a" for b a M N
    by (simp add: same_group_def counted_row_def counting_parts_def bt_simps)
  moreover have "is_return_aggregating counting_part" by (simp add: is_return_aggregating_def counting_part_def)
  ultimately show ?thesis
    unfolding groups_tracked_def Let_def
  proof (intro conjI allI impI; (elim conjE)?)
    fix ctx s G
    assume "counts_groups s G"
    note run = project_counting [OF this refl, of ctx]
    show "\<exists>t. project counting_parts ctx (return_clause counting_part) s =
        (Inr (counted_row (xc_variables ctx) (G (in_group (xc_variables ctx))), [''g'']), t) \<and> counts_groups t G"
      if "xc_side_effects ctx = Snapshot"
      using run that by (auto simp: counted_row_def counts_groups_def)
    show "\<exists>t. project counting_parts ctx (return_clause counting_part) s =
        (Inr (counted_row (xc_variables ctx) (add_mset (xc_variables ctx) (G (in_group (xc_variables ctx)))), [''g'']), t) \<and>
        counts_groups t (G(in_group (xc_variables ctx) := add_mset (xc_variables ctx) (G (in_group (xc_variables ctx)))))"
      if "xc_side_effects ctx = Apply"
      using run that by (auto simp: counted_row_def counts_groups_def add.commute)
    show "\<exists>t. project counting_parts ctx (return_clause counting_part) s =
        (Inr (counted_row (xc_variables ctx) (G (in_group (xc_variables ctx)) - {#xc_variables ctx#}), [''g'']), t) \<and>
        counts_groups t (G(in_group (xc_variables ctx) := G (in_group (xc_variables ctx)) - {#xc_variables ctx#}))"
      if "xc_side_effects ctx \<in> {RevertForUpdate, RevertForDelete}" "xc_variables ctx \<in># G (in_group (xc_variables ctx))"
      using run that by (auto simp: counted_row_def counts_groups_def of_nat_size_remove)
  qed simp_all
qed

lemma project_groups:
  assumes "counts_all s G"
  shows "project counting_parts ctx (return_clause groups_part) s =
      (Inr (bt_insert ''groups'' (VInteger (from_signed (of_nat (size (G ())) + side_word (xc_side_effects ctx)))) [], []),
       s\<lparr>ri_values := (ri_values s)(2 \<mapsto> CountAcc (of_nat (size (G ())) + side_word (xc_side_effects ctx)))\<rparr>)"
proof -
  have "count_of s (counting_hash (FunctionOwner 2) (GroupKey [])) = Some (of_nat (size (G ())))"
    using assms by (simp add: counts_all_def)
  from counting_call_run [OF this, of "xc_side_effects ctx"] show ?thesis
    by (simp add: project_def project_fields_def groups_part_def counting_parts_def act_bind_def)
qed

lemma groups_tracked_all: "groups_tracked counting_parts groups_part (\<lambda>r. ()) groups_row [] counts_all"
proof -
  have "is_return_aggregating groups_part" by (simp add: is_return_aggregating_def groups_part_def)
  then show ?thesis
    by (auto simp: groups_tracked_def Let_def project_groups groups_row_def counts_all_def count_of_update
        of_nat_size_remove same_group_def add.commute)
qed

lemma counting_filters: "row_filters counting_parts (\<lambda>r e. flag_of r = VBool True)"
  by (simp add: row_filters_def counting_parts_def)

definition flagged :: "bool \<Rightarrow> plain_value row" where
  "flagged p = [(''g'', VBool True), (''p'', VBool p)]"

definition one_counted :: "(rat, unit value_accumulator) result_index" where
  "one_counted = new_result_index\<lparr>ri_values := [1 \<mapsto> CountAcc 1, 2 \<mapsto> CountAcc 1]\<rparr>"

definition one_group :: "bool \<Rightarrow> plain_value row multiset" where
  "one_group b = (if b then {#flagged True#} else {#})"

lemma one_counted_groups: "counts_groups one_counted one_group"
  by (simp add: counts_groups_def one_counted_def count_of_def group_counter_def one_group_def new_result_index_def)

lemma flagged_simps:
  "passes (\<lambda>r e. flag_of r = VBool True) counting_part (flagged p) \<longleftrightarrow> p" "in_group (flagged p)"
  "row_unchanged counting_parts (flagged p) (flagged q) \<longleftrightarrow> p = q"
  by (simp_all add: passes_def flag_of_def flagged_def counting_part_def in_group_def row_unchanged_def
      query_variables_unchanged_def row_eq_def counting_parts_def)


text \<open>The group of the second part holds the row of the first group before the update.\<close>

definition one_row :: "unit \<Rightarrow> plain_value row multiset" where
  "one_row u = {#counted_row (flagged True) (one_group True)#}"

lemma updating_keeps_groups:
  "counts_all (snd (evaluate_query_part counting_parts (row_change (Some (flagged False)) (Some (flagged True))) 1
      counting_part plain_change one_counted)) one_row"
  by code_simp

theorem entering_row_counted_twice_witness:
  "\<exists>c t u. evaluate_query_part counting_parts (row_change (Some (flagged False)) (Some (flagged True))) 1 counting_part
       plain_change one_counted = (Inr [c], t) \<and>
     evaluate_query_part counting_parts c 2 groups_part plain_change t =
       (Inr [Aggregation None [(''groups'', VInteger (PosInt 2))] [] False False 0], u)"
proof -
  let ?r = "counted_row (flagged True) (add_mset (flagged True) (one_group (in_group (flagged True))))"
  have "passes (\<lambda>r e. flag_of r = VBool True) groups_part ?r"
    by (simp add: passes_def groups_part_def)
  moreover have "\<exists>t. pe_set counting_parts k (PartCurrent 2) v s = (Inr (), t) \<and> counts_all t one_row"
    if "counts_all s one_row" for k v s
    using that by (simp add: counting_parts_def ri_set_def counts_all_def count_of_def)
  moreover have "\<not> passes (\<lambda>r e. flag_of r = VBool True) counting_part (flagged False)"
    "passes (\<lambda>r e. flag_of r = VBool True) counting_part (flagged True)"
    "\<not> row_unchanged counting_parts (flagged False) (flagged True)"
    by (simp_all add: flagged_simps)
  moreover have "counted_row (flagged True) (one_group (in_group (flagged True))) \<in># one_row ()"
    by (simp add: one_row_def flagged_simps)
  ultimately obtain c t u where
    "evaluate_query_part counting_parts (row_change (Some (flagged False)) (Some (flagged True))) 1 counting_part
       plain_change one_counted = (Inr [c], t)"
    "evaluate_query_part counting_parts c 2 groups_part plain_change t =
       (Inr [Aggregation None (groups_row ?r (add_mset ?r (one_row ()))) [] False False 0], u)"
    using entering_row_counted_twice [OF counting_tracked groups_tracked_all counting_filters one_counted_groups
        _ _ _ updating_keeps_groups _ refl _ refl] by blast
  moreover have "groups_row ?r (add_mset ?r (one_row ())) = [(''groups'', VInteger (PosInt 2))]"
    by (simp add: groups_row_def one_row_def from_signed_def)
  ultimately show ?thesis by auto
qed

end
