(* ===== verification/Future_Queue.thy ===== *)
theory Future_Queue
  imports Models
begin

text \<open>
  The queue of elements to be processed again later: the interface
  \<^verbatim>\<open>src/core/src/interface/future_queue.rs\<close>, the in-memory queue
  \<^verbatim>\<open>src/core/src/in_memory_index/in_memory_future_queue.rs\<close> and the queue that remembers the head,
  \<^verbatim>\<open>src/core/src/index_cache/shadowed_future_queue.rs\<close>.

  The heap of the in-memory queue (crate \<^verbatim>\<open>priority_queue\<close>) is a map from items to
  priorities; among items of the same priority it may return any, here the first in an
  arbitrary order \<open>it\<close> of iteration.
\<close>

subsection \<open>The interface\<close>

datatype push_type = Always | IfNotExists | Overwrite

type_synonym future_item = "nat \<times> future_element_ref"

record ('s, 'e) future_queue_ops =
  q_push :: "push_type \<Rightarrow> nat \<Rightarrow> u64 \<Rightarrow> element_reference \<Rightarrow> u64 \<Rightarrow> u64 \<Rightarrow> ('s, 'e, bool) action"
  q_remove :: "nat \<Rightarrow> u64 \<Rightarrow> ('s, 'e, unit) action"
  q_pop :: "('s, 'e, future_element_ref option) action"
  q_peek :: "('s, 'e, u64 option) action"
  q_clear :: "('s, 'e, unit) action"

subsection \<open>The in-memory queue\<close>

record future_queue_state =
  fq_queue :: "future_item \<rightharpoonup> 64 word"
  fq_map :: "nat \<times> u64 \<rightharpoonup> (u64, u64 \<times> element_reference) btree"

definition new_future_queue :: future_queue_state where
  "new_future_queue = \<lparr>fq_queue = Map.empty, fq_map = Map.empty\<rparr>"

definition future_ref :: "u64 \<Rightarrow> element_reference \<Rightarrow> u64 \<Rightarrow> u64 \<Rightarrow> future_element_ref" where
  "future_ref g r original due =
     \<lparr>element_ref = r, original_time = original, due_time = due, group_signature = g\<rparr>"

text \<open>\<open>remove\<close>: the entries of the group are removed from the heap one by one.\<close>

definition drop_group :: "nat \<Rightarrow> u64 \<Rightarrow> future_queue_state \<Rightarrow> future_queue_state" where
  "drop_group p g s =
     (case fq_map s (p, g) of
        None \<Rightarrow> s
      | Some m \<Rightarrow>
          s\<lparr>fq_map := (fq_map s)((p, g) := None),
            fq_queue := fold (\<lambda>(due, original, r) q. q((p, future_ref g r original due) := None)) m (fq_queue s)\<rparr>)"

definition fq_push ::
    "push_type \<Rightarrow> nat \<Rightarrow> u64 \<Rightarrow> element_reference \<Rightarrow> u64 \<Rightarrow> u64 \<Rightarrow> (future_queue_state, index_error, bool) action" where
  "fq_push pt p g r original due s =
     (let should_push =
            (case pt of
               Always \<Rightarrow> True
             | IfNotExists \<Rightarrow> (case fq_map s (p, g) of Some m \<Rightarrow> m = [] | None \<Rightarrow> True)
             | Overwrite \<Rightarrow> True);
          s1 = (if pt = Overwrite then drop_group p g s else s)
      in if should_push
         then (Inr True,
               s1\<lparr>fq_queue := (fq_queue s1)((p, future_ref g r original due) \<mapsto> - due),
                  fq_map := (fq_map s1)((p, g) \<mapsto>
                    bt_insert due (original, r) (case fq_map s1 (p, g) of Some m \<Rightarrow> m | None \<Rightarrow> []))\<rparr>)
         else (Inr False, s1))"

definition fq_remove :: "nat \<Rightarrow> u64 \<Rightarrow> (future_queue_state, index_error, unit) action" where
  "fq_remove p g s = (Inr (), drop_group p g s)"

text \<open>The item of greatest priority, as signed integers.\<close>

definition heap_peek :: "'i iter \<Rightarrow> ('i \<rightharpoonup> 64 word) \<Rightarrow> 'i option" where
  "heap_peek it q =
     (case it (dom q) of
        [] \<Rightarrow> None
      | x # xs \<Rightarrow> Some (fold (\<lambda>y best. if sint (the (q y)) > sint (the (q best)) then y else best) xs x))"

definition fq_pop :: "future_item iter \<Rightarrow> (future_queue_state, index_error, future_element_ref option) action" where
  "fq_pop it s =
     (case heap_peek it (fq_queue s) of
        None \<Rightarrow> (Inr None, s)
      | Some key \<Rightarrow>
          let due = - the (fq_queue s key);
              map_key = (fst key, group_signature (snd key));
              s1 = s\<lparr>fq_queue := (fq_queue s)(key := None)\<rparr>
          in (Inr (Some (snd key)),
              case fq_map s map_key of
                None \<Rightarrow> s1
              | Some m \<Rightarrow>
                  let m' = bt_remove due m
                  in s1\<lparr>fq_map := (fq_map s)(map_key := (if m' = [] then None else Some m'))\<rparr>))"

definition fq_peek_due_time :: "future_item iter \<Rightarrow> (future_queue_state, index_error, u64 option) action" where
  "fq_peek_due_time it s =
     (Inr (map_option (\<lambda>key. the (fq_queue s key) * - 1) (heap_peek it (fq_queue s))), s)"

definition fq_clear :: "(future_queue_state, index_error, unit) action" where
  "fq_clear s = (Inr (), s\<lparr>fq_queue := Map.empty, fq_map := Map.empty\<rparr>)"

definition memory_future_queue :: "future_item iter \<Rightarrow> (future_queue_state, index_error) future_queue_ops" where
  "memory_future_queue it =
     \<lparr>q_push = fq_push, q_remove = fq_remove, q_pop = fq_pop it, q_peek = fq_peek_due_time it, q_clear = fq_clear\<rparr>"

subsection \<open>The queue with a remembered head\<close>

datatype head_shadow = Known "u64 option" | Unknown

record 's shadowed =
  sh_inner :: 's
  sh_head :: head_shadow

definition new_shadowed :: "'s \<Rightarrow> 's shadowed" where
  "new_shadowed s = \<lparr>sh_inner = s, sh_head = Unknown\<rparr>"

definition on_inner :: "('s, 'e, 'a) action \<Rightarrow> ('s shadowed, 'e, 'a) action" where
  "on_inner m s = (case m (sh_inner s) of (r, t) \<Rightarrow> (r, s\<lparr>sh_inner := t\<rparr>))"

definition set_head :: "head_shadow \<Rightarrow> ('s shadowed, 'e, unit) action" where
  "set_head h s = (Inr (), s\<lparr>sh_head := h\<rparr>)"

definition sh_push ::
    "('s, 'e) future_queue_ops \<Rightarrow> push_type \<Rightarrow> nat \<Rightarrow> u64 \<Rightarrow> element_reference \<Rightarrow> u64 \<Rightarrow> u64 \<Rightarrow> ('s shadowed, 'e, bool) action" where
  "sh_push q pt p g r original due =
     act_bind (on_inner (q_push q pt p g r original due))
       (\<lambda>result.
          if pt = Overwrite then act_bind (set_head Unknown) (\<lambda>_. act_return result)
          else if result then
            act_bind (act_read (\<lambda>s. Inr (sh_head s)))
              (\<lambda>h. case h of
                 Known (Some head) \<Rightarrow>
                   if due < head then act_bind (set_head (Known (Some due))) (\<lambda>_. act_return result) else act_return result
               | Known None \<Rightarrow> act_bind (set_head (Known (Some due))) (\<lambda>_. act_return result)
               | Unknown \<Rightarrow> act_return result)
          else act_return result)"

definition sh_remove :: "('s, 'e) future_queue_ops \<Rightarrow> nat \<Rightarrow> u64 \<Rightarrow> ('s shadowed, 'e, unit) action" where
  "sh_remove q p g = act_bind (set_head Unknown) (\<lambda>_. on_inner (q_remove q p g))"

definition sh_pop :: "('s, 'e) future_queue_ops \<Rightarrow> ('s shadowed, 'e, future_element_ref option) action" where
  "sh_pop q = act_bind (set_head Unknown) (\<lambda>_. on_inner (q_pop q))"

definition sh_peek_due_time :: "('s, 'e) future_queue_ops \<Rightarrow> ('s shadowed, 'e, u64 option) action" where
  "sh_peek_due_time q =
     act_bind (act_read (\<lambda>s. Inr (sh_head s)))
       (\<lambda>h. case h of
          Known due \<Rightarrow> act_return due
        | Unknown \<Rightarrow> act_bind (on_inner (q_peek q)) (\<lambda>due. act_bind (set_head (Known due)) (\<lambda>_. act_return due)))"

definition sh_clear :: "('s, 'e) future_queue_ops \<Rightarrow> ('s shadowed, 'e, unit) action" where
  "sh_clear q = act_bind (set_head Unknown) (\<lambda>_. on_inner (q_clear q))"

definition shadowed_future_queue :: "('s, 'e) future_queue_ops \<Rightarrow> ('s shadowed, 'e) future_queue_ops" where
  "shadowed_future_queue q =
     \<lparr>q_push = sh_push q, q_remove = sh_remove q, q_pop = sh_pop q, q_peek = sh_peek_due_time q, q_clear = sh_clear q\<rparr>"

subsection \<open>What the queue promises\<close>

definition of_group :: "nat \<Rightarrow> u64 \<Rightarrow> future_item \<Rightarrow> bool" where
  "of_group p g x \<longleftrightarrow> fst x = p \<and> group_signature (snd x) = g"

definition push_accepted :: "push_type \<Rightarrow> nat \<Rightarrow> u64 \<Rightarrow> future_item set \<Rightarrow> bool" where
  "push_accepted pt p g Q \<longleftrightarrow> pt = IfNotExists \<longrightarrow> (\<forall>x \<in> Q. \<not> of_group p g x)"

definition pushed :: "push_type \<Rightarrow> nat \<Rightarrow> future_element_ref \<Rightarrow> future_item set \<Rightarrow> future_item set" where
  "pushed pt p f Q =
     (if \<not> push_accepted pt p (group_signature f) Q then Q
      else insert (p, f) (if pt = Overwrite then {x \<in> Q. \<not> of_group p (group_signature f) x} else Q))"

text \<open>
  The in-memory queue keeps one entry per group and due time; pushing another element for the
  same group and time is outside its contract. Times are below \<open>2\<^sup>63\<close>.
\<close>

definition push_fits :: "push_type \<Rightarrow> nat \<Rightarrow> future_element_ref \<Rightarrow> future_item set \<Rightarrow> bool" where
  "push_fits pt p f Q \<longleftrightarrow> uint (due_time f) < 2 ^ 63 \<and>
     (pt = Always \<longrightarrow> (\<forall>x \<in> Q. of_group p (group_signature f) x \<and> due_time (snd x) = due_time f \<longrightarrow> x = (p, f)))"

definition head_due :: "future_item set \<Rightarrow> u64 option" where
  "head_due Q = (if Q = {} then None else Some (Min ((\<lambda>x. due_time (snd x)) ` Q)))"

locale future_queue =
  fixes q :: "('s, 'e) future_queue_ops" and inv :: "'s \<Rightarrow> bool" and contents :: "'s \<Rightarrow> future_item set"
  assumes finite_contents: "inv s \<Longrightarrow> finite (contents s)"
    and push_law: "inv s \<Longrightarrow> push_fits pt p (future_ref g r original due) (contents s) \<Longrightarrow>
          \<exists>t. q_push q pt p g r original due s = (Inr (push_accepted pt p g (contents s)), t) \<and> inv t \<and>
              contents t = pushed pt p (future_ref g r original due) (contents s)"
    and remove_law: "inv s \<Longrightarrow>
          \<exists>t. q_remove q p g s = (Inr (), t) \<and> inv t \<and> contents t = {x \<in> contents s. \<not> of_group p g x}"
    and pop_law: "inv s \<Longrightarrow>
          \<exists>t. inv t \<and>
            (if contents s = {} then q_pop q s = (Inr None, t) \<and> contents t = {}
             else \<exists>x \<in> contents s. q_pop q s = (Inr (Some (snd x)), t) \<and> contents t = contents s - {x} \<and>
                    head_due (contents s) = Some (due_time (snd x)))"
    and peek_law: "inv s \<Longrightarrow> \<exists>t. q_peek q s = (Inr (head_due (contents s)), t) \<and> inv t \<and> contents t = contents s"
    and clear_law: "inv s \<Longrightarrow> \<exists>t. q_clear q s = (Inr (), t) \<and> inv t \<and> contents t = {}"

text \<open>Calls of the interface, what they return, and the same on a plain set of items.\<close>

datatype queue_call =
    Push push_type nat u64 element_reference u64 u64
  | Remove nat u64
  | Pop
  | Peek
  | Clear

datatype queue_answer = Pushed bool | Popped "future_element_ref option" | Due "u64 option" | Done

fun run_call :: "('s, 'e) future_queue_ops \<Rightarrow> queue_call \<Rightarrow> ('s, 'e, queue_answer) action" where
  "run_call q (Push pt p g r original due) = act_bind (q_push q pt p g r original due) (\<lambda>b. act_return (Pushed b))"
| "run_call q (Remove p g) = act_bind (q_remove q p g) (\<lambda>_. act_return Done)"
| "run_call q Pop = act_bind (q_pop q) (\<lambda>f. act_return (Popped f))"
| "run_call q Peek = act_bind (q_peek q) (\<lambda>due. act_return (Due due))"
| "run_call q Clear = act_bind (q_clear q) (\<lambda>_. act_return Done)"

primrec run_calls :: "('s, 'e) future_queue_ops \<Rightarrow> queue_call list \<Rightarrow> ('s, 'e, queue_answer list) action" where
  "run_calls q [] = act_return []"
| "run_calls q (c # cs) = act_bind (run_call q c) (\<lambda>a. act_bind (run_calls q cs) (\<lambda>as. act_return (a # as)))"

inductive queue_step :: "future_item set \<Rightarrow> queue_call \<Rightarrow> queue_answer \<Rightarrow> future_item set \<Rightarrow> bool" where
  push: "queue_step Q (Push pt p g r original due) (Pushed (push_accepted pt p g Q)) (pushed pt p (future_ref g r original due) Q)"
| remove: "queue_step Q (Remove p g) Done {x \<in> Q. \<not> of_group p g x}"
| pop_none: "queue_step {} Pop (Popped None) {}"
| pop_head: "x \<in> Q \<Longrightarrow> head_due Q = Some (due_time (snd x)) \<Longrightarrow> queue_step Q Pop (Popped (Some (snd x))) (Q - {x})"
| peek: "queue_step Q Peek (Due (head_due Q)) Q"
| clear: "queue_step Q Clear Done {}"

inductive queue_trace :: "future_item set \<Rightarrow> queue_call list \<Rightarrow> queue_answer list \<Rightarrow> future_item set \<Rightarrow> bool" where
  Nil: "queue_trace Q [] [] Q"
| Cons: "queue_step Q c a R \<Longrightarrow> queue_trace R cs as S \<Longrightarrow> queue_trace Q (c # cs) (a # as) S"

inductive_simps queue_step_simps:
  "queue_step Q (Push pt p g r original due) a R"
  "queue_step Q (Remove p g) a R"
  "queue_step Q Pop a R"
  "queue_step Q Peek a R"
  "queue_step Q Clear a R"

inductive_simps queue_trace_simps:
  "queue_trace Q [] as S"
  "queue_trace Q (c # cs) as S"

fun pushed_item :: "queue_call \<Rightarrow> future_item option" where
  "pushed_item (Push pt p g r original due) = Some (p, future_ref g r original due)"
| "pushed_item _ = None"

text \<open>No two different items of the same group are due at the same time.\<close>

definition items_fit :: "future_item set \<Rightarrow> bool" where
  "items_fit X \<longleftrightarrow> (\<forall>x \<in> X. uint (due_time (snd x)) < 2 ^ 63) \<and>
     (\<forall>x \<in> X. \<forall>y \<in> X. fst x = fst y \<and> group_signature (snd x) = group_signature (snd y) \<and>
        due_time (snd x) = due_time (snd y) \<longrightarrow> x = y)"

definition calls_fit :: "queue_call list \<Rightarrow> bool" where
  "calls_fit cs \<longleftrightarrow> items_fit (set (List.map_filter pushed_item cs))"

text \<open>The remembered head is the head.\<close>

definition shadow_ok :: "('s \<Rightarrow> future_item set) \<Rightarrow> 's shadowed \<Rightarrow> bool" where
  "shadow_ok contents s \<longleftrightarrow> (case sh_head s of Known h \<Rightarrow> h = head_due (contents (sh_inner s)) | Unknown \<Rightarrow> True)"

definition shadowed_inv :: "('s \<Rightarrow> bool) \<Rightarrow> ('s \<Rightarrow> future_item set) \<Rightarrow> 's shadowed \<Rightarrow> bool" where
  "shadowed_inv P contents s \<longleftrightarrow> P (sh_inner s) \<and> shadow_ok contents s"

lemma head_due_insert:
  "finite Q \<Longrightarrow> head_due (insert x Q) =
     Some (case head_due Q of None \<Rightarrow> due_time (snd x) | Some h \<Rightarrow> min (due_time (snd x)) h)"
  by (simp add: head_due_def)

lemma pushed_simps:
  "push_accepted Always p g Q" "push_accepted Overwrite p g Q"
  "pushed Always p f Q = insert (p, f) Q"
  "pushed IfNotExists p f Q = (if push_accepted IfNotExists p (group_signature f) Q then insert (p, f) Q else Q)"
  "pushed Overwrite p f Q = insert (p, f) {x \<in> Q. \<not> of_group p (group_signature f) x}"
  by (simp_all add: push_accepted_def pushed_def)

lemma on_inner_run: "m (sh_inner s) = (r, t) \<Longrightarrow> on_inner m s = (r, s\<lparr>sh_inner := t\<rparr>)"
  by (simp add: on_inner_def)

context future_queue
begin

lemma shadowed_push:
  assumes "shadowed_inv inv contents s" "push_fits pt p (future_ref g r original due) (contents (sh_inner s))"
  shows "\<exists>t. sh_push q pt p g r original due s = (Inr (push_accepted pt p g (contents (sh_inner s))), t) \<and>
    shadowed_inv inv contents t \<and>
    contents (sh_inner t) = pushed pt p (future_ref g r original due) (contents (sh_inner s))"
proof -
  let ?Q = "contents (sh_inner s)" and ?f = "future_ref g r original due"
  have inv: "inv (sh_inner s)" and sh: "shadow_ok contents s" using assms(1) by (simp_all add: shadowed_inv_def)
  from push_law [OF inv assms(2)] obtain t where
    t: "q_push q pt p g r original due (sh_inner s) = (Inr (push_accepted pt p g ?Q), t)" "inv t"
      "contents t = pushed pt p ?f ?Q" by blast
  define h where "h = (if pt = Overwrite then Unknown
      else if push_accepted pt p g ?Q then
        (case sh_head s of Known (Some d) \<Rightarrow> Known (Some (min due d)) | Known None \<Rightarrow> Known (Some due) | Unknown \<Rightarrow> Unknown)
      else sh_head s)"
  have "sh_push q pt p g r original due s = (Inr (push_accepted pt p g ?Q), s\<lparr>sh_inner := t, sh_head := h\<rparr>)"
    using on_inner_run [where m = "q_push q pt p g r original due", OF t(1)]
    by (simp add: sh_push_def act_bind_def set_head_def h_def min_def split: head_shadow.split option.split)
  moreover have "shadow_ok contents (s\<lparr>sh_inner := t, sh_head := h\<rparr>)"
    using sh head_due_insert [OF finite_contents [OF inv], of "(p, ?f)"]
    by (auto simp: shadow_ok_def h_def t(3) pushed_def future_ref_def split: head_shadow.splits option.splits)
  ultimately show ?thesis using t by (auto simp: shadowed_inv_def)
qed

lemma shadowed_keeps_law: "future_queue (shadowed_future_queue q) (shadowed_inv inv contents) (\<lambda>s. contents (sh_inner s))"
proof
  fix s :: "'s shadowed" and p g
  assume s: "shadowed_inv inv contents s"
  then have inv: "inv (sh_inner s)" and sh: "shadow_ok contents s" by (simp_all add: shadowed_inv_def)
  note run = shadowed_future_queue_def shadowed_inv_def shadow_ok_def act_bind_def set_head_def on_inner_def
  show "finite (contents (sh_inner s))" by (rule finite_contents [OF inv])
  show "\<exists>t. q_remove (shadowed_future_queue q) p g s = (Inr (), t) \<and> shadowed_inv inv contents t \<and>
      contents (sh_inner t) = {x \<in> contents (sh_inner s). \<not> of_group p g x}"
    using remove_law [OF inv, of p g] by (auto simp: run sh_remove_def)
  show "\<exists>t. shadowed_inv inv contents t \<and>
      (if contents (sh_inner s) = {}
       then q_pop (shadowed_future_queue q) s = (Inr None, t) \<and> contents (sh_inner t) = {}
       else \<exists>x \<in> contents (sh_inner s). q_pop (shadowed_future_queue q) s = (Inr (Some (snd x)), t) \<and>
              contents (sh_inner t) = contents (sh_inner s) - {x} \<and>
              head_due (contents (sh_inner s)) = Some (due_time (snd x)))"
  proof -
    from pop_law [OF inv] obtain t where "inv t" "if contents (sh_inner s) = {}
        then q_pop q (sh_inner s) = (Inr None, t) \<and> contents t = {}
        else \<exists>x \<in> contents (sh_inner s). q_pop q (sh_inner s) = (Inr (Some (snd x)), t) \<and>
          contents t = contents (sh_inner s) - {x} \<and> head_due (contents (sh_inner s)) = Some (due_time (snd x))" by blast
    then show ?thesis
      by (intro exI [of _ "s\<lparr>sh_head := Unknown, sh_inner := t\<rparr>"]) (auto simp: run sh_pop_def split: if_splits, metis snd_conv)
  qed
  show "\<exists>t. q_peek (shadowed_future_queue q) s = (Inr (head_due (contents (sh_inner s))), t) \<and>
      shadowed_inv inv contents t \<and> contents (sh_inner t) = contents (sh_inner s)"
    using peek_law [OF inv] inv sh by (auto simp: run sh_peek_due_time_def split: head_shadow.split)
  show "\<exists>t. q_clear (shadowed_future_queue q) s = (Inr (), t) \<and> shadowed_inv inv contents t \<and> contents (sh_inner t) = {}"
    using clear_law [OF inv] by (auto simp: run sh_clear_def)
next
  fix s :: "'s shadowed" and pt p g r original due
  assume "shadowed_inv inv contents s" "push_fits pt p (future_ref g r original due) (contents (sh_inner s))"
  from shadowed_push [OF this]
  show "\<exists>t. q_push (shadowed_future_queue q) pt p g r original due s =
        (Inr (push_accepted pt p g (contents (sh_inner s))), t) \<and> shadowed_inv inv contents t \<and>
      contents (sh_inner t) = pushed pt p (future_ref g r original due) (contents (sh_inner s))"
    by (simp add: shadowed_future_queue_def)
qed

lemma run_call_step:
  assumes inv: "inv s" and sub: "contents s \<subseteq> X" and fit: "items_fit X" "set_option (pushed_item c) \<subseteq> X"
  shows "\<exists>a t. run_call q c s = (Inr a, t) \<and> inv t \<and> queue_step (contents s) c a (contents t) \<and> contents t \<subseteq> X"
proof (cases c)
  case (Push pt p g r original due)
  let ?f = "future_ref g r original due"
  have "push_fits pt p ?f (contents s)"
    using fit sub by (fastforce simp: Push push_fits_def items_fit_def of_group_def future_ref_def)
  from push_law [OF inv this] obtain t where t: "q_push q pt p g r original due s = (Inr (push_accepted pt p g (contents s)), t)"
    "inv t" "contents t = pushed pt p ?f (contents s)" by blast
  have "contents t \<subseteq> X" using t(3) fit(2) sub by (auto simp: Push pushed_def)
  with t show ?thesis by (auto simp: Push intro: queue_step.push)
next
  case (Remove p g)
  with remove_law [OF inv, of p g] sub show ?thesis by (fastforce intro: queue_step.remove)
next
  case Pop
  from pop_law [OF inv] obtain t where t: "inv t" "if contents s = {}
      then q_pop q s = (Inr None, t) \<and> contents t = {}
      else \<exists>x \<in> contents s. q_pop q s = (Inr (Some (snd x)), t) \<and> contents t = contents s - {x} \<and>
             head_due (contents s) = Some (due_time (snd x))" by blast
  show ?thesis
  proof (cases "contents s = {}")
    case True
    with t show ?thesis using queue_step.pop_none by (auto simp: Pop)
  next
    case False
    with t(2) obtain x where x: "x \<in> contents s" "q_pop q s = (Inr (Some (snd x)), t)" "contents t = contents s - {x}"
      "head_due (contents s) = Some (due_time (snd x))" by auto
    then show ?thesis using t(1) sub queue_step.pop_head [OF x(1,4)] by (auto simp: Pop)
  qed
next
  case Peek
  with peek_law [OF inv] sub show ?thesis by (fastforce intro: queue_step.peek)
next
  case Clear
  with clear_law [OF inv] show ?thesis by (fastforce intro: queue_step.clear)
qed

lemma run_calls_trace:
  assumes "inv s" "contents s \<subseteq> X" "items_fit X" "set (List.map_filter pushed_item cs) \<subseteq> X"
  shows "\<exists>as t. run_calls q cs s = (Inr as, t) \<and> inv t \<and> queue_trace (contents s) cs as (contents t)"
  using assms
proof (induction cs arbitrary: s)
  case Nil
  then show ?case by (auto intro: queue_trace.Nil)
next
  case (Cons c cs)
  have "set_option (pushed_item c) \<subseteq> X" "set (List.map_filter pushed_item cs) \<subseteq> X"
    using Cons.prems(4) by (auto simp: map_filter_simps split: option.splits)
  note * = this
  from run_call_step [OF Cons.prems(1-3) *(1)] obtain a t where
    a: "run_call q c s = (Inr a, t)" "inv t" "queue_step (contents s) c a (contents t)" "contents t \<subseteq> X" by blast
  from Cons.IH [OF a(2,4) Cons.prems(3) *(2)] obtain as u where
    "run_calls q cs t = (Inr as, u)" "inv u" "queue_trace (contents t) cs as (contents u)" by blast
  with a show ?case by (auto intro: queue_trace.Cons)
qed

end

subsection \<open>The in-memory queue keeps the promises\<close>

definition fq_ok :: "future_queue_state \<Rightarrow> bool" where
  "fq_ok s \<longleftrightarrow> finite (dom (fq_queue s)) \<and>
     (\<forall>p f v. fq_queue s (p, f) = Some v \<longrightarrow> v = - due_time f \<and> uint (due_time f) < 2 ^ 63) \<and>
     (\<forall>p f. fq_queue s (p, f) \<noteq> None \<longleftrightarrow>
        (\<exists>m. fq_map s (p, group_signature f) = Some m \<and> bt_get m (due_time f) = Some (original_time f, element_ref f))) \<and>
     (\<forall>k m. fq_map s k = Some m \<longrightarrow> m \<noteq> [] \<and> bt_ok m)"

lemma future_ref_collapse: "future_ref (group_signature f) (element_ref f) (original_time f) (due_time f) = f"
  by (simp add: future_ref_def)

lemma future_ref_simps [simp]:
  "due_time (future_ref g r original due) = due" "group_signature (future_ref g r original due) = g"
  "original_time (future_ref g r original due) = original" "element_ref (future_ref g r original due) = r"
  by (simp_all add: future_ref_def)

lemma future_ref_eq: "future_ref g r original due = future_ref g r' original' due' \<longleftrightarrow> r = r' \<and> original = original' \<and> due = due'"
  by (auto simp: future_ref_def)

lemma fold_unqueue:
  "fold (\<lambda>(due, original, r) q. q((p, future_ref g r original due) := None)) m q x =
     (if \<exists>due original r. (due, original, r) \<in> set m \<and> x = (p, future_ref g r original due) then None else q x)"
  by (induction m arbitrary: q) (auto simp: future_ref_eq split: prod.splits)

lemma drop_group_queue:
  assumes "fq_ok s"
  shows "fq_queue (drop_group p g s) = (\<lambda>x. if of_group p g x then None else fq_queue s x)"
    and "fq_map (drop_group p g s) = (fq_map s)((p, g) := None)"
proof -
  have some: "\<exists>m. fq_map s (p', group_signature f) = Some m \<and> (due_time f, original_time f, element_ref f) \<in> set m"
    if "fq_queue s (p', f) \<noteq> None" for p' f
    using assms that unfolding fq_ok_def by (metis bt_get_mem)
  show "fq_queue (drop_group p g s) = (\<lambda>x. if of_group p g x then None else fq_queue s x)"
  proof (rule ext)
    fix x :: future_item
    obtain p' f where x: "x = (p', f)" by (cases x)
    show "fq_queue (drop_group p g s) x = (if of_group p g x then None else fq_queue s x)"
    proof (cases "fq_queue s x")
      case None
      then show ?thesis by (auto simp: drop_group_def fold_unqueue split: option.split)
    next
      case (Some v)
      with some [of p' f] obtain m where
        m: "fq_map s (p', group_signature f) = Some m" "(due_time f, original_time f, element_ref f) \<in> set m"
        by (auto simp: x)
      have "\<exists>due original r. (due, original, r) \<in> set m \<and> f = future_ref (group_signature f) r original due"
        using m(2) future_ref_collapse [of f] by metis
      with m(1) show ?thesis
        by (auto simp: x drop_group_def of_group_def fold_unqueue split: option.splits)
    qed
  qed
  show "fq_map (drop_group p g s) = (fq_map s)((p, g) := None)"
    by (auto simp: drop_group_def split: option.split)
qed

lemma drop_group_ok:
  assumes "fq_ok s"
  shows "fq_ok (drop_group p g s)"
proof -
  have "finite (dom (fq_queue (drop_group p g s)))"
    using assms by (auto simp: drop_group_queue [OF assms] fq_ok_def dom_def elim!: rev_finite_subset)
  with assms show ?thesis
    unfolding fq_ok_def [of "drop_group p g s"] fq_ok_def [of s] drop_group_queue [OF assms]
    by (intro conjI) (auto simp: of_group_def split: if_splits)
qed

definition fq_insert :: "nat \<Rightarrow> future_element_ref \<Rightarrow> future_queue_state \<Rightarrow> future_queue_state" where
  "fq_insert p f s =
     s\<lparr>fq_queue := (fq_queue s)((p, f) \<mapsto> - due_time f),
       fq_map := (fq_map s)((p, group_signature f) \<mapsto>
         bt_insert (due_time f) (original_time f, element_ref f)
           (case fq_map s (p, group_signature f) of Some m \<Rightarrow> m | None \<Rightarrow> []))\<rparr>"

lemma bt_insert_nonempty: "bt_insert k v m \<noteq> []"
  by (cases m) auto

lemma fq_insert_ok:
  assumes ok: "fq_ok s" and due: "uint (due_time f) < 2 ^ 63"
    and free: "\<And>x. x \<in> dom (fq_queue s) \<Longrightarrow> of_group p (group_signature f) x \<Longrightarrow> due_time (snd x) = due_time f \<Longrightarrow> x = (p, f)"
  shows "fq_ok (fq_insert p f s)"
proof -
  let ?m = "case fq_map s (p, group_signature f) of Some m \<Rightarrow> m | None \<Rightarrow> []"
  have old: "fq_queue s (p', f') \<noteq> None \<longleftrightarrow>
      (\<exists>m. fq_map s (p', group_signature f') = Some m \<and> bt_get m (due_time f') = Some (original_time f', element_ref f'))" for p' f'
    using ok by (simp add: fq_ok_def)
  have "bt_ok ?m" using ok by (auto simp: fq_ok_def split: option.split)
  have "fq_queue (fq_insert p f s) (p', f') \<noteq> None \<longleftrightarrow>
      (\<exists>m. fq_map (fq_insert p f s) (p', group_signature f') = Some m \<and>
           bt_get m (due_time f') = Some (original_time f', element_ref f'))" for p' f'
  proof (cases "p' = p \<and> group_signature f' = group_signature f")
    case False
    then show ?thesis using old [of p' f'] by (auto simp: fq_insert_def)
  next
    case True
    have same: "bt_get ?m (due_time f') = Some (original_time f', element_ref f') \<longleftrightarrow> fq_queue s (p', f') \<noteq> None"
      using old [of p' f'] True by (auto split: option.split)
    show ?thesis
    proof (cases "due_time f' = due_time f")
      case False
      with True same show ?thesis by (auto simp: fq_insert_def bt_simps)
    next
      case eq: True
      have "fq_queue s (p', f') \<noteq> None \<Longrightarrow> f' = f"
        using free [of "(p', f')"] True eq by (auto simp: of_group_def)
      moreover have "original_time f' = original_time f \<and> element_ref f' = element_ref f \<longleftrightarrow> f' = f"
        using True eq by (auto intro: future_element_ref.equality)
      ultimately show ?thesis using True eq by (auto simp: fq_insert_def bt_simps)
    qed
  qed
  with ok due \<open>bt_ok ?m\<close> show ?thesis
    unfolding fq_ok_def [of "fq_insert p f s"]
    by (intro conjI) (auto simp: fq_ok_def fq_insert_def bt_insert_nonempty split: if_splits)
qed

lemma fq_ok_in:
  "fq_ok s \<Longrightarrow> fq_queue s (p, f) \<noteq> None \<longleftrightarrow>
     (\<exists>m. fq_map s (p, group_signature f) = Some m \<and> bt_get m (due_time f) = Some (original_time f, element_ref f))"
  by (simp add: fq_ok_def)

lemma fq_ok_group_empty:
  assumes "fq_ok s"
  shows "(case fq_map s (p, g) of Some m \<Rightarrow> m = [] | None \<Rightarrow> True) \<longleftrightarrow> (\<forall>x \<in> dom (fq_queue s). \<not> of_group p g x)"
proof (cases "fq_map s (p, g)")
  case None
  then have "fq_queue s (p, f) = None" if "group_signature f = g" for f
    using fq_ok_in [OF assms, of p f] that by auto
  then show ?thesis using None by (auto simp: of_group_def)
next
  case (Some m)
  then have m: "m \<noteq> []" "bt_ok m" using assms by (auto simp: fq_ok_def)
  then obtain due original r where "(due, original, r) \<in> set m" by (metis list.set_intros(1) neq_Nil_conv prod.exhaust)
  then have "bt_get m due = Some (original, r)" using m(2) by (simp add: bt_get_mem)
  then have "fq_queue s (p, future_ref g r original due) \<noteq> None"
    using assms Some by (auto simp: fq_ok_def)
  then have "\<exists>x \<in> dom (fq_queue s). of_group p g x"
    by (auto simp: of_group_def intro!: bexI [of _ "(p, future_ref g r original due)"])
  with Some m show ?thesis by simp
qed

lemma fq_push_insert:
  "fq_push pt p g r original due s =
     (if pt = IfNotExists \<and> \<not> (case fq_map s (p, g) of Some m \<Rightarrow> m = [] | None \<Rightarrow> True) then (Inr False, s)
      else (Inr True, fq_insert p (future_ref g r original due) (if pt = Overwrite then drop_group p g s else s)))"
  by (cases pt) (simp_all add: fq_push_def fq_insert_def Let_def)

lemma fq_push_law:
  assumes ok: "fq_ok s" and fits: "push_fits pt p (future_ref g r original due) (dom (fq_queue s))"
  shows "\<exists>t. fq_push pt p g r original due s = (Inr (push_accepted pt p g (dom (fq_queue s))), t) \<and> fq_ok t \<and>
    dom (fq_queue t) = pushed pt p (future_ref g r original due) (dom (fq_queue s))"
proof (cases "push_accepted pt p g (dom (fq_queue s))")
  case False
  then show ?thesis using ok by (auto simp: fq_push_insert fq_ok_group_empty [OF ok] push_accepted_def pushed_def)
next
  case True
  let ?s = "if pt = Overwrite then drop_group p g s else s" and ?f = "future_ref g r original due"
  have "fq_ok (fq_insert p ?f ?s)"
  proof (rule fq_insert_ok)
    show "fq_ok ?s" using ok by (simp add: drop_group_ok)
    show "uint (due_time ?f) < 2 ^ 63" using fits by (simp add: push_fits_def)
    show "x = (p, ?f)" if "x \<in> dom (fq_queue ?s)" "of_group p (group_signature ?f) x" "due_time (snd x) = due_time ?f" for x
      using that fits True ok by (cases pt) (auto simp: drop_group_queue push_fits_def push_accepted_def split: if_splits)
  qed
  moreover have "dom (fq_queue (fq_insert p ?f ?s)) = pushed pt p ?f (dom (fq_queue s))"
    using True by (auto simp: fq_insert_def pushed_def drop_group_queue [OF ok] split: if_splits)
  moreover have "fq_push pt p g r original due s = (Inr True, fq_insert p ?f ?s)"
    using True by (auto simp: fq_push_insert fq_ok_group_empty [OF ok] push_accepted_def)
  ultimately show ?thesis using True by auto
qed

lemma sint_uminus_due: "uint (d :: u64) < 2 ^ 63 \<Longrightarrow> sint (- d) = - uint d"
proof -
  assume d: "uint d < 2 ^ 63"
  have "sint (word_of_int (- uint d) :: u64) = signed_take_bit 63 (- uint d)"
    unfolding sint_sbintrunc' by simp
  also have "\<dots> = - uint d" by (rule signed_take_bit_int_eq_self) (use d uint_ge_0 [of d] in linarith)+
  finally show ?thesis by simp
qed

lemma fold_best:
  "let b = fold (\<lambda>y best. if v y > v best then y else best) xs x
   in b \<in> set (x # xs) \<and> (\<forall>y \<in> set (x # xs). (v y :: int) \<le> v b)"
proof (induction xs arbitrary: x)
  case (Cons y xs)
  show ?case using Cons [of y] Cons [of x] by (auto simp: Let_def)
qed simp

lemma heap_peek_best:
  assumes "iter_ok it" "finite (dom q)"
  shows "case heap_peek it q of
      None \<Rightarrow> dom q = {}
    | Some x \<Rightarrow> x \<in> dom q \<and> (\<forall>y \<in> dom q. sint (the (q y)) \<le> sint (the (q x)))"
proof -
  have "set (it (dom q)) = dom q" using assms by (simp add: iter_ok_def)
  moreover have "x \<in> dom q \<and> (\<forall>y \<in> dom q. sint (the (q y)) \<le> sint (the (q x)))" if "heap_peek it q = Some x" for x
  proof -
    from that obtain z xs where z: "it (dom q) = z # xs"
      and x: "x = fold (\<lambda>y best. if sint (the (q y)) > sint (the (q best)) then y else best) xs z"
      by (auto simp: heap_peek_def split: list.splits)
    have "dom q = set (z # xs)" using z calculation by simp
    then show ?thesis using fold_best [of "\<lambda>y. sint (the (q y))" xs z] by (simp add: x Let_def)
  qed
  moreover have "it (dom q) = []" if "heap_peek it q = None"
    using that by (auto simp: heap_peek_def split: list.splits)
  ultimately show ?thesis by (cases "heap_peek it q") force+
qed

lemma fq_head:
  assumes ok: "fq_ok s" and it: "iter_ok it"
  shows "case heap_peek it (fq_queue s) of
      None \<Rightarrow> dom (fq_queue s) = {}
    | Some x \<Rightarrow> x \<in> dom (fq_queue s) \<and> the (fq_queue s x) = - due_time (snd x) \<and>
        head_due (dom (fq_queue s)) = Some (due_time (snd x))"
proof (cases "heap_peek it (fq_queue s)")
  case None
  then show ?thesis using heap_peek_best [OF it, of "fq_queue s"] ok by (simp add: fq_ok_def)
next
  case (Some x)
  let ?Q = "dom (fq_queue s)"
  have fin: "finite ?Q" using ok by (simp add: fq_ok_def)
  have v: "the (fq_queue s y) = - due_time (snd y) \<and> uint (due_time (snd y)) < 2 ^ 63" if "y \<in> ?Q" for y
    using ok that by (cases y) (auto simp: fq_ok_def)
  from heap_peek_best [OF it fin] Some have x: "x \<in> ?Q"
    and best: "\<And>y. y \<in> ?Q \<Longrightarrow> sint (the (fq_queue s y)) \<le> sint (the (fq_queue s x))" by auto
  have "due_time (snd x) \<le> due_time (snd y)" if "y \<in> ?Q" for y
    using best [OF that] v [OF that] v [OF x] by (simp add: sint_uminus_due word_le_def)
  then have "Min ((\<lambda>y. due_time (snd y)) ` ?Q) = due_time (snd x)"
    using fin x by (intro Min_eqI) auto
  then show ?thesis using Some x v [OF x] by (auto simp: head_due_def)
qed

lemma fq_pop_law:
  assumes ok: "fq_ok s" and it: "iter_ok it"
  shows "\<exists>t. fq_ok t \<and>
    (if dom (fq_queue s) = {} then fq_pop it s = (Inr None, t) \<and> dom (fq_queue t) = {}
     else \<exists>x \<in> dom (fq_queue s). fq_pop it s = (Inr (Some (snd x)), t) \<and> dom (fq_queue t) = dom (fq_queue s) - {x} \<and>
            head_due (dom (fq_queue s)) = Some (due_time (snd x)))"
proof (cases "heap_peek it (fq_queue s)")
  case None
  then show ?thesis using ok fq_head [OF ok it] by (auto simp: fq_pop_def)
next
  case (Some x)
  obtain p f where x: "x = (p, f)" by (cases x)
  from fq_head [OF ok it] Some have mem: "fq_queue s (p, f) \<noteq> None" and v: "the (fq_queue s (p, f)) = - due_time f"
    and head: "head_due (dom (fq_queue s)) = Some (due_time f)" by (auto simp: x)
  from mem fq_ok_in [OF ok] obtain m where m: "fq_map s (p, group_signature f) = Some m"
    "bt_get m (due_time f) = Some (original_time f, element_ref f)" by blast
  let ?m = "bt_remove (due_time f) m"
  let ?t = "s\<lparr>fq_queue := (fq_queue s)((p, f) := None),
    fq_map := (fq_map s)((p, group_signature f) := (if ?m = [] then None else Some ?m))\<rparr>"
  have run: "fq_pop it s = (Inr (Some f), ?t)"
    by (simp add: fq_pop_def Some x v m(1) Let_def)
  have "fq_queue ?t (p', f') \<noteq> None \<longleftrightarrow>
      (\<exists>m. fq_map ?t (p', group_signature f') = Some m \<and> bt_get m (due_time f') = Some (original_time f', element_ref f'))" for p' f'
  proof (cases "p' = p \<and> group_signature f' = group_signature f")
    case False
    then show ?thesis using fq_ok_in [OF ok, of p' f'] by auto
  next
    case True
    have "(\<exists>m. fq_map ?t (p', group_signature f') = Some m \<and> bt_get m (due_time f') = Some (original_time f', element_ref f')) \<longleftrightarrow>
        bt_get ?m (due_time f') = Some (original_time f', element_ref f')"
      using True by auto
    also have "\<dots> \<longleftrightarrow> due_time f' \<noteq> due_time f \<and> fq_queue s (p', f') \<noteq> None"
      using fq_ok_in [OF ok, of p' f'] True m(1) by (auto simp: bt_simps)
    also have "\<dots> \<longleftrightarrow> f' \<noteq> f \<and> fq_queue s (p', f') \<noteq> None"
      using fq_ok_in [OF ok, of p' f'] True m by (auto intro: future_element_ref.equality)
    finally show ?thesis using True by auto
  qed
  then have "fq_ok ?t"
    using ok m(1) unfolding fq_ok_def [of ?t] by (intro conjI) (auto simp: fq_ok_def split: if_splits)
  moreover have "dom (fq_queue ?t) = dom (fq_queue s) - {(p, f)}" by auto
  moreover have "(p, f) \<in> dom (fq_queue s)" using mem by auto
  ultimately show ?thesis
    using run head by (intro exI [of _ ?t] conjI) (auto intro!: bexI [of _ "(p, f)"])
qed

lemma memory_queue_law:
  assumes "iter_ok it"
  shows "future_queue (memory_future_queue it) fq_ok (\<lambda>s. dom (fq_queue s))"
proof
  fix s p g
  assume ok: "fq_ok s"
  show "finite (dom (fq_queue s))" using ok by (simp add: fq_ok_def)
  show "\<exists>t. q_remove (memory_future_queue it) p g s = (Inr (), t) \<and> fq_ok t \<and>
      dom (fq_queue t) = {x \<in> dom (fq_queue s). \<not> of_group p g x}"
    using ok by (auto simp: memory_future_queue_def fq_remove_def drop_group_ok drop_group_queue split: if_splits)
  show "\<exists>t. fq_ok t \<and>
      (if dom (fq_queue s) = {} then q_pop (memory_future_queue it) s = (Inr None, t) \<and> dom (fq_queue t) = {}
       else \<exists>x \<in> dom (fq_queue s). q_pop (memory_future_queue it) s = (Inr (Some (snd x)), t) \<and>
              dom (fq_queue t) = dom (fq_queue s) - {x} \<and> head_due (dom (fq_queue s)) = Some (due_time (snd x)))"
    using fq_pop_law [OF ok assms] by (simp only: memory_future_queue_def future_queue_ops.simps)
  show "\<exists>t. q_peek (memory_future_queue it) s = (Inr (head_due (dom (fq_queue s))), t) \<and> fq_ok t \<and>
      dom (fq_queue t) = dom (fq_queue s)"
    using fq_head [OF ok assms] ok
    by (auto simp: memory_future_queue_def fq_peek_due_time_def head_due_def split: option.splits)
  show "\<exists>t. q_clear (memory_future_queue it) s = (Inr (), t) \<and> fq_ok t \<and> dom (fq_queue t) = {}"
    by (simp add: memory_future_queue_def fq_clear_def fq_ok_def)
next
  fix s pt p g r original due
  assume "fq_ok s" "push_fits pt p (future_ref g r original due) (dom (fq_queue s))"
  from fq_push_law [OF this]
  show "\<exists>t. q_push (memory_future_queue it) pt p g r original due s =
        (Inr (push_accepted pt p g (dom (fq_queue s))), t) \<and> fq_ok t \<and>
      dom (fq_queue t) = pushed pt p (future_ref g r original due) (dom (fq_queue s))"
    by (simp add: memory_future_queue_def)
qed

locale item_iteration = hash_iteration it for it :: "future_item iter"

sublocale item_iteration \<subseteq> future_queue "memory_future_queue it" fq_ok "\<lambda>s. dom (fq_queue s)"
  by (rule memory_queue_law) (simp add: iter_ok_iff hash_iteration_axioms)

text \<open>A concrete order of iteration: by due time, then by the other fields.\<close>

definition item_key :: "future_item \<Rightarrow> u64 \<times> nat \<times> u64 \<times> u64 \<times> element_reference" where
  "item_key x = (due_time (snd x), fst x, group_signature (snd x), original_time (snd x), element_ref (snd x))"

definition key_item :: "u64 \<times> nat \<times> u64 \<times> u64 \<times> element_reference \<Rightarrow> future_item" where
  "key_item = (\<lambda>(due, p, g, original, r). (p, future_ref g r original due))"

definition item_order :: "future_item iter" where
  "item_order S = map key_item (sorted_list_of_set (item_key ` S))"

lemma key_item_key [simp]: "key_item (item_key x) = x"
  by (cases x) (simp add: key_item_def item_key_def future_ref_def)

lemma inj_key_item: "inj key_item"
  by (auto simp: inj_on_def key_item_def future_ref_def)

interpretation by_key: item_iteration item_order
proof
  fix S :: "future_item set"
  assume "finite S"
  then show "set (item_order S) = S"
    by (simp add: item_order_def image_image)
  show "distinct (item_order S)"
    by (simp add: item_order_def distinct_map inj_on_subset [OF inj_key_item])
qed

interpretation remembered: future_queue "shadowed_future_queue (memory_future_queue item_order)"
    "shadowed_inv fq_ok (\<lambda>s. dom (fq_queue s))" "\<lambda>s. dom (fq_queue (sh_inner s))"
  by (rule by_key.shadowed_keeps_law)


definition sample_calls :: "queue_call list" where
  "sample_calls =
     (let r = ElementReference ''s'' ''e''
      in [Push Always 0 1 r 5 20, Peek, Push Always 0 2 r 5 10, Peek, Push IfNotExists 0 1 r 5 30, Pop, Peek])"


end
