(* ===== verification/Output_State.thy ===== *)
theory Output_State
  imports Evaluation_Context
begin

text \<open>
  What a running query keeps of its output, \<^verbatim>\<open>src/lib/src/queries/output_state.rs\<close>: the live
  result set, the sequence number of the last emission and the ring of recent emissions that
  reactions replay, with the reconciliation of stored output at startup; and the filter of
  events that were already processed, \<^verbatim>\<open>src/lib/src/queries/sequence_dedup.rs\<close>.

  Sequence numbers are \<open>u64\<close>. The numbers of a generation start at 1, so a query would have to
  emit \<open>2\<^sup>64\<close> results to reach the end of the range; the theorems say so where it matters.
  Times are integers, JSON numbers are integers or the bits of a double.
\<close>

subsection \<open>Results of a query\<close>

datatype json =
    JNull
  | JBool bool
  | JNumber int
  | JFloat "64 word"
  | JString string
  | JArray "json list"
  | JObject "(string \<times> json) list"

datatype result_diff =
    DiffAdd json u64
  | DiffDelete json u64
  | DiffUpdate json json json "string list option" u64
  | DiffAggregation "json option" json u64
  | DiffNoop

record profiling_metadata =
  source_ns :: "u64 option"
  reactivator_start_ns :: "u64 option"
  reactivator_end_ns :: "u64 option"
  source_receive_ns :: "u64 option"
  source_send_ns :: "u64 option"
  query_receive_ns :: "u64 option"
  query_core_call_ns :: "u64 option"
  query_core_return_ns :: "u64 option"
  query_send_ns :: "u64 option"
  reaction_receive_ns :: "u64 option"
  reaction_complete_ns :: "u64 option"

record query_result =
  qr_query_id :: string
  qr_sequence :: u64
  qr_timestamp :: int
  qr_results :: "result_diff list"
  qr_metadata :: "string \<rightharpoonup> json"
  qr_profiling :: "profiling_metadata option"

subsection \<open>The output state\<close>

record query_output_state =
  out_results :: "u64 \<rightharpoonup> json"
  as_of_sequence :: u64
  outbox :: "query_result list"
  outbox_capacity :: nat
  initialized :: bool
  generation :: u64

definition MAX_OUTBOX_CAPACITY :: nat where
  "MAX_OUTBOX_CAPACITY = 1000000"

definition new_output_state :: "nat \<Rightarrow> query_output_state" where
  "new_output_state capacity =
     \<lparr>out_results = Map.empty, as_of_sequence = 0, outbox = [],
      outbox_capacity = min (max capacity 1) MAX_OUTBOX_CAPACITY, initialized = False, generation = 0\<rparr>"

fun apply_diff :: "result_diff \<Rightarrow> (u64 \<rightharpoonup> json) \<Rightarrow> (u64 \<rightharpoonup> json)" where
  "apply_diff (DiffAdd data sig) m = m(sig \<mapsto> data)"
| "apply_diff (DiffDelete _ sig) m = m(sig := None)"
| "apply_diff (DiffUpdate _ _ after _ sig) m = m(sig \<mapsto> after)"
| "apply_diff (DiffAggregation _ after sig) m = m(sig \<mapsto> after)"
| "apply_diff DiffNoop m = m"

definition apply_diffs :: "result_diff list \<Rightarrow> query_output_state \<Rightarrow> query_output_state" where
  "apply_diffs diffs st = st\<lparr>out_results := fold apply_diff diffs (out_results st)\<rparr>"

definition push_outbox :: "query_result \<Rightarrow> query_output_state \<Rightarrow> query_output_state" where
  "push_outbox r st =
     st\<lparr>outbox := (if length (outbox st) \<ge> outbox_capacity st then tl (outbox st) else outbox st) @ [r]\<rparr>"

definition advance_sequence_and_push :: "query_result \<Rightarrow> query_output_state \<Rightarrow> query_result \<times> query_output_state" where
  "advance_sequence_and_push r st =
     (let n = sat_add (as_of_sequence st) 1;
          r' = r\<lparr>qr_sequence := n\<rparr>
      in (r', push_outbox r' (st\<lparr>as_of_sequence := n\<rparr>)))"

text \<open>A sequence other than the expected one is only logged.\<close>

definition apply_committed_sequence ::
    "u64 \<Rightarrow> result_diff list \<Rightarrow> query_result \<Rightarrow> query_output_state \<Rightarrow> query_result \<times> query_output_state" where
  "apply_committed_sequence sequence diffs r st =
     (let r' = r\<lparr>qr_sequence := sequence\<rparr>
      in (r', push_outbox r' ((apply_diffs diffs st)\<lparr>as_of_sequence := sequence\<rparr>)))"

record outbox_gap =
  gap_requested :: u64
  earliest_available :: u64
  latest_sequence :: u64
  gap_config_hash :: u64

definition fetch_outbox_after :: "query_output_state \<Rightarrow> u64 \<Rightarrow> outbox_gap + query_result list" where
  "fetch_outbox_after st after =
     (if after \<ge> as_of_sequence st then Inr []
      else
        let earliest = (case outbox st of r # _ \<Rightarrow> qr_sequence r | [] \<Rightarrow> as_of_sequence st + 1)
        in if after + 1 < earliest
           then Inl \<lparr>gap_requested = after, earliest_available = earliest,
                      latest_sequence = as_of_sequence st, gap_config_hash = 0\<rparr>
           else Inr (filter (\<lambda>r. qr_sequence r > after) (outbox st)))"

definition hydrate ::
    "(u64 \<rightharpoonup> json) \<Rightarrow> query_result list \<Rightarrow> u64 \<Rightarrow> u64 \<Rightarrow> query_output_state \<Rightarrow> query_output_state" where
  "hydrate results entries sequence gen st =
     (let sorted = sort_key qr_sequence entries;
          kept = (if length sorted > outbox_capacity st then drop (length sorted - outbox_capacity st) sorted else sorted)
      in st\<lparr>out_results := results, outbox := kept, as_of_sequence := max (as_of_sequence st) sequence,
            generation := gen, initialized := True\<rparr>)"

definition next_output_generation :: "u64 \<Rightarrow> u64 \<Rightarrow> u64" where
  "next_output_generation persisted ram = sat_add (max persisted ram) 1"

definition reset_from_generation :: "u64 \<Rightarrow> query_output_state \<Rightarrow> query_output_state" where
  "reset_from_generation persisted st =
     st\<lparr>out_results := Map.empty, outbox := [], as_of_sequence := 0,
        generation := next_output_generation persisted (generation st), initialized := True\<rparr>"

definition reset_output :: "query_output_state \<Rightarrow> query_output_state" where
  "reset_output st = reset_from_generation (generation st) st"

definition mark_initialized :: "query_output_state \<Rightarrow> query_output_state" where
  "mark_initialized st = st\<lparr>initialized := True\<rparr>"

definition adopt_persisted_generation :: "u64 \<Rightarrow> query_output_state \<Rightarrow> query_output_state" where
  "adopt_persisted_generation persisted st = st\<lparr>generation := max (generation st) persisted\<rparr>"

definition output_epoch_hash :: "u64 \<Rightarrow> u64 \<Rightarrow> u64" where
  "output_epoch_hash config_hash gen = config_hash + gen * 0x9E3779B97F4A7C15"

subsection \<open>Stored output that does not fit together\<close>

datatype 'e durable_output_inconsistency =
    OutboxAheadOfSequence u64 u64
  | GappedOutbox "u64 list"
  | MissingLiveRows u64
  | SequenceZeroAgainstDurableOutput nat "u64 option"
  | CorruptOutbox u64 string
  | CorruptLiveRow u64 string
  | ReadFailed string 'e

definition is_transient_read :: "'e durable_output_inconsistency \<Rightarrow> bool" where
  "is_transient_read e \<longleftrightarrow> (case e of ReadFailed _ _ \<Rightarrow> True | _ \<Rightarrow> False)"

fun contiguous :: "u64 list \<Rightarrow> bool" where
  "contiguous (a # b # xs) = (b = a + 1 \<and> contiguous (b # xs))"
| "contiguous _ = True"

definition reconcile_durable_output ::
    "u64 option \<Rightarrow> u64 list \<Rightarrow> nat \<Rightarrow> bool \<Rightarrow> 'e durable_output_inconsistency + u64" where
  "reconcile_durable_output stored_sequence outbox_sequences live_row_count live_rows_readable =
     (let stored = (case stored_sequence of Some n \<Rightarrow> n | None \<Rightarrow> 0);
          retained = sort outbox_sequences
      in if \<not> live_rows_readable \<and> stored > 0 then Inl (MissingLiveRows stored)
         else if retained \<noteq> [] \<and> (length (remdups_adj retained) \<noteq> length retained \<or> \<not> contiguous retained)
         then Inl (GappedOutbox retained)
         else
           let outbox_hwm = (if retained = [] then None else Some (last retained))
           in if stored = 0 \<and> (live_row_count > 0 \<or> outbox_hwm \<noteq> None)
              then Inl (SequenceZeroAgainstDurableOutput live_row_count outbox_hwm)
              else (case outbox_hwm of
                      Some hwm \<Rightarrow> if hwm > stored then Inl (OutboxAheadOfSequence stored hwm) else Inr stored
                    | None \<Rightarrow> Inr stored))"

subsection \<open>Events that were already processed\<close>

type_synonym sequence_dedup = "string \<rightharpoonup> u64"

definition should_skip :: "sequence_dedup \<Rightarrow> string \<Rightarrow> u64 \<Rightarrow> bool" where
  "should_skip d source sequence \<longleftrightarrow> (case d source of Some cp \<Rightarrow> sequence \<le> cp | None \<Rightarrow> False)"

definition dedup_advance :: "string \<Rightarrow> u64 \<Rightarrow> sequence_dedup \<Rightarrow> sequence_dedup" where
  "dedup_advance source sequence d =
     (case d source of
        Some entry \<Rightarrow> if sequence > entry then d(source \<mapsto> sequence) else d
      | None \<Rightarrow> d(source \<mapsto> sequence))"

subsection \<open>From row changes to result diffs\<close>

text \<open>The conversion of a row to JSON is a parameter.\<close>

fun context_diff :: "('w row \<Rightarrow> json) \<Rightarrow> 'w part_context \<Rightarrow> result_diff option" where
  "context_diff js (Adding after sig) = Some (DiffAdd (js after) sig)"
| "context_diff js (Removing before sig) = Some (DiffDelete (js before) sig)"
| "context_diff js (Updating before after sig) = Some (DiffUpdate (js after) (js before) (js after) None sig)"
| "context_diff js (Aggregation before after _ _ _ sig) = Some (DiffAggregation (map_option js before) (js after) sig)"
| "context_diff js Noop = None"

definition evaluation_contexts_to_diffs :: "('w row \<Rightarrow> json) \<Rightarrow> 'w part_context list \<Rightarrow> result_diff list" where
  "evaluation_contexts_to_diffs js ctxs = List.map_filter (context_diff js) ctxs"

subsection \<open>What the output state remembers\<close>

text \<open>
  The output state after a history of emissions over the rows \<open>base\<close>: the rows are those of
  the history replayed, the ring is its end, and the emissions are numbered from 1.
\<close>

definition numbered :: "query_result list \<Rightarrow> bool" where
  "numbered hist \<longleftrightarrow> (\<forall>i < length hist. qr_sequence (hist ! i) = of_nat (Suc i))"

definition emitted :: "(u64 \<rightharpoonup> json) \<Rightarrow> query_result list \<Rightarrow> query_output_state \<Rightarrow> bool" where
  "emitted base hist st \<longleftrightarrow>
     1 \<le> outbox_capacity st \<and> outbox_capacity st \<le> MAX_OUTBOX_CAPACITY \<and>
     out_results st = fold apply_diff (concat (map qr_results hist)) base \<and>
     outbox st = drop (length hist - outbox_capacity st) hist \<and>
     as_of_sequence st = of_nat (length hist) \<and> numbered hist \<and> length hist < 2 ^ 64"

lemma numbered_Nil [simp]: "numbered []"
  by (simp add: numbered_def)

lemma numbered_snoc [simp]: "numbered (hist @ [r]) \<longleftrightarrow> numbered hist \<and> qr_sequence r = of_nat (Suc (length hist))"
  by (auto simp: numbered_def nth_append less_Suc_eq)

lemma numbered_nth: "numbered hist \<Longrightarrow> i < length hist \<Longrightarrow> qr_sequence (hist ! i) = of_nat (Suc i)"
  by (simp add: numbered_def)

lemma emitted_new: "emitted Map.empty [] (new_output_state capacity)"
  by (simp add: emitted_def new_output_state_def MAX_OUTBOX_CAPACITY_def)

lemma u64_bound: "unat (n :: u64) < 2 ^ 64"
  using unsigned_less [of n] by simp

lemma unat_of_nat_u64: "n < 2 ^ 64 \<Longrightarrow> unat (of_nat n :: u64) = n"
  by (simp add: unat_of_nat)

lemma sat_add_one: "n + 1 < 2 ^ 64 \<Longrightarrow> sat_add (of_nat n) 1 = of_nat (n + 1)"
  by (simp add: sat_add_def unat_of_nat)

lemma drop_snoc_ring:
  "1 \<le> c \<Longrightarrow> (if c \<le> length (drop (length xs - c) xs) then tl (drop (length xs - c) xs) else drop (length xs - c) xs) @ [x] =
     drop (Suc (length xs) - c) (xs @ [x])"
  by (cases "c \<le> length xs") (auto simp: Suc_diff_le drop_Suc tl_drop)

lemma emitted_push:
  assumes "emitted base hist st" "length hist + 1 < 2 ^ 64" "qr_sequence r = of_nat (length hist + 1)"
  shows "emitted base (hist @ [r]) (push_outbox r ((apply_diffs (qr_results r) st)\<lparr>as_of_sequence := of_nat (length hist + 1)\<rparr>))"
  using assms drop_snoc_ring [of "outbox_capacity st" hist r]
  by (auto simp: emitted_def push_outbox_def apply_diffs_def split: if_splits)

lemma emitted_committed:
  assumes "emitted base hist st" "length hist + 1 < 2 ^ 64"
  defines "n \<equiv> sat_add (as_of_sequence st) 1"
  shows "emitted base (hist @ [r\<lparr>qr_sequence := n\<rparr>]) (snd (apply_committed_sequence n (qr_results r) r st))"
proof -
  have n: "n = of_nat (length hist + 1)" using assms by (simp only: n_def emitted_def sat_add_one)
  show ?thesis
    using emitted_push [OF assms(1,2), of "r\<lparr>qr_sequence := n\<rparr>"] by (simp add: apply_committed_sequence_def Let_def n)
qed

lemma advance_is_committed:
  "advance_sequence_and_push r (apply_diffs (qr_results r) st) =
     apply_committed_sequence (sat_add (as_of_sequence st) 1) (qr_results r) r st"
  by (simp add: advance_sequence_and_push_def apply_committed_sequence_def apply_diffs_def Let_def)

lemma filter_after_drop:
  assumes "numbered hist" "length hist < 2 ^ 64" "k \<le> n" "n < 2 ^ 64"
  shows "filter (\<lambda>r. qr_sequence r > of_nat n) (drop k hist) = drop n hist"
  using assms(1,2)
proof (induction hist rule: rev_induct)
  case (snoc r hist)
  have "(of_nat n < (of_nat (Suc (length hist)) :: u64)) \<longleftrightarrow> n < Suc (length hist)"
    using snoc.prems assms(4) by (simp add: word_less_nat_alt unat_of_nat del: of_nat_Suc)
  then show ?case using snoc assms(3) by (auto simp: drop_Cons')
qed simp

lemma fetch_outbox_emitted:
  assumes "emitted base hist st"
  shows "fetch_outbox_after st after =
    (let n = unat after; k = length hist; c = outbox_capacity st
     in if k \<le> n then Inr []
        else if n + c < k
        then Inl \<lparr>gap_requested = after, earliest_available = of_nat (k - c + 1), latest_sequence = of_nat k, gap_config_hash = 0\<rparr>
        else Inr (drop n hist))"
proof -
  let ?n = "unat after" and ?k = "length hist" and ?c = "outbox_capacity st"
  note e = assms [unfolded emitted_def]
  have le: "as_of_sequence st \<le> after \<longleftrightarrow> ?k \<le> ?n"
    using e by (simp add: word_le_nat_alt unat_of_nat)
  show ?thesis
  proof (cases "?k \<le> ?n")
    case True
    then show ?thesis by (simp add: fetch_outbox_after_def le)
  next
    case False
    have box: "outbox st = drop (?k - ?c) hist" and c: "1 \<le> ?c" using e by simp_all
    have "drop (?k - ?c) hist \<noteq> []" using False c by simp
    then obtain r rs where rs: "outbox st = r # rs" by (cases "outbox st") (simp_all add: box)
    have "r = hd (drop (?k - ?c) hist)" using rs box by simp
    then have "r = hist ! (?k - ?c)" using False c by (simp add: hd_drop_conv_nth)
    then have first: "qr_sequence r = of_nat (Suc (?k - ?c))" using e False c by (simp add: numbered_nth)
    have lt: "after + 1 < qr_sequence r \<longleftrightarrow> ?n + ?c < ?k"
    proof -
      have "after + 1 = of_nat (Suc ?n)" by simp
      then show ?thesis using e False c by (auto simp: first word_less_nat_alt unat_of_nat simp del: of_nat_Suc)
    qed
    have "filter (\<lambda>r. qr_sequence r > after) (outbox st) = drop ?n hist" if "\<not> ?n + ?c < ?k"
      using filter_after_drop [of hist "?k - ?c" ?n] e that u64_bound [of after] by (simp add: box)
    moreover have "as_of_sequence st = of_nat ?k" using e by simp
    moreover have "\<not> as_of_sequence st \<le> after" using False le by simp
    ultimately show ?thesis
      using False lt first [symmetric] by (simp add: fetch_outbox_after_def rs Let_def del: of_nat_Suc of_nat_diff)
  qed
qed

text \<open>The multiplier of the epoch hash is odd, so it has an inverse.\<close>

lemma epoch_multiplier_inverse: "(0x9E3779B97F4A7C15 :: u64) * 0xf1de83e19937733d = 1"
  by simp

lemma output_epoch_hash_inj: "output_epoch_hash h g = output_epoch_hash h g' \<longleftrightarrow> g = g'"
proof
  assume "output_epoch_hash h g = output_epoch_hash h g'"
  then have "g * (0x9E3779B97F4A7C15 * 0xf1de83e19937733d) = g' * (0x9E3779B97F4A7C15 * 0xf1de83e19937733d)"
    by (simp only: output_epoch_hash_def add_left_cancel mult.assoc [symmetric])
  then show "g = g'" by (simp only: epoch_multiplier_inverse mult_1_right)
qed simp

text \<open>The emissions of a query that keeps its output in memory only.\<close>

definition emit :: "query_result \<Rightarrow> query_output_state \<Rightarrow> query_output_state" where
  "emit r st = snd (advance_sequence_and_push r (apply_diffs (qr_results r) st))"

definition stamped :: "query_result list \<Rightarrow> query_result list" where
  "stamped rs = map (\<lambda>(n, r). r\<lparr>qr_sequence := of_nat n\<rparr>) (enumerate 1 rs)"

lemma stamped_snoc: "stamped (rs @ [r]) = stamped rs @ [r\<lparr>qr_sequence := of_nat (length rs + 1)\<rparr>]"
  by (simp add: stamped_def enumerate_append_eq)

lemma length_stamped [simp]: "length (stamped rs) = length rs"
  by (simp add: stamped_def)

lemma emitted_emit:
  assumes "emitted base (stamped rs) st" "length rs + 1 < 2 ^ 64"
  shows "emitted base (stamped (rs @ [r])) (emit r st)"
proof -
  have "sat_add (as_of_sequence st) 1 = of_nat (length rs + 1)"
    using assms by (simp only: emitted_def sat_add_one length_stamped)
  then show ?thesis
    using emitted_committed [of base "stamped rs" st r] assms by (simp add: emit_def advance_is_committed stamped_snoc)
qed

lemma emitted_emits: "length rs < 2 ^ 64 \<Longrightarrow> emitted Map.empty (stamped rs) (fold emit rs (new_output_state c))"
proof (induction rs rule: rev_induct)
  case Nil
  then show ?case by (simp add: stamped_def emitted_new)
next
  case (snoc r rs)
  then show ?case using emitted_emit [of Map.empty rs _ r] by simp
qed

lemma emits_capacity: "outbox_capacity (fold emit rs st) = outbox_capacity st"
  by (induction rs arbitrary: st)
    (simp_all add: emit_def advance_sequence_and_push_def push_outbox_def apply_diffs_def Let_def)

text \<open>
  C39. A reaction that asks for what it missed gets exactly that. After any emissions of a query,
  the live rows are the diffs of all emissions replayed, and a request for the emissions after
  number \<open>n\<close> returns all of them in order, numbered consecutively, unless one of them was evicted
  from the ring, in which case it is refused and told the earliest number still available. A
  capacity of 0 counts as 1.
\<close>

theorem outbox_replays_history:
  assumes "length rs < 2 ^ 64"
  shows "out_results (fold emit rs (new_output_state c)) = fold apply_diff (concat (map qr_results rs)) Map.empty \<and>
    fetch_outbox_after (fold emit rs (new_output_state c)) n =
      (let kept = min (max c 1) MAX_OUTBOX_CAPACITY
       in if length rs \<le> unat n then Inr []
          else if unat n + kept < length rs
          then Inl \<lparr>gap_requested = n, earliest_available = of_nat (length rs - kept + 1),
                     latest_sequence = of_nat (length rs), gap_config_hash = 0\<rparr>
          else Inr (drop (unat n) (stamped rs)))"
proof -
  let ?st = "fold emit rs (new_output_state c)"
  have e: "emitted Map.empty (stamped rs) ?st" by (rule emitted_emits [OF assms])
  have "map qr_results (stamped rs) = map qr_results rs"
    by (rule nth_equalityI) (simp_all add: stamped_def nth_enumerate_eq)
  moreover have "outbox_capacity ?st = min (max c 1) MAX_OUTBOX_CAPACITY"
    by (simp add: emits_capacity new_output_state_def)
  ultimately show ?thesis
    using e fetch_outbox_emitted [OF e, of n] by (simp add: emitted_def Let_def)
qed

definition sample_result :: "u64 \<Rightarrow> query_result" where
  "sample_result sig =
     \<lparr>qr_query_id = ''q'', qr_sequence = 0, qr_timestamp = 0, qr_results = [DiffAdd JNull sig],
      qr_metadata = Map.empty, qr_profiling = None\<rparr>"

theorem outbox_replays_history_witness:
  "fetch_outbox_after (fold emit [sample_result 7, sample_result 8, sample_result 9] (new_output_state 2)) 1 =
     Inr [(sample_result 8)\<lparr>qr_sequence := 2\<rparr>, (sample_result 9)\<lparr>qr_sequence := 3\<rparr>] \<and>
   fetch_outbox_after (fold emit [sample_result 7, sample_result 8, sample_result 9] (new_output_state 2)) 0 =
     Inl \<lparr>gap_requested = 0, earliest_available = 2, latest_sequence = 3, gap_config_hash = 0\<rparr>"
  using outbox_replays_history [of "[sample_result 7, sample_result 8, sample_result 9]" 2 1]
    outbox_replays_history [of "[sample_result 7, sample_result 8, sample_result 9]" 2 0]
  by (simp add: MAX_OUTBOX_CAPACITY_def stamped_def)

end
