(* ===== verification/Output_Store.thy ===== *)
theory Output_Store
  imports Output_State Session Models
begin

text \<open>
  The stores a query keeps its output and its progress in: the interfaces
  \<^verbatim>\<open>src/core/src/interface/outbox_writer.rs\<close>, \<^verbatim>\<open>live_results_writer.rs\<close> and
  \<^verbatim>\<open>checkpoint_store.rs\<close>, their in-memory implementations, and the locale \<open>output_stores\<close> with
  what the query manager relies on.
\<close>

subsection \<open>The interfaces\<close>

record ('s, 'e) outbox_ops =
  ob_append :: "string \<Rightarrow> u64 \<Rightarrow> bytes \<Rightarrow> ('s, 'e, unit) action"
  ob_read_from :: "string \<Rightarrow> u64 \<Rightarrow> ('s, 'e, (u64 \<times> bytes) list) action"
  ob_read_latest_sequence :: "string \<Rightarrow> ('s, 'e, u64 option) action"
  ob_clear :: "string \<Rightarrow> ('s, 'e, unit) action"
  ob_trim_before :: "string \<Rightarrow> u64 \<Rightarrow> ('s, 'e, nat) action"
  ob_trim_to_capacity :: "string \<Rightarrow> nat \<Rightarrow> ('s, 'e, nat) action"

definition append_and_trim :: "('s, 'e) outbox_ops \<Rightarrow> string \<Rightarrow> u64 \<Rightarrow> bytes \<Rightarrow> u64 \<Rightarrow> ('s, 'e, nat) action" where
  "append_and_trim ob q n d retain_from = act_bind (ob_append ob q n d) (\<lambda>_. ob_trim_before ob q retain_from)"

type_synonym row_mutation = "u64 \<times> bytes option"

record ('s, 'e) live_ops =
  lr_apply_mutations :: "string \<Rightarrow> row_mutation list \<Rightarrow> ('s, 'e, unit) action"
  lr_read_snapshot :: "string \<Rightarrow> ('s, 'e, (u64 \<times> bytes) list) action"
  lr_clear :: "string \<Rightarrow> ('s, 'e, unit) action"
  lr_row_count :: "string \<Rightarrow> ('s, 'e, nat) action"

record source_checkpoint =
  cp_sequence :: u64
  cp_source_position :: "bytes option"

record ('s, 'e) checkpoint_ops =
  is_persistent :: bool
  stage_checkpoint :: "string \<Rightarrow> u64 \<Rightarrow> bytes option \<Rightarrow> ('s, 'e, unit) action"
  read_checkpoint :: "string \<Rightarrow> ('s, 'e, source_checkpoint option) action"
  read_all_checkpoints :: "('s, 'e, string \<rightharpoonup> source_checkpoint) action"
  clear_checkpoints :: "('s, 'e, unit) action"
  write_config_hash :: "u64 \<Rightarrow> ('s, 'e, unit) action"
  read_config_hash :: "('s, 'e, u64 option) action"
  stage_result_sequence :: "string \<Rightarrow> u64 \<Rightarrow> ('s, 'e, unit) action"
  write_result_sequence :: "string \<Rightarrow> u64 \<Rightarrow> ('s, 'e, unit) action"
  read_result_sequence :: "string \<Rightarrow> ('s, 'e, u64 option) action"
  write_output_generation :: "string \<Rightarrow> u64 \<Rightarrow> ('s, 'e, unit) action"
  read_output_generation :: "string \<Rightarrow> ('s, 'e, u64 option) action"

subsection \<open>The in-memory stores\<close>

type_synonym outbox_data = "string \<rightharpoonup> (u64, bytes) btree"
type_synonym live_data = "string \<rightharpoonup> (u64 \<rightharpoonup> bytes)"

record checkpoint_data =
  mem_checkpoints :: "string \<rightharpoonup> source_checkpoint"
  mem_config_hash :: "u64 option"
  mem_result_sequences :: "string \<rightharpoonup> u64"
  mem_output_generations :: "string \<rightharpoonup> u64"

text \<open>The three stores of one query, as one state.\<close>

record memory_output =
  mem_outbox :: outbox_data
  mem_live :: live_data
  mem_progress :: checkpoint_data

definition entry_or_default :: "(string \<rightharpoonup> 'b) \<Rightarrow> 'b \<Rightarrow> string \<Rightarrow> 'b" where
  "entry_or_default m d k = (case m k of Some v \<Rightarrow> v | None \<Rightarrow> d)"

definition outbox_append :: "string \<Rightarrow> u64 \<Rightarrow> bytes \<Rightarrow> (memory_output, index_error, unit) action" where
  "outbox_append q n d s =
     (Inr (), s\<lparr>mem_outbox := (mem_outbox s)(q \<mapsto> bt_insert n d (entry_or_default (mem_outbox s) [] q))\<rparr>)"

definition outbox_read_from :: "string \<Rightarrow> u64 \<Rightarrow> (memory_output, index_error, (u64 \<times> bytes) list) action" where
  "outbox_read_from q n s =
     (Inr (case mem_outbox s q of Some m \<Rightarrow> bt_above n m | None \<Rightarrow> []), s)"

definition outbox_read_latest_sequence :: "string \<Rightarrow> (memory_output, index_error, u64 option) action" where
  "outbox_read_latest_sequence q s =
     (Inr (case mem_outbox s q of Some m \<Rightarrow> next_back (map fst m) | None \<Rightarrow> None), s)"

definition outbox_clear :: "string \<Rightarrow> (memory_output, index_error, unit) action" where
  "outbox_clear q s =
     (Inr (), s\<lparr>mem_outbox := (mem_outbox s)(q := None)\<rparr>)"

definition outbox_trim_before :: "string \<Rightarrow> u64 \<Rightarrow> (memory_output, index_error, nat) action" where
  "outbox_trim_before q retain_from s =
     (case mem_outbox s q of
        None \<Rightarrow> (Inr 0, s)
      | Some m \<Rightarrow>
          let keys_to_remove = filter (\<lambda>k. k < retain_from) (map fst m)
          in (Inr (length keys_to_remove), s\<lparr>mem_outbox := (mem_outbox s)(q \<mapsto> fold bt_remove keys_to_remove m)\<rparr>))"

definition outbox_trim_to_capacity :: "string \<Rightarrow> nat \<Rightarrow> (memory_output, index_error, nat) action" where
  "outbox_trim_to_capacity q capacity s =
     (case mem_outbox s q of
        None \<Rightarrow> (Inr 0, s)
      | Some m \<Rightarrow>
          if length m \<le> capacity then (Inr 0, s)
          else
            let to_remove = length m - capacity;
                keys_to_remove = take to_remove (map fst m)
            in (Inr to_remove, s\<lparr>mem_outbox := (mem_outbox s)(q \<mapsto> fold bt_remove keys_to_remove m)\<rparr>))"

definition memory_outbox_writer :: "(memory_output, index_error) outbox_ops" where
  "memory_outbox_writer =
     \<lparr>ob_append = outbox_append, ob_read_from = outbox_read_from, ob_read_latest_sequence = outbox_read_latest_sequence,
      ob_clear = outbox_clear, ob_trim_before = outbox_trim_before, ob_trim_to_capacity = outbox_trim_to_capacity\<rparr>"

definition live_apply_mutations :: "string \<Rightarrow> row_mutation list \<Rightarrow> (memory_output, index_error, unit) action" where
  "live_apply_mutations q ms s =
     (let rows = entry_or_default (mem_live s) Map.empty q
      in (Inr (), s\<lparr>mem_live := (mem_live s)(q \<mapsto> fold (\<lambda>(sig, d) rows. rows(sig := d)) ms rows)\<rparr>))"

definition live_read_snapshot :: "u64 iter \<Rightarrow> string \<Rightarrow> (memory_output, index_error, (u64 \<times> bytes) list) action" where
  "live_read_snapshot it q s =
     (Inr (case mem_live s q of Some m \<Rightarrow> map (\<lambda>sig. (sig, the (m sig))) (it (dom m)) | None \<Rightarrow> []), s)"

definition live_clear :: "string \<Rightarrow> (memory_output, index_error, unit) action" where
  "live_clear q s =
     (Inr (), s\<lparr>mem_live := (mem_live s)(q := None)\<rparr>)"

definition live_row_count :: "string \<Rightarrow> (memory_output, index_error, nat) action" where
  "live_row_count q s =
     (Inr (case mem_live s q of Some m \<Rightarrow> card (dom m) | None \<Rightarrow> 0), s)"

definition memory_live_writer :: "u64 iter \<Rightarrow> (memory_output, index_error) live_ops" where
  "memory_live_writer it =
     \<lparr>lr_apply_mutations = live_apply_mutations, lr_read_snapshot = live_read_snapshot it,
      lr_clear = live_clear, lr_row_count = live_row_count\<rparr>"

definition on_progress :: "(checkpoint_data \<Rightarrow> checkpoint_data) \<Rightarrow> (memory_output, index_error, unit) action" where
  "on_progress f s = (Inr (), s\<lparr>mem_progress := f (mem_progress s)\<rparr>)"

definition of_progress :: "(checkpoint_data \<Rightarrow> 'a) \<Rightarrow> (memory_output, index_error, 'a) action" where
  "of_progress f s = (Inr (f (mem_progress s)), s)"

definition mem_stage_checkpoint :: "string \<Rightarrow> u64 \<Rightarrow> bytes option \<Rightarrow> (memory_output, index_error, unit) action" where
  "mem_stage_checkpoint source n pos =
     on_progress (\<lambda>c. c\<lparr>mem_checkpoints := (mem_checkpoints c)(source \<mapsto> \<lparr>cp_sequence = n, cp_source_position = pos\<rparr>)\<rparr>)"

definition mem_read_checkpoint :: "string \<Rightarrow> (memory_output, index_error, source_checkpoint option) action" where
  "mem_read_checkpoint source =
     of_progress (\<lambda>c. mem_checkpoints c source)"

definition mem_read_all_checkpoints :: "(memory_output, index_error, string \<rightharpoonup> source_checkpoint) action" where
  "mem_read_all_checkpoints =
     of_progress mem_checkpoints"

definition mem_clear_checkpoints :: "(memory_output, index_error, unit) action" where
  "mem_clear_checkpoints =
     on_progress (\<lambda>c. c\<lparr>mem_checkpoints := Map.empty, mem_config_hash := None,
       mem_result_sequences := Map.empty, mem_output_generations := Map.empty\<rparr>)"

definition mem_write_config_hash :: "u64 \<Rightarrow> (memory_output, index_error, unit) action" where
  "mem_write_config_hash h =
     on_progress (\<lambda>c. c\<lparr>mem_config_hash := Some h\<rparr>)"

definition mem_read_config_hash :: "(memory_output, index_error, u64 option) action" where
  "mem_read_config_hash =
     of_progress mem_config_hash"

definition mem_write_result_sequence :: "string \<Rightarrow> u64 \<Rightarrow> (memory_output, index_error, unit) action" where
  "mem_write_result_sequence q n =
     on_progress (\<lambda>c. c\<lparr>mem_result_sequences := (mem_result_sequences c)(q \<mapsto> n)\<rparr>)"

definition mem_stage_result_sequence :: "string \<Rightarrow> u64 \<Rightarrow> (memory_output, index_error, unit) action" where
  "mem_stage_result_sequence q n =
     mem_write_result_sequence q n"

definition mem_read_result_sequence :: "string \<Rightarrow> (memory_output, index_error, u64 option) action" where
  "mem_read_result_sequence q =
     of_progress (\<lambda>c. mem_result_sequences c q)"

definition mem_write_output_generation :: "string \<Rightarrow> u64 \<Rightarrow> (memory_output, index_error, unit) action" where
  "mem_write_output_generation q g =
     on_progress (\<lambda>c. c\<lparr>mem_output_generations := (mem_output_generations c)(q \<mapsto> g)\<rparr>)"

definition mem_read_output_generation :: "string \<Rightarrow> (memory_output, index_error, u64 option) action" where
  "mem_read_output_generation q =
     of_progress (\<lambda>c. mem_output_generations c q)"

definition memory_checkpoint_store :: "(memory_output, index_error) checkpoint_ops" where
  "memory_checkpoint_store =
     \<lparr>is_persistent = False, stage_checkpoint = mem_stage_checkpoint, read_checkpoint = mem_read_checkpoint,
      read_all_checkpoints = mem_read_all_checkpoints, clear_checkpoints = mem_clear_checkpoints,
      write_config_hash = mem_write_config_hash, read_config_hash = mem_read_config_hash,
      stage_result_sequence = mem_stage_result_sequence, write_result_sequence = mem_write_result_sequence,
      read_result_sequence = mem_read_result_sequence, write_output_generation = mem_write_output_generation,
      read_output_generation = mem_read_output_generation\<rparr>"

subsection \<open>What the query manager relies on\<close>

text \<open>The output of one query, as the stores hold it.\<close>

record output_view =
  ov_outbox :: "(u64, bytes) btree"
  ov_rows :: "u64 \<rightharpoonup> bytes"
  ov_checkpoints :: "string \<rightharpoonup> source_checkpoint"
  ov_config_hash :: "u64 option"
  ov_result_sequence :: "u64 option"
  ov_generation :: "u64 option"

text \<open>
  An action that turns the view by \<open>f\<close> or fails, and one that reports something of the view or
  fails, in either case without leaving the states in \<open>P\<close>.
\<close>

definition writes :: "('s \<Rightarrow> bool) \<Rightarrow> ('s \<Rightarrow> 'w) \<Rightarrow> ('w \<Rightarrow> 'w) \<Rightarrow> ('s, 'e, 'a) action \<Rightarrow> bool" where
  "writes P v f m \<longleftrightarrow> (\<forall>s. P s \<longrightarrow> P (snd (m s)) \<and> (\<forall>x t. m s = (Inr x, t) \<longrightarrow> v t = f (v s)))"

definition reads :: "('s \<Rightarrow> bool) \<Rightarrow> ('s \<Rightarrow> 'w) \<Rightarrow> ('w \<Rightarrow> 'a \<Rightarrow> bool) \<Rightarrow> ('s, 'e, 'a) action \<Rightarrow> bool" where
  "reads P v R m \<longleftrightarrow> (\<forall>s. P s \<longrightarrow> snd (m s) = s \<and> (\<forall>x t. m s = (Inr x, t) \<longrightarrow> R (v s) x))"

text \<open>
  An action inside a session. From a state in \<open>P\<close> with the pending view \<open>w\<close> it leads to one in \<open>Q\<close>
  with the pending view \<open>F x\<close>, where \<open>x\<close> is its result; when it fails the session is still active.
  What survives a crash stays as it is.
\<close>

definition stages ::
    "('s \<Rightarrow> bool) \<Rightarrow> ('s \<Rightarrow> 'w) \<Rightarrow> ('s \<Rightarrow> 'w) \<Rightarrow> ('s \<Rightarrow> bool) \<Rightarrow> 'w \<Rightarrow> ('s \<Rightarrow> bool) \<Rightarrow> ('a \<Rightarrow> 'w) \<Rightarrow> ('s, 'e, 'a) action \<Rightarrow> bool" where
  "stages active pend view P w Q F m \<longleftrightarrow>
     (\<forall>s r t. P s \<longrightarrow> pend s = w \<longrightarrow> m s = (r, t) \<longrightarrow>
        view t = view s \<and> (case r of Inl _ \<Rightarrow> active t | Inr x \<Rightarrow> Q t \<and> pend t = F x))"

lemma stagesD:
  "stages active pend view P w Q F m \<Longrightarrow> P s \<Longrightarrow> pend s = w \<Longrightarrow> m s = (r, t) \<Longrightarrow>
     view t = view s \<and> (case r of Inl _ \<Rightarrow> active t | Inr x \<Rightarrow> Q t \<and> pend t = F x)"
  unfolding stages_def by blast

lemma stages_bind:
  assumes m: "stages active pend view P w R (\<lambda>_. w') m" and k: "\<And>x. stages active pend view R w' Q F (k x)"
  shows "stages active pend view P w Q F (act_bind m k)"
  unfolding stages_def
proof (intro allI impI)
  fix s r t
  assume s: "P s" "pend s = w" and run: "act_bind m k s = (r, t)"
  obtain r1 s1 where m1: "m s = (r1, s1)" by (cases "m s")
  note 1 = stagesD [OF m s m1]
  show "view t = view s \<and> (case r of Inl _ \<Rightarrow> active t | Inr x \<Rightarrow> Q t \<and> pend t = F x)"
  proof (cases r1)
    case (Inl e)
    then show ?thesis using run m1 1 by (auto simp: act_bind_def)
  next
    case (Inr x)
    then have "k x s1 = (r, t)" using run m1 by (simp add: act_bind_def)
    with stagesD [OF k _ _ this] 1 Inr show ?thesis by simp
  qed
qed

lemma stages_return: "(\<And>s. P s \<Longrightarrow> Q s) \<Longrightarrow> F x = w \<Longrightarrow> stages active pend view P w Q F (act_return x)"
  by (simp add: stages_def)

lemma stages_fail: "(\<And>s. P s \<Longrightarrow> active s) \<Longrightarrow> stages active pend view P w Q F (act_fail e)"
  by (simp add: stages_def)

lemma stages_map_err:
  assumes "stages active pend view P w Q F m"
  shows "stages active pend view P w Q F (act_map_err g m)"
  unfolding stages_def
proof (intro allI impI)
  fix s r t
  assume s: "P s" "pend s = w" and run: "act_map_err g m s = (r, t)"
  obtain r1 where "m s = (r1, t)" "r = (case r1 of Inl e \<Rightarrow> Inl (g e) | Inr x \<Rightarrow> Inr x)"
    using run by (cases "m s") (auto simp: act_map_err_def split: sum.splits)
  with stagesD [OF assms s] show "view t = view s \<and> (case r of Inl _ \<Rightarrow> active t | Inr x \<Rightarrow> Q t \<and> pend t = F x)"
    by (auto split: sum.splits)
qed

lemma stages_keeping:
  assumes "\<And>s. P s \<Longrightarrow> active s" "\<And>u. act_keeps (\<lambda>s. P s \<and> pend s = w \<and> view s = u) m"
  shows "stages active pend view P w P (\<lambda>_. w) m"
  unfolding stages_def
proof (intro allI impI)
  fix s r t
  assume "P s" "pend s = w" "m s = (r, t)"
  with assms(2) [of "view s", THEN act_keepsD, of s] have "P t" "pend t = w" "view t = view s" by simp_all
  with assms(1) show "view t = view s \<and> (case r of Inl _ \<Rightarrow> active t | Inr x \<Rightarrow> P t \<and> pend t = w)"
    by (simp split: sum.split)
qed

definition v_checkpoint :: "string \<Rightarrow> u64 \<Rightarrow> bytes option \<Rightarrow> output_view \<Rightarrow> output_view" where
  "v_checkpoint source n pos v =
     v\<lparr>ov_checkpoints := (ov_checkpoints v)(source \<mapsto> \<lparr>cp_sequence = n, cp_source_position = pos\<rparr>)\<rparr>"

definition v_mutate :: "row_mutation list \<Rightarrow> output_view \<Rightarrow> output_view" where
  "v_mutate ms v = v\<lparr>ov_rows := fold (\<lambda>(sig, d) rows. rows(sig := d)) ms (ov_rows v)\<rparr>"

definition v_append :: "u64 \<Rightarrow> bytes \<Rightarrow> output_view \<Rightarrow> output_view" where
  "v_append n d v = v\<lparr>ov_outbox := bt_insert n d (ov_outbox v)\<rparr>"

definition v_trim :: "u64 \<Rightarrow> output_view \<Rightarrow> output_view" where
  "v_trim n v = v\<lparr>ov_outbox := filter (\<lambda>e. n \<le> fst e) (ov_outbox v)\<rparr>"

text \<open>
  Events are staged in \<open>active\<close> states, inside a session, which is \<open>ready\<close> as long as no result was
  staged in it: a session stages the checkpoint of an event and then at most one result, whose
  sequence is larger than all stored ones and below \<open>limit\<close>. The rest happens in \<open>idle\<close> states.
  \<open>pend\<close> is the stored output with what is staged, \<open>view\<close> what survives a crash. Reading and writing may fail.
  How much \<open>clear_checkpoints\<close> forgets beyond the checkpoints and the hash differs between the
  implementations.
\<close>

locale output_stores =
  fixes ob :: "('s, 'e) outbox_ops" and lr :: "('s, 'e) live_ops" and cp :: "('s, 'e) checkpoint_ops"
    and q :: string and limit :: nat and idle ready active :: "'s \<Rightarrow> bool" and pend view :: "'s \<Rightarrow> output_view"
  assumes outbox_sorted: "idle s \<Longrightarrow> bt_ok (ov_outbox (pend s))"
    and limit_u64: "limit \<le> 2 ^ 64"
    and ready_active: "ready s \<Longrightarrow> active s"
    and stage_source: "stages active pend view ready w ready (\<lambda>_. v_checkpoint source n pos w) (stage_checkpoint cp source n pos)"
    and stage_emission: "unat n < limit \<Longrightarrow> \<forall>k \<in> fst ` set (ov_outbox w). k < n \<Longrightarrow>
      stages active pend view ready w active (\<lambda>_. v_trim m (v_append n d w)) (append_and_trim ob q n d m)"
    and stage_rows: "stages active pend view active w active (\<lambda>_. v_mutate ms w) (lr_apply_mutations lr q ms)"
    and stage_sequence: "stages active pend view active w active (\<lambda>_. w\<lparr>ov_result_sequence := Some n\<rparr>) (stage_result_sequence cp q n)"
    and read_outbox: "unat n < limit \<Longrightarrow> reads idle pend (\<lambda>v es. es = bt_above n (ov_outbox v)) (ob_read_from ob q n)"
    and read_latest: "reads idle pend (\<lambda>v l. l = next_back (map fst (ov_outbox v))) (ob_read_latest_sequence ob q)"
    and read_rows: "reads idle pend (\<lambda>v rows. distinct (map fst rows) \<and> map_of rows = ov_rows v) (lr_read_snapshot lr q)"
    and read_sources: "reads idle pend (\<lambda>v c. c = ov_checkpoints v) (read_all_checkpoints cp)"
    and read_hash: "reads idle pend (\<lambda>v h. h = ov_config_hash v) (read_config_hash cp)"
    and read_sequence: "reads idle pend (\<lambda>v n. n = ov_result_sequence v) (read_result_sequence cp q)"
    and read_generation: "reads idle pend (\<lambda>v g. g = ov_generation v) (read_output_generation cp q)"
    and write_sequence: "writes idle pend (\<lambda>v. v\<lparr>ov_result_sequence := Some n\<rparr>) (write_result_sequence cp q n)"
    and write_generation: "writes idle pend (\<lambda>v. v\<lparr>ov_generation := Some g\<rparr>) (write_output_generation cp q g)"
    and write_hash: "writes idle pend (\<lambda>v. v\<lparr>ov_config_hash := Some h\<rparr>) (write_config_hash cp h)"
    and clear_outbox: "writes idle pend (\<lambda>v. v\<lparr>ov_outbox := []\<rparr>) (ob_clear ob q)"
    and clear_rows: "writes idle pend (\<lambda>v. v\<lparr>ov_rows := Map.empty\<rparr>) (lr_clear lr q)"
    and clear_sources: "writes idle (\<lambda>s. (pend s)\<lparr>ov_result_sequence := None, ov_generation := None\<rparr>)
      (\<lambda>v. v\<lparr>ov_checkpoints := Map.empty, ov_config_hash := None\<rparr>) (clear_checkpoints cp)"

definition memory_view :: "string \<Rightarrow> memory_output \<Rightarrow> output_view" where
  "memory_view q s =
     \<lparr>ov_outbox = entry_or_default (mem_outbox s) [] q, ov_rows = entry_or_default (mem_live s) Map.empty q,
      ov_checkpoints = mem_checkpoints (mem_progress s), ov_config_hash = mem_config_hash (mem_progress s),
      ov_result_sequence = mem_result_sequences (mem_progress s) q,
      ov_generation = mem_output_generations (mem_progress s) q\<rparr>"

text \<open>Nothing of the in-memory stores survives a crash.\<close>

definition no_output :: output_view where
  "no_output = \<lparr>ov_outbox = [], ov_rows = Map.empty, ov_checkpoints = Map.empty, ov_config_hash = None,
     ov_result_sequence = None, ov_generation = None\<rparr>"

definition memory_ok :: "memory_output \<Rightarrow> bool" where
  "memory_ok s \<longleftrightarrow> (\<forall>q m. mem_outbox s q = Some m \<longrightarrow> bt_ok m) \<and> (\<forall>q m. mem_live s q = Some m \<longrightarrow> finite (dom m))"

lemma fold_bt_remove: "fold bt_remove ks m = filter (\<lambda>e. fst e \<notin> set ks) m"
  by (induction ks arbitrary: m) (auto simp: bt_remove_def intro: filter_cong)

lemma fold_mutate_finite:
  "finite (dom rows) \<Longrightarrow> finite (dom (fold (\<lambda>(sig, d) rows. rows(sig := d)) ms rows))"
  by (induction ms arbitrary: rows) (auto simp: dom_fun_upd split: option.split)

lemmas memory_store_defs =
  memory_outbox_writer_def memory_live_writer_def memory_checkpoint_store_def
  outbox_append_def outbox_read_from_def outbox_read_latest_sequence_def outbox_clear_def outbox_trim_before_def
  live_apply_mutations_def live_read_snapshot_def live_clear_def on_progress_def of_progress_def
  mem_stage_checkpoint_def mem_read_all_checkpoints_def mem_clear_checkpoints_def mem_write_config_hash_def
  mem_read_config_hash_def mem_write_result_sequence_def mem_stage_result_sequence_def mem_read_result_sequence_def
  mem_write_output_generation_def mem_read_output_generation_def

lemma stagesI:
  assumes "\<And>s. P s \<Longrightarrow> pend s = w \<Longrightarrow> \<exists>x t. m s = (Inr x, t) \<and> view t = view s \<and> Q t \<and> pend t = F x"
  shows "stages active pend view P w Q F m"
  unfolding stages_def
proof (intro allI impI)
  fix s r t
  assume "P s" "pend s = w" "m s = (r, t)"
  with assms [of s] show "view t = view s \<and> (case r of Inl _ \<Rightarrow> active t | Inr x \<Rightarrow> Q t \<and> pend t = F x)" by auto
qed

lemma memory_stages:
  "stages memory_ok (memory_view q) (\<lambda>_. no_output) memory_ok w memory_ok (\<lambda>_. v_checkpoint source n pos w)
     (stage_checkpoint memory_checkpoint_store source n pos)"
  "stages memory_ok (memory_view q) (\<lambda>_. no_output) memory_ok w memory_ok (\<lambda>_. v_append n d w) (ob_append memory_outbox_writer q n d)"
  "stages memory_ok (memory_view q) (\<lambda>_. no_output) memory_ok w memory_ok (\<lambda>_. v_trim n w) (ob_trim_before memory_outbox_writer q n)"
  "stages memory_ok (memory_view q) (\<lambda>_. no_output) memory_ok w memory_ok (\<lambda>_. v_mutate ms w)
     (lr_apply_mutations (memory_live_writer it) q ms)"
  "stages memory_ok (memory_view q) (\<lambda>_. no_output) memory_ok w memory_ok (\<lambda>_. w\<lparr>ov_result_sequence := Some n\<rparr>)
     (stage_result_sequence memory_checkpoint_store q n)"
  by (rule stagesI; auto simp: memory_store_defs memory_view_def entry_or_default_def memory_ok_def v_append_def
      v_trim_def v_mutate_def v_checkpoint_def fold_bt_remove fold_mutate_finite Let_def not_less
      intro!: filter_cong split: option.splits)+

lemma memory_stages_emission:
  "stages memory_ok (memory_view q) (\<lambda>_. no_output) memory_ok w memory_ok (\<lambda>_. v_trim m (v_append n d w))
     (append_and_trim memory_outbox_writer q n d m)"
  unfolding append_and_trim_def by (intro stages_bind [OF memory_stages(2)] memory_stages(3))

lemma memory_stores_law:
  assumes it: "iter_ok it"
  shows "output_stores memory_outbox_writer (memory_live_writer it) memory_checkpoint_store q (2 ^ 64)
    memory_ok memory_ok memory_ok (memory_view q) (\<lambda>_. no_output)"
proof (unfold_locales)
  show "bt_ok (ov_outbox (memory_view q s))" if "memory_ok s" for s
    using that by (auto simp: memory_ok_def memory_view_def entry_or_default_def split: option.split)
  show "stages memory_ok (memory_view q) (\<lambda>_. no_output) memory_ok w memory_ok (\<lambda>_. v_checkpoint source n pos w)
      (stage_checkpoint memory_checkpoint_store source n pos)"
    "stages memory_ok (memory_view q) (\<lambda>_. no_output) memory_ok w memory_ok (\<lambda>_. v_trim m (v_append n d w))
      (append_and_trim memory_outbox_writer q n d m)"
    "stages memory_ok (memory_view q) (\<lambda>_. no_output) memory_ok w memory_ok (\<lambda>_. v_mutate ms w)
      (lr_apply_mutations (memory_live_writer it) q ms)"
    "stages memory_ok (memory_view q) (\<lambda>_. no_output) memory_ok w memory_ok (\<lambda>_. w\<lparr>ov_result_sequence := Some n\<rparr>)
      (stage_result_sequence memory_checkpoint_store q n)" for m n d w source pos ms
    by (rule memory_stages memory_stages_emission)+
  show "reads memory_ok (memory_view q) (\<lambda>v rows. distinct (map fst rows) \<and> map_of rows = ov_rows v)
      (lr_read_snapshot (memory_live_writer it) q)"
  proof (clarsimp simp: reads_def memory_store_defs memory_view_def entry_or_default_def split: option.split)
    fix s m
    assume "memory_ok s" "mem_live s q = Some m"
    then have "finite (dom m)" by (auto simp: memory_ok_def)
    then have "set (it (dom m)) = dom m" "distinct (it (dom m))" using it by (simp_all add: iter_ok_def)
    then show "distinct (map (fst \<circ> (\<lambda>sig. (sig, the (m sig)))) (it (dom m))) \<and>
        map_of (map (\<lambda>sig. (sig, the (m sig))) (it (dom m))) = m"
      by (auto simp: comp_def map_of_map_restrict restrict_map_def fun_eq_iff)
  qed
qed (auto simp: writes_def reads_def memory_store_defs memory_view_def entry_or_default_def memory_ok_def v_append_def
      v_trim_def v_mutate_def v_checkpoint_def fold_bt_remove fold_mutate_finite next_back_def bt_above_def Let_def not_less
      intro!: filter_cong split: option.splits)

interpretation memory_stores: output_stores memory_outbox_writer "memory_live_writer sorted_list_of_set"
    memory_checkpoint_store q "2 ^ 64" memory_ok memory_ok memory_ok "memory_view q" "\<lambda>_. no_output" for q
  by (rule memory_stores_law) simp

subsection \<open>Stores that take part in a session\<close>

text \<open>
  In a \<open>closed\<close> state no session is open; a session works on \<open>pend\<close>, and its commit makes that the
  view. A session just begun is still \<open>idle\<close>: nothing is staged, and reads see what is stored.
\<close>

locale transactional_stores = output_stores ob lr cp q limit idle ready active pend view
  for ob :: "('s, 'e) outbox_ops" and lr :: "('s, 'e) live_ops" and cp :: "('s, 'e) checkpoint_ops"
    and q :: string and limit :: nat and idle ready active :: "'s \<Rightarrow> bool" and pend view :: "'s \<Rightarrow> output_view" +
  fixes ses :: "('s, 'e) session_ops" and closed :: "'s \<Rightarrow> bool"
  assumes closed_idle: "closed s \<Longrightarrow> idle s \<and> view s = pend s"
    and begin_ok: "closed s \<Longrightarrow> op_begin ses s = (Inr u, t) \<Longrightarrow> idle t \<and> ready t \<and> pend t = pend s \<and> view t = view s"
    and begin_failed: "closed s \<Longrightarrow> op_begin ses s = (Inl e, t) \<Longrightarrow> closed t \<and> view t = view s"
    and commit_ok: "active s \<Longrightarrow> op_commit ses s = (Inr u, t) \<Longrightarrow> closed t \<and> view t = pend s"
    and commit_failed: "active s \<Longrightarrow> op_commit ses s = (Inl e, t) \<Longrightarrow>
          closed (session_drop ses t) \<and> view (session_drop ses t) = view s"
    and rolled_back: "active s \<Longrightarrow> closed (session_drop ses s) \<and> view (session_drop ses s) = view s"
begin

text \<open>A guarded body that works on the session: all of it is stored, or nothing.\<close>

lemma guard_outcome:
  assumes s: "closed s" and body: "stages active pend view ready (view s) active F body"
    and run: "session_guard conv ses body s = (r, t)"
  shows "closed t \<and> view t = (case r of Inr x \<Rightarrow> F x | Inl _ \<Rightarrow> view s)"
proof -
  have begun: "ready s1 \<and> pend s1 = view s \<and> view s1 = view s" if "op_begin ses s = (Inr u, s1)" for u s1
    using begin_ok [OF s that] closed_idle [OF s] by simp
  note staged = stagesD [OF body]
  show ?thesis
  proof (cases r)
    case (Inr x)
    with run obtain s1 s2 u v where
      g: "op_begin ses s = (Inr u, s1)" "body s1 = (Inr x, s2)" "op_commit ses s2 = (Inr v, t)"
      by (auto elim: session_guard_Inr)
    with begun [OF g(1)] staged [OF _ _ g(2)] commit_ok [OF _ g(3)] show ?thesis by (simp add: Inr)
  next
    case (Inl e)
    from run [unfolded Inl] show ?thesis
    proof (cases rule: session_guard_Inl)
      case (not_begun e)
      with begin_failed [OF s] show ?thesis by (simp add: Inl)
    next
      case (body u s1 s2)
      with begun [OF body(1)] staged [OF _ _ body(2)] rolled_back [of s2] show ?thesis by (simp add: Inl)
    next
      case (commit u x s1 s2 e s3)
      with begun [OF commit(1)] staged [OF _ _ commit(2)] commit_failed [OF _ commit(3)] show ?thesis by (simp add: Inl)
    qed
  qed
qed

end

end
