(* ===== verification/Durable_Output.thy ===== *)
theory Durable_Output
  imports Output_Store Continuous_Query
begin

text \<open>
  How a query keeps its output across crashes, from \<^verbatim>\<open>src/lib/src/queries/manager.rs\<close>: the output
  of an event is staged in the session of the event, applied in memory and dispatched after the
  commit; at startup the output is loaded from the stores and the events that were already
  processed are skipped.

  Serialization (crate \<^verbatim>\<open>rmp_serde\<close>) is the argument \<open>codec\<close>, with the hypothesis \<open>codec_ok\<close> that
  reading returns what was written. The clock is an argument. Messages of errors are not
  modelled; metrics and logging neither.
\<close>

unbundle bit_operations_syntax

subsection \<open>Staging the output of an event\<close>

datatype persist_failure = SerializeResult string u64 string | SerializeRow string u64 u64 string

record 'e codec =
  enc_result :: "query_result \<Rightarrow> string + bytes"
  dec_result :: "bytes \<Rightarrow> string + query_result"
  enc_row :: "json \<Rightarrow> string + bytes"
  dec_row :: "bytes \<Rightarrow> string + json"
  output_persist_error :: "persist_failure \<Rightarrow> 'e"

record ('s, 'e) durable_output_stores =
  ds_checkpoint_store :: "('s, 'e) checkpoint_ops"
  ds_outbox_writer :: "('s, 'e) outbox_ops option"
  ds_live_results_writer :: "('s, 'e) live_ops option"

definition query_result_with_profiling ::
    "string \<Rightarrow> u64 \<Rightarrow> int \<Rightarrow> result_diff list \<Rightarrow> string \<Rightarrow> profiling_metadata \<Rightarrow> query_result" where
  "query_result_with_profiling q n now diffs source profiling =
     \<lparr>qr_query_id = q, qr_sequence = n, qr_timestamp = now, qr_results = diffs,
      qr_metadata = [''source_id'' \<mapsto> JString source, ''processed_by'' \<mapsto> JString ''drasi-core'',
        ''result_count'' \<mapsto> JNumber (int (length diffs))],
      qr_profiling = Some profiling\<rparr>"

fun serialize_row :: "'e codec \<Rightarrow> string \<Rightarrow> u64 \<Rightarrow> result_diff \<Rightarrow> persist_failure + row_mutation option" where
  "serialize_row c q n (DiffAdd data sig) =
     (case enc_row c data of Inl m \<Rightarrow> Inl (SerializeRow q sig n m) | Inr b \<Rightarrow> Inr (Some (sig, Some b)))"
| "serialize_row c q n (DiffUpdate _ _ data _ sig) =
     (case enc_row c data of Inl m \<Rightarrow> Inl (SerializeRow q sig n m) | Inr b \<Rightarrow> Inr (Some (sig, Some b)))"
| "serialize_row c q n (DiffAggregation _ data sig) =
     (case enc_row c data of Inl m \<Rightarrow> Inl (SerializeRow q sig n m) | Inr b \<Rightarrow> Inr (Some (sig, Some b)))"
| "serialize_row c q n (DiffDelete _ sig) = Inr (Some (sig, None))"
| "serialize_row c q n DiffNoop = Inr None"

definition serialize_rows :: "'e codec \<Rightarrow> string \<Rightarrow> u64 \<Rightarrow> result_diff list \<Rightarrow> persist_failure + row_mutation list" where
  "serialize_rows c q n =
     res_foldl (\<lambda>ms diff. res_bind (serialize_row c q n diff)
       (\<lambda>m. Inr (case m of Some x \<Rightarrow> ms @ [x] | None \<Rightarrow> ms))) []"

text \<open>
  What staging returns, and later hands to the dispatch through the slot \<^verbatim>\<open>StagedOutputSequence\<close>:
  nothing without diffs or without anything durable to write to.
\<close>

definition staged_output ::
    "('s, 'e) durable_output_stores \<Rightarrow> query_output_state \<Rightarrow> string \<Rightarrow> int \<Rightarrow> string \<Rightarrow> profiling_metadata \<Rightarrow>
     result_diff list \<Rightarrow> query_result option" where
  "staged_output ds st q now source profiling diffs =
     (if diffs = [] then None
      else if ds_outbox_writer ds = None \<and> ds_live_results_writer ds = None \<and> \<not> is_persistent (ds_checkpoint_store ds) then None
      else Some (query_result_with_profiling q (sat_add (as_of_sequence st) 1) now diffs source profiling))"

definition stage_outbox ::
    "'e codec \<Rightarrow> string \<Rightarrow> nat \<Rightarrow> query_result \<Rightarrow> ('s, 'e) outbox_ops option \<Rightarrow> ('s, 'e, unit) action" where
  "stage_outbox c q capacity r writer =
     (case writer of
        None \<Rightarrow> act_return ()
      | Some w \<Rightarrow>
          (case enc_result c r of
             Inl m \<Rightarrow> act_fail (output_persist_error c (SerializeResult q (qr_sequence r) m))
           | Inr data \<Rightarrow>
               act_bind (append_and_trim w q (qr_sequence r) data
                   (sat_add (sat_sub (qr_sequence r) (of_nat capacity)) 1))
                 (\<lambda>_. act_return ())))"

definition stage_live_rows ::
    "'e codec \<Rightarrow> string \<Rightarrow> query_result \<Rightarrow> ('s, 'e) live_ops option \<Rightarrow> ('s, 'e, unit) action" where
  "stage_live_rows c q r writer =
     (case writer of
        None \<Rightarrow> act_return ()
      | Some w \<Rightarrow>
          (case serialize_rows c q (qr_sequence r) (qr_results r) of
             Inl m \<Rightarrow> act_fail (output_persist_error c m)
           | Inr ms \<Rightarrow> if ms = [] then act_return () else lr_apply_mutations w q ms))"

definition stage_durable_query_output ::
    "'e codec \<Rightarrow> ('s, 'e) durable_output_stores \<Rightarrow> query_output_state \<Rightarrow> string \<Rightarrow> int \<Rightarrow> string \<Rightarrow>
     profiling_metadata \<Rightarrow> result_diff list \<Rightarrow> ('s, 'e, query_result option) action" where
  "stage_durable_query_output c ds st q now source profiling diffs =
     (case staged_output ds st q now source profiling diffs of
        None \<Rightarrow> act_return None
      | Some r \<Rightarrow>
          act_bind (stage_outbox c q (outbox_capacity st) r (ds_outbox_writer ds))
            (\<lambda>_. act_bind (stage_live_rows c q r (ds_live_results_writer ds))
              (\<lambda>_. act_bind (stage_result_sequence (ds_checkpoint_store ds) q (qr_sequence r))
                (\<lambda>_. act_return (Some r)))))"

subsection \<open>Dispatch\<close>

definition or_else :: "'a option \<Rightarrow> 'a option \<Rightarrow> 'a option" where
  "or_else a b = (case a of Some x \<Rightarrow> Some x | None \<Rightarrow> b)"

definition default_profiling :: profiling_metadata where
  "default_profiling =
     \<lparr>source_ns = None, reactivator_start_ns = None, reactivator_end_ns = None, source_receive_ns = None,
      source_send_ns = None, query_receive_ns = None, query_core_call_ns = None, query_core_return_ns = None,
      query_send_ns = None, reaction_receive_ns = None, reaction_complete_ns = None\<rparr>"

definition overlay_post_commit_profiling :: "query_result \<Rightarrow> profiling_metadata \<Rightarrow> query_result" where
  "overlay_post_commit_profiling r p =
     (let staged = (case qr_profiling r of Some x \<Rightarrow> x | None \<Rightarrow> default_profiling)
      in r\<lparr>qr_profiling := Some (staged
        \<lparr>source_ns := or_else (source_ns staged) (source_ns p),
         reactivator_start_ns := or_else (reactivator_start_ns staged) (reactivator_start_ns p),
         reactivator_end_ns := or_else (reactivator_end_ns staged) (reactivator_end_ns p),
         source_receive_ns := or_else (source_receive_ns staged) (source_receive_ns p),
         source_send_ns := or_else (source_send_ns staged) (source_send_ns p),
         query_receive_ns := or_else (query_receive_ns staged) (query_receive_ns p),
         query_core_call_ns := or_else (query_core_call_ns staged) (query_core_call_ns p),
         query_core_return_ns := or_else (query_core_return_ns p) (query_core_return_ns staged),
         query_send_ns := or_else (query_send_ns p) (query_send_ns staged)\<rparr>)\<rparr>)"

text \<open>The result that goes to the reactions, if any, and the output state.\<close>

definition dispatch_query_results ::
    "('w row \<Rightarrow> json) \<Rightarrow> string \<Rightarrow> int \<Rightarrow> string \<Rightarrow> profiling_metadata \<Rightarrow> 'w part_context list \<Rightarrow> query_result option \<Rightarrow>
     query_output_state \<Rightarrow> query_result option \<times> query_output_state" where
  "dispatch_query_results js q now source profiling results staged st =
     (let converted = (case staged of Some r \<Rightarrow> qr_results r | None \<Rightarrow> evaluation_contexts_to_diffs js results)
      in if converted = [] then (None, st)
         else
           (case
              (case staged of
                 Some r \<Rightarrow>
                   let r' = overlay_post_commit_profiling r profiling
                   in apply_committed_sequence (qr_sequence r') converted r' st
               | None \<Rightarrow>
                   advance_sequence_and_push (query_result_with_profiling q 0 now converted source profiling)
                     (apply_diffs converted st))
            of (r, st') \<Rightarrow> (Some r, st')))"

subsection \<open>Processing events\<close>

record 'v source_event =
  ev_source :: string
  ev_sequence :: u64
  ev_position :: "bytes option"
  ev_change :: "'v source_change"

text \<open>What the processor of a query uses, and what it keeps in memory.\<close>

record ('s, 'e, 'm, 'o, 'f, 'd, 'x, 'v) processor_env =
  pr_query :: "('s, 'e, 'm, 'o, 'f, 'd, 'x, 'v) query_env"
  pr_stores :: "('s, 'e) durable_output_stores"
  pr_codec :: "'e codec"
  pr_query_id :: string
  pr_to_json :: "('f, 'd, 'x, 'v) variable_value row \<Rightarrow> json"
  pr_now :: int
  pr_profiling :: profiling_metadata
  pr_post_profiling :: profiling_metadata

record running =
  ru_output :: query_output_state
  ru_dedup :: sequence_dedup

datatype 'g event_outcome = Skipped | Drained | Failed 'g | Processed "query_result option"

definition MAX_SOURCE_POSITION_BYTES :: nat where
  "MAX_SOURCE_POSITION_BYTES = 65536"

definition checkpoint_position :: "bytes option \<Rightarrow> bytes option" where
  "checkpoint_position pos =
     (case pos of Some p \<Rightarrow> if length p \<le> MAX_SOURCE_POSITION_BYTES then Some p else None | None \<Rightarrow> None)"

definition stage_results ::
    "('s, 'e, 'm, 'o, 'f, 'd, 'x, 'v) processor_env \<Rightarrow> profiling_metadata \<Rightarrow> query_output_state \<Rightarrow> string \<Rightarrow>
     ('f, 'd, 'x, 'v) variable_value part_context list \<Rightarrow> ('s, 'e, query_result option) action" where
  "stage_results pr p st source results =
     stage_durable_query_output (pr_codec pr) (pr_stores pr) st (pr_query_id pr) (pr_now pr) source p
       (evaluation_contexts_to_diffs (pr_to_json pr) results)"

definition event_hook ::
    "('s, 'e, 'm, 'o, 'f, 'd, 'x, 'v) processor_env \<Rightarrow> query_output_state \<Rightarrow> 'v source_event \<Rightarrow>
     ('f, 'd, 'x, 'v) variable_value part_context list \<Rightarrow> ('s, 'e, unit) action" where
  "event_hook pr st ev results =
     act_bind (stage_checkpoint (ds_checkpoint_store (pr_stores pr)) (ev_source ev) (ev_sequence ev)
         (checkpoint_position (ev_position ev)))
       (\<lambda>_. act_bind (stage_results pr (pr_profiling pr) st (ev_source ev) results) (\<lambda>_. act_return ()))"

definition dispatch_results ::
    "('s, 'e, 'm, 'o, 'f, 'd, 'x, 'v) processor_env \<Rightarrow> profiling_metadata \<Rightarrow> string \<Rightarrow>
     ('f, 'd, 'x, 'v) variable_value part_context list \<Rightarrow> query_output_state \<Rightarrow> query_result option \<times> query_output_state" where
  "dispatch_results pr p source results st =
     (if results = [] then (None, st)
      else dispatch_query_results (pr_to_json pr) (pr_query_id pr) (pr_now pr) source (pr_post_profiling pr) results
        (staged_output (pr_stores pr) st (pr_query_id pr) (pr_now pr) source p
          (evaluation_contexts_to_diffs (pr_to_json pr) results)) st)"

definition process_event ::
    "('s, 'e, 'm, 'o, 'f, 'd, 'x, 'v) processor_env \<Rightarrow> 'v source_event \<Rightarrow> 's \<Rightarrow> running \<Rightarrow>
     ('e, 'm, 'o) evaluation_error event_outcome \<times> 's \<times> running" where
  "process_event pr ev s ru =
     (if should_skip (ru_dedup ru) (ev_source ev) (ev_sequence ev) then (Skipped, s, ru)
      else
        (case process_source_change_with_hook (pr_query pr) (event_hook pr (ru_output ru) ev) (ev_change ev) s of
           (Inl e, t) \<Rightarrow> (Failed e, t, ru)
         | (Inr results, t) \<Rightarrow>
             (case dispatch_results pr (pr_profiling pr) (ev_source ev) results (ru_output ru) of
                (r, st) \<Rightarrow> (Processed r, t,
                   ru\<lparr>ru_dedup := dedup_advance (ev_source ev) (ev_sequence ev) (ru_dedup ru), ru_output := st\<rparr>))))"

text \<open>One round of the loop that drains the due futures.\<close>

definition process_due_future ::
    "('s, 'e, 'm, 'o, 'f, 'd, 'x, 'v) processor_env \<Rightarrow> 's \<Rightarrow> running \<Rightarrow>
     ('e, 'm, 'o) evaluation_error event_outcome \<times> 's \<times> running" where
  "process_due_future pr s ru =
     (case process_due_futures_with_hook (pr_query pr)
         (\<lambda>results source. act_bind (stage_results pr default_profiling (ru_output ru) source results) (\<lambda>_. act_return ())) s of
        (Inl e, t) \<Rightarrow> (Failed e, t, ru)
      | (Inr None, t) \<Rightarrow> (Drained, t, ru)
      | (Inr (Some (results, source)), t) \<Rightarrow>
          (case dispatch_results pr default_profiling source results (ru_output ru) of
             (r, st) \<Rightarrow> (Processed r, t, ru\<lparr>ru_output := st\<rparr>)))"

subsection \<open>Loading the output at startup\<close>

definition load_outbox ::
    "string \<Rightarrow> nat \<Rightarrow> ('s, 'e) outbox_ops option \<Rightarrow>
     ('s, 'e durable_output_inconsistency, (u64 \<times> bytes) list \<times> u64 list) action" where
  "load_outbox q capacity writer =
     (case writer of
        None \<Rightarrow> act_return ([], [])
      | Some w \<Rightarrow>
          act_bind (act_map_err (ReadFailed ''durable outbox high-water'') (ob_read_latest_sequence w q))
            (\<lambda>latest. act_bind
              (case latest of
                 Some hwm \<Rightarrow> act_map_err (ReadFailed ''durable outbox'') (ob_read_from w q (sat_sub hwm (of_nat capacity)))
               | None \<Rightarrow> act_return [])
              (\<lambda>raw. let sequences = map fst raw
                 in act_return (raw,
                      case latest of
                        Some hwm \<Rightarrow> if next_back sequences \<noteq> Some hwm then sequences @ [hwm] else sequences
                      | None \<Rightarrow> sequences))))"

definition load_live_rows ::
    "string \<Rightarrow> ('s, 'e) live_ops option \<Rightarrow> ('s, 'e durable_output_inconsistency, (u64 \<times> bytes) list \<times> bool) action" where
  "load_live_rows q writer =
     (case writer of
        None \<Rightarrow> act_return ([], False)
      | Some w \<Rightarrow> act_bind (act_map_err (ReadFailed ''persistent live results'') (lr_read_snapshot w q))
          (\<lambda>rows. act_return (rows, True)))"

definition completed_snapshot ::
    "('s, 'e) checkpoint_ops \<Rightarrow> u64 option \<Rightarrow> u64 list \<Rightarrow> ('s, 'e durable_output_inconsistency, bool) action" where
  "completed_snapshot store stored_sequence outbox_sequences =
     (if stored_sequence = Some 0 \<and> outbox_sequences = []
      then act_bind (act_map_err (ReadFailed ''bootstrap checkpoints'') (read_all_checkpoints store))
        (\<lambda>cps. act_return (cps \<noteq> Map.empty \<and>
           (\<forall>cp \<in> ran cps. cp_sequence cp > 0 \<or> cp_source_position cp \<noteq> None)))
      else act_return False)"

definition decode_outbox ::
    "'e codec \<Rightarrow> (u64 \<times> bytes) list \<Rightarrow> 'e durable_output_inconsistency + query_result list" where
  "decode_outbox c =
     res_foldl (\<lambda>rs (n, data).
        (case dec_result c data of
           Inl m \<Rightarrow> Inl (CorruptOutbox n m)
         | Inr r \<Rightarrow> Inr (rs @ [r\<lparr>qr_sequence := n\<rparr>]))) []"

definition decode_rows ::
    "'e codec \<Rightarrow> (u64 \<times> bytes) list \<Rightarrow> 'e durable_output_inconsistency + (u64 \<rightharpoonup> json)" where
  "decode_rows c =
     res_foldl (\<lambda>rows (sig, data).
        (case dec_row c data of
           Inl m \<Rightarrow> Inl (CorruptLiveRow sig m)
         | Inr j \<Rightarrow> Inr (rows(sig \<mapsto> j)))) Map.empty"

definition load_durable_output ::
    "'e codec \<Rightarrow> ('s, 'e) durable_output_stores \<Rightarrow> string \<Rightarrow> nat \<Rightarrow>
     ('s, 'e durable_output_inconsistency, (u64 \<rightharpoonup> json) \<times> query_result list \<times> u64 \<times> u64) action" where
  "load_durable_output c ds q capacity =
     act_bind (act_map_err (ReadFailed ''persisted result sequence'') (read_result_sequence (ds_checkpoint_store ds) q))
       (\<lambda>stored_sequence.
     act_bind (act_map_err (ReadFailed ''persisted output generation'') (read_output_generation (ds_checkpoint_store ds) q))
       (\<lambda>stored_generation.
     act_bind (load_outbox q capacity (ds_outbox_writer ds))
       (\<lambda>(raw_outbox, outbox_sequences).
     act_bind (load_live_rows q (ds_live_results_writer ds))
       (\<lambda>(raw_live_rows, live_rows_readable).
     act_bind (completed_snapshot (ds_checkpoint_store ds) stored_sequence outbox_sequences)
       (\<lambda>completed.
     act_bind (act_read (\<lambda>_.
         if completed then (if \<not> live_rows_readable then Inl (MissingLiveRows 0) else Inr 0)
         else reconcile_durable_output stored_sequence outbox_sequences (length raw_live_rows) live_rows_readable))
       (\<lambda>sequence.
     act_bind (act_read (\<lambda>_. decode_outbox c raw_outbox))
       (\<lambda>entries.
     act_bind (act_read (\<lambda>_. decode_rows c raw_live_rows))
       (\<lambda>results.
     act_return (results, entries, sequence, case stored_generation of Some g \<Rightarrow> g | None \<Rightarrow> 0)))))))))"

subsection \<open>Wiping and rebuilding\<close>

datatype recovery_policy = Strict | AutoReset

datatype 'e start_error =
    StoreFailed 'e
  | ClearFailed string
  | TransientRead "'e durable_output_inconsistency"
  | RefusedUnderStrict "'e durable_output_inconsistency option"
  | NoLiveResultsWriter
  | SerializeSnapshot string

text \<open>Starting a query works on the stores and on the output state in memory.\<close>

type_synonym 's starting = "'s \<times> query_output_state"

definition on_store :: "('s, 'e, 'a) action \<Rightarrow> ('s starting, 'e, 'a) action" where
  "on_store m = (\<lambda>(s, st). case m s of (r, t) \<Rightarrow> (r, t, st))"

definition on_output :: "(query_output_state \<Rightarrow> query_output_state) \<Rightarrow> ('s starting, 'e, unit) action" where
  "on_output f = (\<lambda>(s, st). (Inr (), s, f st))"

definition output_reset_in_progress_hash :: "u64 \<Rightarrow> u64" where
  "output_reset_in_progress_hash h = NOT h"

definition persisted_output_generation :: "('s, 'e) durable_output_stores \<Rightarrow> string \<Rightarrow> ('s, 'e, u64) action" where
  "persisted_output_generation ds q =
     act_bind (read_output_generation (ds_checkpoint_store ds) q)
       (\<lambda>g. act_return (case g of Some n \<Rightarrow> n | None \<Rightarrow> 0))"

record output_generation_plan =
  plan_persisted :: u64
  plan_next :: u64

definition plan_output_generation ::
    "('s, 'e) durable_output_stores \<Rightarrow> string \<Rightarrow> ('s starting, 'e, output_generation_plan) action" where
  "plan_output_generation ds q =
     act_bind (on_store (persisted_output_generation ds q))
       (\<lambda>persisted. act_read (\<lambda>(s, st). Inr \<lparr>plan_persisted = persisted, plan_next = next_output_generation persisted (generation st)\<rparr>))"

definition optional_action :: "('w \<Rightarrow> ('s, 'e, unit) action) \<Rightarrow> 'w option \<Rightarrow> ('s, 'e, unit) action" where
  "optional_action m writer = (case writer of None \<Rightarrow> act_return () | Some w \<Rightarrow> m w)"

definition wipe_durable_output :: "('s, 'e) durable_output_stores \<Rightarrow> string \<Rightarrow> u64 \<Rightarrow> ('s, 'e, unit) action" where
  "wipe_durable_output ds q gen =
     act_bind (write_result_sequence (ds_checkpoint_store ds) q 0)
       (\<lambda>_. act_bind (write_output_generation (ds_checkpoint_store ds) q gen)
       (\<lambda>_. act_bind (optional_action (\<lambda>w. ob_clear w q) (ds_outbox_writer ds))
       (\<lambda>_. optional_action (\<lambda>w. lr_clear w q) (ds_live_results_writer ds))))"

text \<open>The four indexes of a query; clearing one that does not support it is no error.\<close>

record ('s, 'e) persistent_indexes =
  ix_session :: "('s, 'e) session_ops option"
  ix_element :: "('s, 'e, unit) action option"
  ix_archive :: "('s, 'e, unit) action option"
  ix_result :: "('s, 'e, unit) action option"
  ix_future :: "('s, 'e, unit) action option"
  ix_not_supported :: "'e \<Rightarrow> bool"

definition clear_if_supported ::
    "('e \<Rightarrow> bool) \<Rightarrow> string \<Rightarrow> ('s, 'e, unit) action option \<Rightarrow> ('s, 'e start_error, unit) action" where
  "clear_if_supported not_supported name clear s =
     (case clear of
        None \<Rightarrow> (Inr (), s)
      | Some m \<Rightarrow>
          (case m s of
             (Inr _, t) \<Rightarrow> (Inr (), t)
           | (Inl e, t) \<Rightarrow> if not_supported e then (Inr (), t) else (Inl (ClearFailed name), t)))"

definition clear_persistent_indexes :: "('s, 'e) persistent_indexes \<Rightarrow> ('s, 'e start_error, unit) action" where
  "clear_persistent_indexes ix =
     act_bind (clear_if_supported (ix_not_supported ix) ''element index'' (ix_element ix))
       (\<lambda>_. act_bind (clear_if_supported (ix_not_supported ix) ''archive index'' (ix_archive ix))
       (\<lambda>_. act_bind (clear_if_supported (ix_not_supported ix) ''result index'' (ix_result ix))
       (\<lambda>_. clear_if_supported (ix_not_supported ix) ''future queue'' (ix_future ix))))"

definition reset_checkpoints ::
    "('s, 'e) checkpoint_ops \<Rightarrow> u64 \<Rightarrow> bool \<Rightarrow> ('s, 'e start_error, unit) action" where
  "reset_checkpoints store current_hash bootstrap_pending =
     act_bind (act_map_err StoreFailed (clear_checkpoints store))
       (\<lambda>_. act_map_err StoreFailed (write_config_hash store
          (if bootstrap_pending then output_reset_in_progress_hash current_hash else current_hash)))"

text \<open>A session of its own around the indexes; a failed clear rolls it back.\<close>

definition wipe_indexes_and_checkpoints ::
    "('s, 'e) checkpoint_ops \<Rightarrow> u64 \<Rightarrow> bool \<Rightarrow> ('s, 'e) persistent_indexes \<Rightarrow> ('s, 'e start_error, unit) action" where
  "wipe_indexes_and_checkpoints store current_hash bootstrap_pending ix =
     act_bind (optional_action (\<lambda>ses. act_map_err StoreFailed (op_begin ses)) (ix_session ix))
       (\<lambda>_. act_bind
         (\<lambda>s. case clear_persistent_indexes ix s of
            (Inl e, t) \<Rightarrow> (Inl e, case ix_session ix of Some ses \<Rightarrow> session_drop ses t | None \<Rightarrow> t)
          | r \<Rightarrow> r)
       (\<lambda>_. act_bind (optional_action (\<lambda>ses. act_map_err StoreFailed (op_commit ses)) (ix_session ix))
       (\<lambda>_. reset_checkpoints store current_hash bootstrap_pending)))"

definition mark_and_wipe_output ::
    "('s, 'e) durable_output_stores \<Rightarrow> string \<Rightarrow> u64 \<Rightarrow> output_generation_plan \<Rightarrow> ('s starting, 'e start_error, unit) action" where
  "mark_and_wipe_output ds q current_hash plan =
     act_bind (on_store (act_map_err StoreFailed
         (write_config_hash (ds_checkpoint_store ds) (output_reset_in_progress_hash current_hash))))
       (\<lambda>_. act_bind (on_store (act_map_err StoreFailed (wipe_durable_output ds q (plan_next plan))))
       (\<lambda>_. on_output (reset_from_generation (plan_persisted plan))))"

definition autoreset_rebuild_after_output_inconsistency ::
    "('s, 'e) durable_output_stores \<Rightarrow> string \<Rightarrow> u64 \<Rightarrow> bool \<Rightarrow> output_generation_plan \<Rightarrow> ('s, 'e) persistent_indexes \<Rightarrow>
     ('s starting, 'e start_error, unit) action" where
  "autoreset_rebuild_after_output_inconsistency ds q current_hash bootstrap_pending plan ix =
     act_bind (mark_and_wipe_output ds q current_hash plan)
       (\<lambda>_. on_store (wipe_indexes_and_checkpoints (ds_checkpoint_store ds) current_hash bootstrap_pending ix))"

definition rebuild_output_and_indexes_in_open_session ::
    "('s, 'e) durable_output_stores \<Rightarrow> string \<Rightarrow> u64 \<Rightarrow> bool \<Rightarrow> output_generation_plan \<Rightarrow> ('s, 'e) persistent_indexes \<Rightarrow>
     ('s starting, 'e start_error, unit) action" where
  "rebuild_output_and_indexes_in_open_session ds q current_hash bootstrap_pending plan ix =
     act_bind (mark_and_wipe_output ds q current_hash plan)
       (\<lambda>_. act_bind (on_store (clear_persistent_indexes ix))
       (\<lambda>_. on_store (reset_checkpoints (ds_checkpoint_store ds) current_hash bootstrap_pending)))"

definition durable_output_is_dirty :: "('s, 'e) durable_output_stores \<Rightarrow> string \<Rightarrow> ('s, 'e, bool) action" where
  "durable_output_is_dirty ds q =
     act_bind (read_result_sequence (ds_checkpoint_store ds) q)
       (\<lambda>seq. if (case seq of Some n \<Rightarrow> n | None \<Rightarrow> 0) > 0 then act_return True
        else act_bind (persisted_output_generation ds q)
       (\<lambda>gen. if gen > 0 then act_return True
        else act_bind (case ds_outbox_writer ds of None \<Rightarrow> act_return None | Some w \<Rightarrow> ob_read_latest_sequence w q)
       (\<lambda>latest. if latest \<noteq> None then act_return True
        else act_bind (case ds_live_results_writer ds of None \<Rightarrow> act_return [] | Some w \<Rightarrow> lr_read_snapshot w q)
       (\<lambda>rows. act_return (rows \<noteq> [])))))"

subsection \<open>Starting a query\<close>

record start_config =
  sc_query_id :: string
  sc_config_hash :: u64
  sc_enable_bootstrap :: bool
  sc_policy :: recovery_policy

definition plan_and_rebuild ::
    "start_config \<Rightarrow> ('s, 'e) durable_output_stores \<Rightarrow> ('s, 'e) persistent_indexes \<Rightarrow> ('s starting, 'e start_error, bool) action" where
  "plan_and_rebuild cfg ds ix =
     act_bind (act_map_err StoreFailed (plan_output_generation ds (sc_query_id cfg)))
       (\<lambda>plan. act_bind (rebuild_output_and_indexes_in_open_session ds (sc_query_id cfg) (sc_config_hash cfg)
            (sc_enable_bootstrap cfg) plan ix)
       (\<lambda>_. act_return False))"

text \<open>
  The check of the stored configuration hash, inside the startup session: whether the stored state
  belongs to this configuration and may be resumed. The two cases of another hash, a rebuild that
  was interrupted and a changed configuration, are treated alike.
\<close>

definition check_config_hash ::
    "start_config \<Rightarrow> ('s, 'e) durable_output_stores \<Rightarrow> ('s, 'e) persistent_indexes \<Rightarrow> ('s starting, 'e start_error, bool) action" where
  "check_config_hash cfg ds ix =
     act_bind (on_store (act_map_err StoreFailed (read_result_sequence (ds_checkpoint_store ds) (sc_query_id cfg))))
       (\<lambda>boundary s0. (case on_store (read_config_hash (ds_checkpoint_store ds)) s0 of (stored, s1) \<Rightarrow>
          (if sc_enable_bootstrap cfg \<and> isl stored then (Inl (StoreFailed (projl stored)), s1)
           else if sc_enable_bootstrap cfg \<and>
             (case stored of
                Inr (Some h) \<Rightarrow> (h = sc_config_hash cfg \<and> boundary = None) \<or> h = output_reset_in_progress_hash (sc_config_hash cfg)
              | _ \<Rightarrow> False)
           then (case sc_policy cfg of
                   Strict \<Rightarrow> (Inl (RefusedUnderStrict None), s1)
                 | AutoReset \<Rightarrow> plan_and_rebuild cfg ds ix s1)
           else
             (case stored of
                Inr (Some h) \<Rightarrow> if h = sc_config_hash cfg then (Inr True, s1) else plan_and_rebuild cfg ds ix s1
              | Inl _ \<Rightarrow> plan_and_rebuild cfg ds ix s1
              | Inr None \<Rightarrow>
                  act_bind (on_store (act_map_err StoreFailed (durable_output_is_dirty ds (sc_query_id cfg))))
                    (\<lambda>dirty. if dirty then plan_and_rebuild cfg ds ix
                      else act_bind (on_store (clear_persistent_indexes ix))
                        (\<lambda>_. act_bind (on_store (act_map_err StoreFailed
                            (write_config_hash (ds_checkpoint_store ds) (sc_config_hash cfg))))
                        (\<lambda>_. act_return False))) s1))))"

text \<open>Hydration before the query accepts subscriptions. It returns whether the stored state is resumed.\<close>

definition hydrate_output ::
    "'e codec \<Rightarrow> start_config \<Rightarrow> ('s, 'e) durable_output_stores \<Rightarrow> ('s, 'e) persistent_indexes \<Rightarrow> bool \<Rightarrow>
     ('s starting, 'e start_error, bool) action" where
  "hydrate_output c cfg ds ix config_matches s0 =
     (if \<not> config_matches then act_bind (on_output mark_initialized) (\<lambda>_. act_return False) s0
      else if initialized (snd s0) then (Inr True, s0)
      else
        (case on_store (load_durable_output c ds (sc_query_id cfg) (outbox_capacity (snd s0))) s0 of
           (Inr (results, entries, sequence, gen), s1) \<Rightarrow>
             act_bind (on_output (hydrate results entries sequence gen)) (\<lambda>_. act_return True) s1
         | (Inl err, s1) \<Rightarrow>
             if is_transient_read err then (Inl (TransientRead err), s1)
             else
               (case sc_policy cfg of
                  Strict \<Rightarrow> (Inl (RefusedUnderStrict (Some err)), s1)
                | AutoReset \<Rightarrow>
                    act_bind (act_map_err StoreFailed (plan_output_generation ds (sc_query_id cfg)))
                      (\<lambda>plan. act_bind (autoreset_rebuild_after_output_inconsistency ds (sc_query_id cfg) (sc_config_hash cfg)
                         (sc_enable_bootstrap cfg) plan ix)
                      (\<lambda>_. act_return False)) s1)))"

text \<open>The checkpoints of the subscribed sources seed the filter of processed events.\<close>

definition resume_dedup :: "string set \<Rightarrow> (string \<rightharpoonup> source_checkpoint) \<Rightarrow> sequence_dedup" where
  "resume_dedup sources cps = (\<lambda>source. if source \<in> sources then map_option cp_sequence (cps source) else None)"

definition starting_session :: "('s, 'e) session_ops \<Rightarrow> ('s starting, 'e) session_ops" where
  "starting_session ses =
     \<lparr>op_begin = on_store (op_begin ses), op_commit = on_store (op_commit ses), op_rollback = on_store (op_rollback ses)\<rparr>"

definition read_resume_points ::
    "start_config \<Rightarrow> ('s, 'e) durable_output_stores \<Rightarrow> string set \<Rightarrow> ('s starting, 'e start_error, sequence_dedup) action" where
  "read_resume_points cfg ds sources s0 =
     (case on_store (read_all_checkpoints (ds_checkpoint_store ds)) s0 of
        (Inr cps, s1) \<Rightarrow> (Inr (resume_dedup sources cps), s1)
      | (Inl e, s1) \<Rightarrow> if sc_enable_bootstrap cfg then (Inl (StoreFailed e), s1) else (Inr Map.empty, s1))"

definition startup_session ::
    "start_config \<Rightarrow> ('s, 'e) durable_output_stores \<Rightarrow> ('s, 'e) persistent_indexes \<Rightarrow> string set \<Rightarrow>
     ('s starting, 'e start_error, bool \<times> sequence_dedup) action" where
  "startup_session cfg ds ix sources =
     (let body = act_bind (check_config_hash cfg ds ix)
        (\<lambda>config_matches.
           if config_matches then act_bind (read_resume_points cfg ds sources) (\<lambda>d. act_return (True, d))
           else act_return (False, Map.empty))
      in case ix_session ix of
           Some ses \<Rightarrow> session_guard StoreFailed (starting_session ses) body
         | None \<Rightarrow> body)"

text \<open>Starting a query: whether its stored state is resumed, and the filter of processed events.\<close>

definition start_query ::
    "'e codec \<Rightarrow> start_config \<Rightarrow> ('s, 'e) durable_output_stores \<Rightarrow> ('s, 'e) persistent_indexes \<Rightarrow> string set \<Rightarrow>
     ('s starting, 'e start_error, bool \<times> sequence_dedup) action" where
  "start_query c cfg ds ix sources =
     act_bind (if is_persistent (ds_checkpoint_store ds) then startup_session cfg ds ix sources else act_return (False, Map.empty))
       (\<lambda>(config_matches, d). act_bind (hydrate_output c cfg ds ix config_matches)
         (\<lambda>resumed. act_return (resumed, if resumed then d else Map.empty)))"

subsection \<open>The boundary between a bootstrap and the events after it\<close>

definition snapshot_mutations :: "'e codec \<Rightarrow> (u64 \<rightharpoonup> json) \<Rightarrow> u64 list \<Rightarrow> string + row_mutation list" where
  "snapshot_mutations c rows =
     res_foldl (\<lambda>ms sig. res_bind (enc_row c (the (rows sig))) (\<lambda>b. Inr (ms @ [(sig, Some b)]))) []"

definition persist_bootstrap_boundary ::
    "string iter \<Rightarrow> u64 iter \<Rightarrow> 'e codec \<Rightarrow> ('s, 'e) durable_output_stores \<Rightarrow> ('s, 'e) session_ops option \<Rightarrow> string \<Rightarrow> u64 \<Rightarrow>
     (string \<rightharpoonup> bytes) \<Rightarrow> query_output_state \<Rightarrow> ('s, 'e start_error, unit) action" where
  "persist_bootstrap_boundary sit rit c ds ses q config_hash positions st =
     (let store = ds_checkpoint_store ds;
          body = act_bind
            (act_foldl (\<lambda>_ source. act_map_err StoreFailed (stage_checkpoint store source 0 (positions source))) ()
              (sit (dom positions)))
            (\<lambda>_. if \<not> is_persistent store then act_return ()
              else
                (case ds_live_results_writer ds of
                   None \<Rightarrow> act_fail NoLiveResultsWriter
                 | Some w \<Rightarrow>
                     act_bind (act_map_err SerializeSnapshot (act_read (\<lambda>_. snapshot_mutations c (out_results st) (rit (dom (out_results st))))))
                       (\<lambda>ms. act_bind (act_map_err StoreFailed (lr_apply_mutations w q ms))
                         (\<lambda>_. act_map_err StoreFailed (stage_result_sequence store q 0)))))
      in act_bind (case ses of Some control \<Rightarrow> session_guard StoreFailed control body | None \<Rightarrow> body)
           (\<lambda>_. if is_persistent store then act_map_err StoreFailed (write_config_hash store config_hash) else act_return ()))"

end
