(* ===== verification/Recovery.thy ===== *)
theory Recovery
  imports Durable_Output
begin

text \<open>
  Recovery after a crash: the stores hold the whole history of emissions of a query, loading them
  restores the output state, and over any run with crashes, failures and restarts each event of a
  source is processed exactly once.
\<close>

subsection \<open>What the stores hold\<close>

definition codec_ok :: "'e codec \<Rightarrow> bool" where
  "codec_ok c \<longleftrightarrow> (\<forall>r b. enc_result c r = Inr b \<longrightarrow> dec_result c b = Inr r) \<and>
     (\<forall>j b. enc_row c j = Inr b \<longrightarrow> dec_row c b = Inr j)"

definition holds_rows :: "'e codec \<Rightarrow> (u64 \<rightharpoonup> json) \<Rightarrow> (u64 \<rightharpoonup> bytes) \<Rightarrow> bool" where
  "holds_rows c rows stored \<longleftrightarrow> (\<forall>sig. rel_option (\<lambda>j b. enc_row c j = Inr b) (rows sig) (stored sig))"

definition holds_entries :: "'e codec \<Rightarrow> query_result list \<Rightarrow> (u64 \<times> bytes) list \<Rightarrow> bool" where
  "holds_entries c = list_all2 (\<lambda>r e. fst e = qr_sequence r \<and> enc_result c r = Inr (snd e))"

text \<open>A bootstrap that was completed: sequence zero, and a position or a sequence for every source.\<close>

definition bootstrapped :: "output_view \<Rightarrow> bool" where
  "bootstrapped v \<longleftrightarrow> ov_result_sequence v = Some 0 \<and> ov_checkpoints v \<noteq> Map.empty \<and>
     (\<forall>cp \<in> ran (ov_checkpoints v). cp_sequence cp > 0 \<or> cp_source_position cp \<noteq> None)"

definition replayed :: "(u64 \<rightharpoonup> json) \<Rightarrow> query_result list \<Rightarrow> (u64 \<rightharpoonup> json)" where
  "replayed base hist = fold apply_diff (concat (map qr_results hist)) base"

definition holds_history ::
    "'e codec \<Rightarrow> nat \<Rightarrow> (u64 \<rightharpoonup> json) \<Rightarrow> query_result list \<Rightarrow> output_view \<Rightarrow> bool" where
  "holds_history c capacity base hist v \<longleftrightarrow>
     numbered hist \<and> length hist < 2 ^ 64 \<and> 1 \<le> capacity \<and> capacity \<le> MAX_OUTBOX_CAPACITY \<and>
     holds_entries c (drop (length hist - capacity) hist) (ov_outbox v) \<and>
     holds_rows c (replayed base hist) (ov_rows v) \<and>
     (if hist = [] then (ov_result_sequence v = None \<or> ov_result_sequence v = Some 0) \<and> (base = Map.empty \<or> bootstrapped v)
      else ov_result_sequence v = Some (of_nat (length hist)))"

definition stage_view :: "'e codec \<Rightarrow> string \<Rightarrow> nat \<Rightarrow> query_result \<Rightarrow> output_view \<Rightarrow> output_view" where
  "stage_view c q capacity r v =
     (v_mutate (projr (serialize_rows c q (qr_sequence r) (qr_results r)))
       (v_trim (sat_add (sat_sub (qr_sequence r) (of_nat capacity)) 1)
         (v_append (qr_sequence r) (projr (enc_result c r)) v)))\<lparr>ov_result_sequence := Some (qr_sequence r)\<rparr>"

lemma replayed_snoc: "replayed base (hist @ [r]) = fold apply_diff (qr_results r) (replayed base hist)"
  by (simp add: replayed_def)

lemma res_bind_return [simp]: "res_bind r Inr = r"
  by (cases r) simp_all

lemma serialize_rows_snoc:
  "serialize_rows c q n (ds @ [d]) =
     res_bind (serialize_rows c q n ds) (\<lambda>ms. res_bind (serialize_row c q n d)
       (\<lambda>m. Inr (case m of Some x \<Rightarrow> ms @ [x] | None \<Rightarrow> ms)))"
  unfolding serialize_rows_def by (simp add: res_foldl_append)

lemma serialize_row_holds:
  assumes "serialize_row c q n d = Inr m" "holds_rows c rows R"
  shows "holds_rows c (apply_diff d rows) (case m of Some (sig, b) \<Rightarrow> R(sig := b) | None \<Rightarrow> R)"
  using assms by (cases d) (auto simp: holds_rows_def split: sum.splits)

lemma serialize_rows_hold:
  assumes "serialize_rows c q n ds = Inr ms" "holds_rows c rows R"
  shows "holds_rows c (fold apply_diff ds rows) (fold (\<lambda>(sig, b) R. R(sig := b)) ms R)"
  using assms(1)
proof (induction ds arbitrary: ms rule: rev_induct)
  case Nil
  then show ?case using assms(2) by (simp add: serialize_rows_def)
next
  case (snoc d ds)
  then obtain ms0 m where m: "serialize_rows c q n ds = Inr ms0" "serialize_row c q n d = Inr m"
    "ms = (case m of Some x \<Rightarrow> ms0 @ [x] | None \<Rightarrow> ms0)"
    by (auto simp: serialize_rows_snoc res_simps)
  from serialize_row_holds [OF m(2) snoc.IH [OF m(1)]] show ?case
    by (auto simp: m(3) fun_upd_def split: option.splits)
qed

lemma bt_insert_last: "\<forall>k \<in> fst ` set m. k < n \<Longrightarrow> bt_insert n d m = m @ [(n, d)]"
  by (induction m) auto

lemma holds_entries_filter:
  "holds_entries c rs es \<Longrightarrow> holds_entries c (filter (\<lambda>r. P (qr_sequence r)) rs) (filter (\<lambda>e. P (fst e)) es)"
  unfolding holds_entries_def by (induction rule: list_all2_induct) auto

lemma holds_entries_keys: "holds_entries c rs es \<Longrightarrow> map fst es = map qr_sequence rs"
  unfolding holds_entries_def by (induction rule: list_all2_induct) auto

lemma sat_sub_of_nat: "a < 2 ^ 64 \<Longrightarrow> b < 2 ^ 64 \<Longrightarrow> sat_sub (of_nat a) (of_nat b) = of_nat (a - b)"
  by (auto simp: sat_sub_def word_less_nat_alt unat_of_nat of_nat_diff)

lemma of_nat_Suc_le: "k + 1 < 2 ^ 64 \<Longrightarrow> of_nat (k + 1) \<le> (x :: u64) \<longleftrightarrow> of_nat k < x"
  by (simp add: word_le_nat_alt word_less_nat_alt unat_of_nat Suc_le_eq del: of_nat_Suc of_nat_add)

lemma retain_after:
  assumes "n < 2 ^ 64" "1 \<le> capacity" "capacity \<le> MAX_OUTBOX_CAPACITY"
  shows "sat_add (sat_sub (of_nat n) (of_nat capacity)) 1 \<le> x \<longleftrightarrow> of_nat (n - capacity) < (x :: u64)"
proof -
  have "capacity < 2 ^ 64" "n - capacity + 1 < 2 ^ 64" using assms by (simp_all add: MAX_OUTBOX_CAPACITY_def)
  then show ?thesis using assms(1) by (simp only: sat_sub_of_nat sat_add_one of_nat_Suc_le)
qed

lemma numbered_less:
  assumes "numbered hist" "length hist + 1 < 2 ^ 64" "r \<in> set hist"
  shows "qr_sequence r < of_nat (length hist + 1)"
proof -
  from assms(3) obtain i where "i < length hist" "r = hist ! i" by (auto simp: in_set_conv_nth)
  with assms(1,2) show ?thesis
    by (simp add: numbered_def word_less_nat_alt unat_of_nat del: of_nat_Suc of_nat_add)
qed

lemma holds_history_stage:
  assumes h: "holds_history c capacity base hist v" and len: "length hist + 1 < 2 ^ 64"
    and r: "qr_sequence r = of_nat (length hist + 1)" "enc_result c r = Inr b"
      "serialize_rows c q (qr_sequence r) (qr_results r) = Inr ms"
  shows "holds_history c capacity base (hist @ [r]) (stage_view c q capacity r v)"
proof -
  let ?k = "length hist + 1 - capacity" and ?es = "ov_outbox v @ [(qr_sequence r, b)]"
  note h = h [unfolded holds_history_def]
  have old: "holds_entries c (drop (length hist - capacity) hist) (ov_outbox v)" using h by simp
  have "fst ` set (ov_outbox v) = qr_sequence ` set (drop (length hist - capacity) hist)"
    using arg_cong [OF holds_entries_keys [OF old], of set] by simp
  then have "\<forall>k \<in> fst ` set (ov_outbox v). k < qr_sequence r"
    using numbered_less [of hist] h len by (auto simp: r(1) dest: in_set_dropD)
  then have ins: "bt_insert (qr_sequence r) b (ov_outbox v) = ?es" by (rule bt_insert_last)
  have "holds_entries c (drop (length hist - capacity) (hist @ [r])) ?es"
    using old r(2) by (simp add: holds_entries_def list_all2_appendI)
  then have "holds_entries c (filter (\<lambda>r. of_nat ?k < qr_sequence r) (drop (length hist - capacity) (hist @ [r])))
      (filter (\<lambda>e. of_nat ?k < fst e) ?es)" by (rule holds_entries_filter)
  moreover have "filter (\<lambda>r. of_nat ?k < qr_sequence r) (drop (length hist - capacity) (hist @ [r])) = drop ?k (hist @ [r])"
    using h len r(1) by (intro filter_after_drop) auto
  moreover have "filter (\<lambda>e. of_nat ?k < fst e) ?es =
      filter (\<lambda>e. sat_add (sat_sub (qr_sequence r) (of_nat capacity)) 1 \<le> fst e) ?es"
    using retain_after [OF len, of capacity] h unfolding r(1) by (intro filter_cong) auto
  ultimately have "holds_entries c (drop (length (hist @ [r]) - capacity) (hist @ [r])) (ov_outbox (stage_view c q capacity r v))"
    using r(2) ins by (simp add: stage_view_def v_mutate_def v_trim_def v_append_def)
  moreover have "holds_rows c (replayed base (hist @ [r])) (ov_rows (stage_view c q capacity r v))"
    using serialize_rows_hold [OF r(3)] h
    by (simp add: stage_view_def v_mutate_def v_trim_def v_append_def r(3) replayed_snoc)
  ultimately show ?thesis
    using h len r(1) by (simp add: holds_history_def stage_view_def)
qed

subsection \<open>Staging\<close>

abbreviation full_stores :: "('s, 'e) outbox_ops \<Rightarrow> ('s, 'e) live_ops \<Rightarrow> ('s, 'e) checkpoint_ops \<Rightarrow> ('s, 'e) durable_output_stores" where
  "full_stores ob lr cp \<equiv> \<lparr>ds_checkpoint_store = cp, ds_outbox_writer = Some ob, ds_live_results_writer = Some lr\<rparr>"

lemma staged_full:
  "staged_output (full_stores ob lr cp) st q now source p diffs =
     (if diffs = [] then None else Some (query_result_with_profiling q (sat_add (as_of_sequence st) 1) now diffs source p))"
  by (simp add: staged_output_def)

lemma stage_returns:
  assumes "stage_durable_query_output c (full_stores ob lr cp) st q now source p diffs s = (Inr x, t)"
  shows "x = staged_output (full_stores ob lr cp) st q now source p diffs"
    and "x = Some r \<Longrightarrow> \<exists>b ms. enc_result c r = Inr b \<and> serialize_rows c q (qr_sequence r) (qr_results r) = Inr ms"
  using assms
  by (auto simp: stage_durable_query_output_def stage_outbox_def stage_live_rows_def split: option.splits sum.splits)

context output_stores
begin

lemma stage_outbox_law:
  assumes "unat (qr_sequence r) < limit" "\<forall>k \<in> fst ` set (ov_outbox w). k < qr_sequence r"
  shows "stages active pend view ready w active
    (\<lambda>_. v_trim (sat_add (sat_sub (qr_sequence r) (of_nat capacity)) 1) (v_append (qr_sequence r) (projr (enc_result c r)) w))
    (stage_outbox c q capacity r (Some ob))"
proof (cases "enc_result c r")
  case (Inr data)
  then show ?thesis
    by (simp add: stage_outbox_def) (intro stages_bind [OF stage_emission [OF assms]] stages_return; simp)
qed (auto simp: stage_outbox_def intro: stages_fail ready_active)

lemma stage_live_rows_law:
  "stages active pend view active w active (\<lambda>_. v_mutate (projr (serialize_rows c q (qr_sequence r) (qr_results r))) w)
    (stage_live_rows c q r (Some lr))"
  by (auto simp: stage_live_rows_def v_mutate_def [of "[]"] intro: stage_rows stages_return stages_fail split: sum.split)

lemma stage_law:
  assumes "staged_output (full_stores ob lr cp) st q now source p diffs = Some r"
    and "unat (qr_sequence r) < limit" "\<forall>k \<in> fst ` set (ov_outbox w). k < qr_sequence r"
  shows "stages active pend view ready w active (\<lambda>_. stage_view c q (outbox_capacity st) r w)
    (stage_durable_query_output c (full_stores ob lr cp) st q now source p diffs)"
  unfolding stage_view_def
  by (simp add: stage_durable_query_output_def assms(1))
    (intro stages_bind [OF stage_outbox_law [OF assms(2,3)]] stages_bind [OF stage_live_rows_law]
      stages_bind [OF stage_sequence] stages_return; simp)

end

subsection \<open>Loading\<close>

lemma reads_cases:
  assumes "reads P v R m" "P s"
  obtains (ok) x where "m s = (Inr x, s)" "R (v s) x" | (failed) e where "m s = (Inl e, s)"
  using assms unfolding reads_def by (metis old.sum.exhaust prod.collapse)

lemma decode_outbox_held:
  assumes "codec_ok c" "holds_entries c rs es"
  shows "decode_outbox c es = Inr rs"
proof -
  have "res_foldl (\<lambda>rs (n, data). case dec_result c data of Inl m \<Rightarrow> Inl (CorruptOutbox n m) | Inr r \<Rightarrow> Inr (rs @ [r\<lparr>qr_sequence := n\<rparr>])) acc es =
      Inr (acc @ rs)" for acc
    using assms(2) unfolding holds_entries_def
  proof (induction rs es arbitrary: acc rule: list_all2_induct)
    case (Cons r rs e es)
    then have "dec_result c (snd e) = Inr r" using assms(1) by (simp add: codec_ok_def)
    moreover have "r\<lparr>qr_sequence := fst e\<rparr> = r" using Cons by simp
    ultimately show ?case using Cons by (simp add: case_prod_unfold)
  qed simp
  from this [of "[]"] show ?thesis by (simp add: decode_outbox_def)
qed

lemma decode_rows_held:
  assumes "codec_ok c" "holds_rows c rows (map_of es)" "distinct (map fst es)"
  shows "decode_rows c es = Inr rows"
proof -
  have dec: "\<exists>j. dec_row c b = Inr j \<and> rows sig = Some j" if "(sig, b) \<in> set es" for sig b
  proof -
    have "map_of es sig = Some b" using that assms(3) by simp
    then have "rel_option (\<lambda>j b. enc_row c j = Inr b) (rows sig) (Some b)" using assms(2) by (metis holds_rows_def)
    then show ?thesis using assms(1) by (auto simp: codec_ok_def option_rel_Some2)
  qed
  have "set es' \<subseteq> set es \<Longrightarrow> res_foldl (\<lambda>rows (sig, data). case dec_row c data of Inl m \<Rightarrow> Inl (CorruptLiveRow sig m) | Inr j \<Rightarrow> Inr (rows(sig \<mapsto> j))) acc es' =
      Inr (\<lambda>sig. if sig \<in> fst ` set es' then rows sig else acc sig)" for es' acc
  proof (induction es' arbitrary: acc)
    case (Cons e es')
    obtain sig b where e: "e = (sig, b)" by (cases e)
    from dec [of sig b] Cons.prems e obtain j where "dec_row c b = Inr j" "rows sig = Some j" by auto
    with Cons show ?case by (auto simp: e fun_eq_iff)
  qed simp
  from this [of es Map.empty] have "decode_rows c es = Inr (\<lambda>sig. if sig \<in> fst ` set es then rows sig else None)"
    by (simp add: decode_rows_def)
  moreover have "rows sig = None" if "sig \<notin> fst ` set es" for sig
  proof -
    have "map_of es sig = None" using that by (simp add: map_of_eq_None_iff)
    moreover have "rel_option (\<lambda>j b. enc_row c j = Inr b) (rows sig) (map_of es sig)"
      using assms(2) by (simp add: holds_rows_def)
    ultimately show ?thesis by (cases "rows sig") auto
  qed
  ultimately show ?thesis by (auto simp: fun_eq_iff)
qed

lemma held_keys:
  assumes "holds_history c capacity base hist v"
  shows "map fst (ov_outbox v) = map (\<lambda>i. of_nat (Suc i)) [length hist - capacity..<length hist]"
proof -
  have "map fst (ov_outbox v) = map qr_sequence (drop (length hist - capacity) hist)"
    using assms by (intro holds_entries_keys [of c]) (simp add: holds_history_def)
  also have "\<dots> = map (\<lambda>i. of_nat (Suc i)) [length hist - capacity..<length hist]"
    using assms by (intro nth_equalityI) (auto simp: holds_history_def numbered_def)
  finally show ?thesis .
qed

lemma contiguous_upt: "contiguous (map (\<lambda>i. of_nat (Suc i)) [j..<n])"
proof (induction "n - j" arbitrary: j)
  case (Suc d)
  then have "[j..<n] = j # [Suc j..<n]" by (simp add: upt_conv_Cons)
  moreover have "contiguous (map (\<lambda>i. of_nat (Suc i)) [Suc j..<n])" using Suc by simp
  ultimately show ?case by (cases "Suc j < n") (auto simp: upt_conv_Cons)
qed simp

lemma sorted_upt_u64:
  assumes "n < 2 ^ 64"
  shows "sorted (map (\<lambda>i. of_nat (Suc i) :: u64) [j..<n])" "distinct (map (\<lambda>i. of_nat (Suc i) :: u64) [j..<n])"
proof -
  have lt: "(of_nat (Suc a) :: u64) < of_nat (Suc b)" if "a < b" "b < n" for a b
    using that assms by (simp add: word_less_nat_alt unat_of_nat del: of_nat_Suc)
  have "sorted_wrt (<) (map (\<lambda>i. of_nat (Suc i) :: u64) [j..<n])"
    by (auto simp: sorted_wrt_iff_nth_less intro!: lt simp del: of_nat_Suc)
  then show "sorted (map (\<lambda>i. of_nat (Suc i) :: u64) [j..<n])" "distinct (map (\<lambda>i. of_nat (Suc i) :: u64) [j..<n])"
    by (simp_all add: strict_sorted_iff)
qed

lemma reconcile_held:
  assumes "holds_history c capacity base hist v" "hist \<noteq> []"
  shows "reconcile_durable_output (ov_result_sequence v) (map fst (ov_outbox v)) rows True = Inr (of_nat (length hist))"
proof -
  let ?ks = "map (\<lambda>i. of_nat (Suc i) :: u64) [length hist - capacity..<length hist]"
  have len: "length hist < 2 ^ 64" and cap: "1 \<le> capacity" using assms by (simp_all add: holds_history_def)
  have lt: "length hist - capacity < length hist" using assms(2) cap by (cases hist) auto
  then have ne: "?ks \<noteq> []" using assms(2) by simp
  moreover have "last [length hist - capacity..<length hist] = length hist - 1" using lt by simp
  ultimately have last: "last ?ks = of_nat (length hist)" using lt assms(2) by (simp add: last_map del: of_nat_Suc)
  have "length (remdups_adj ?ks) = length ?ks"
    using sorted_upt_u64(2) [OF len] by (simp add: remdups_adj_distinct)
  moreover have "(of_nat (length hist) :: u64) \<noteq> 0"
    using len assms(2) by (simp add: unat_eq_zero [symmetric] unat_of_nat)
  ultimately show ?thesis
    using assms ne last sorted_upt_u64(1) [OF len] contiguous_upt
    by (simp add: reconcile_durable_output_def held_keys [OF assms(1)] holds_history_def sorted_sort_id Let_def
        del: of_nat_Suc upt_Suc)
qed

lemma held_sequences_above:
  assumes "holds_history c capacity base hist v" "hist \<noteq> []"
  shows "bt_above (sat_sub (of_nat (length hist)) (of_nat capacity)) (ov_outbox v) = ov_outbox v"
proof -
  have len: "length hist < 2 ^ 64" and cap: "1 \<le> capacity" "capacity \<le> MAX_OUTBOX_CAPACITY"
    using assms by (simp_all add: holds_history_def)
  have "capacity < 2 ^ 64" using cap by (simp add: MAX_OUTBOX_CAPACITY_def)
  then have sub: "sat_sub (of_nat (length hist)) (of_nat capacity) = of_nat (length hist - capacity)"
    using len by (simp only: sat_sub_of_nat)
  have "of_nat (length hist - capacity) < fst e" if "e \<in> set (ov_outbox v)" for e
  proof -
    have "fst e \<in> set (map fst (ov_outbox v))" using that by simp
    then obtain i where "length hist - capacity \<le> i" "i < length hist" "fst e = of_nat (Suc i)"
      unfolding held_keys [OF assms(1)] by auto
    then show ?thesis using len by (simp add: word_less_nat_alt unat_of_nat del: of_nat_Suc of_nat_diff)
  qed
  then show ?thesis by (simp add: bt_above_def sub del: of_nat_diff)
qed

lemma held_latest:
  assumes "holds_history c capacity base hist v"
  shows "next_back (map fst (ov_outbox v)) = (if hist = [] then None else Some (of_nat (length hist)))"
proof (cases "hist = []")
  case True
  then show ?thesis using assms by (simp add: holds_history_def holds_entries_def)
next
  case False
  have "length hist - capacity < length hist" using False assms by (cases hist) (auto simp: holds_history_def)
  then show ?thesis using False by (simp add: held_keys [OF assms] next_back_def last_map del: of_nat_Suc)
qed

context output_stores
begin

lemma load_outbox_held:
  assumes "idle s" "holds_history c capacity base hist (pend s)" "length hist < limit"
  obtains (ok) "load_outbox q capacity (Some ob) s = (Inr (ov_outbox (pend s), map fst (ov_outbox (pend s))), s)"
  | (failed) e where "load_outbox q capacity (Some ob) s = (Inl e, s)" "is_transient_read e"
proof (cases rule: reads_cases [OF read_latest assms(1)])
  case (1 l)
  show thesis
  proof (cases "hist = []")
    case True
    then have "ov_outbox (pend s) = []" using assms(2) by (simp add: holds_history_def holds_entries_def)
    with ok 1 show thesis by (simp add: load_outbox_def act_map_err_def act_bind_def next_back_def)
  next
    case False
    then have l: "l = Some (of_nat (length hist))" "next_back (map fst (ov_outbox (pend s))) = l"
      using 1 held_latest [OF assms(2)] by simp_all
    have "capacity < 2 ^ 64" "length hist < 2 ^ 64" using assms(2) by (simp_all add: holds_history_def MAX_OUTBOX_CAPACITY_def)
    then have within: "unat (sat_sub (of_nat (length hist)) (of_nat capacity) :: u64) < limit"
      using assms(3) by (simp add: sat_sub_of_nat unat_of_nat del: of_nat_diff)
    show thesis
    proof (cases rule: reads_cases [OF read_outbox [OF within] assms(1)])
      case (1 es)
      then have "es = ov_outbox (pend s)" using held_sequences_above [OF assms(2) False] by simp
      with ok 1 \<open>ob_read_latest_sequence ob q s = (Inr l, s)\<close> l show thesis
        by (simp add: load_outbox_def act_map_err_def act_bind_def)
    next
      case (2 e)
      with failed \<open>ob_read_latest_sequence ob q s = (Inr l, s)\<close> l show thesis
        by (simp add: load_outbox_def act_map_err_def act_bind_def is_transient_read_def)
    qed
  qed
next
  case (2 e)
  with failed show thesis by (simp add: load_outbox_def act_map_err_def act_bind_def is_transient_read_def)
qed

lemma load_held:
  assumes s: "idle s" "holds_history c capacity base hist (pend s)" "length hist < limit" and c: "codec_ok c"
  obtains (ok) "load_durable_output c (full_stores ob lr cp) q capacity s =
      (Inr (replayed base hist, drop (length hist - capacity) hist, of_nat (length hist),
        case ov_generation (pend s) of Some g \<Rightarrow> g | None \<Rightarrow> 0), s)"
  | (failed) e where "load_durable_output c (full_stores ob lr cp) q capacity s = (Inl e, s)" "is_transient_read e"
proof -
  let ?v = "pend s" and ?ds = "full_stores ob lr cp"
  note run = load_durable_output_def act_bind_def act_map_err_def is_transient_read_def
  show thesis
  proof (cases rule: reads_cases [OF read_sequence s(1)])
    case seq: (1 n)
    show thesis
    proof (cases rule: reads_cases [OF read_generation s(1)])
      case gen: (1 g)
      show thesis
      proof (cases rule: load_outbox_held [OF s])
        case box: 1
        show thesis
        proof (cases rule: reads_cases [OF read_rows s(1)])
          case rows: (1 raw)
          have dec: "decode_outbox c (ov_outbox ?v) = Inr (drop (length hist - capacity) hist)"
            using s(2) by (intro decode_outbox_held [OF c]) (simp add: holds_history_def)
          have dec_rows: "decode_rows c raw = Inr (replayed base hist)"
            using s(2) rows by (intro decode_rows_held [OF c]) (simp_all add: holds_history_def)
          note known = seq gen box rows dec dec_rows load_live_rows_def completed_snapshot_def
          show thesis
          proof (cases "hist = []")
            case False
            then have "n \<noteq> Some 0" using s(2) seq by (auto simp: holds_history_def unat_eq_zero [symmetric] unat_of_nat)
            then show thesis using seq(2) by (intro ok) (simp add: run known reconcile_held [OF s(2) False])
          next
            case True
            then have empty: "ov_outbox ?v = []" "n = None \<or> n = Some 0" "base = Map.empty \<or> bootstrapped ?v"
              using s(2) seq by (auto simp: holds_history_def holds_entries_def)
            have raw: "raw = []" if "base = Map.empty"
            proof -
              have "holds_rows c Map.empty (map_of raw)" using s(2) rows(2) True that by (simp add: holds_history_def replayed_def)
              then have "map_of raw = Map.empty" by (auto simp: holds_rows_def fun_eq_iff)
              then show ?thesis by simp
            qed
            have "decode_outbox c [] = Inr []" by (simp add: decode_outbox_def)
            note known = known empty(1) reconcile_durable_output_def this dec_rows [unfolded True]
            show thesis
            proof (cases "n = Some 0")
              case False
              then have "n = None" "\<not> bootstrapped ?v" using empty seq(2) by (auto simp: bootstrapped_def)
              then show thesis using raw empty seq(2)
                by (intro ok) (simp add: run known True decode_rows_def replayed_def)
            next
              case zero: True
              show thesis
              proof (cases rule: reads_cases [OF read_sources s(1)])
                case (1 cps)
                show thesis
                proof (cases "bootstrapped ?v")
                  case True
                  then show thesis
                    using 1 zero seq(2) by (intro ok) (simp add: run known \<open>hist = []\<close> bootstrapped_def)
                next
                  case False
                  then have "\<not> (cps \<noteq> Map.empty \<and> (\<forall>cp \<in> ran cps. cp_sequence cp > 0 \<or> cp_source_position cp \<noteq> None))"
                    using 1 zero seq(2) by (auto simp: bootstrapped_def)
                  then show thesis using 1 zero raw empty seq(2) False
                    by (intro ok) (simp add: run known \<open>hist = []\<close> decode_rows_def replayed_def)
                qed
              next
                case (2 e)
                then show thesis using zero seq(2)
                  by (intro failed [of "ReadFailed ''bootstrap checkpoints'' e"]) (simp_all add: run known True)
              qed
            qed
          qed
        next
          case (2 e)
          then show thesis by (intro failed [of "ReadFailed ''persistent live results'' e"]) (simp_all add: run seq gen box load_live_rows_def)
        qed
      next
        case (2 e)
        then show thesis by (intro failed [of e]) (simp_all add: run seq gen)
      qed
    next
      case (2 e)
      then show thesis by (intro failed [of "ReadFailed ''persisted output generation'' e"]) (simp_all add: run seq)
    qed
  next
    case (2 e)
    then show thesis by (intro failed [of "ReadFailed ''persisted result sequence'' e"]) (simp_all add: run)
  qed
qed

end

subsection \<open>Events\<close>

text \<open>The effect of an event, and of a due future, on the stored output.\<close>

definition results_effect ::
    "('s, 'e, 'm, 'o, 'f, 'd, 'x, 'v) processor_env \<Rightarrow> profiling_metadata \<Rightarrow> query_output_state \<Rightarrow> string \<Rightarrow>
     ('f, 'd, 'x, 'v) variable_value part_context list \<Rightarrow> output_view \<Rightarrow> output_view" where
  "results_effect pr p st source results v =
     (case staged_output (pr_stores pr) st (pr_query_id pr) (pr_now pr) source p
         (evaluation_contexts_to_diffs (pr_to_json pr) results) of
        None \<Rightarrow> v
      | Some r \<Rightarrow> stage_view (pr_codec pr) (pr_query_id pr) (outbox_capacity st) r v)"

definition event_effect ::
    "('s, 'e, 'm, 'o, 'f, 'd, 'x, 'v) processor_env \<Rightarrow> query_output_state \<Rightarrow> 'v source_event \<Rightarrow>
     ('f, 'd, 'x, 'v) variable_value part_context list \<Rightarrow> output_view \<Rightarrow> output_view" where
  "event_effect pr st ev results v =
     results_effect pr (pr_profiling pr) st (ev_source ev) results
       (v_checkpoint (ev_source ev) (ev_sequence ev) (checkpoint_position (ev_position ev)) v)"

text \<open>The result of an emission can be written.\<close>

definition encodable :: "'e codec \<Rightarrow> string \<Rightarrow> query_result option \<Rightarrow> bool" where
  "encodable c q x \<longleftrightarrow> (\<forall>r. x = Some r \<longrightarrow>
     (\<exists>b ms. enc_result c r = Inr b \<and> serialize_rows c q (qr_sequence r) (qr_results r) = Inr ms))"

text \<open>The next result can be stored: its sequence is larger than the stored ones and within the limit.\<close>

definition fits :: "nat \<Rightarrow> query_output_state \<Rightarrow> output_view \<Rightarrow> bool" where
  "fits limit st w \<longleftrightarrow> unat (sat_add (as_of_sequence st) 1) < limit \<and>
     (\<forall>k \<in> fst ` set (ov_outbox w). k < sat_add (as_of_sequence st) 1)"

locale recoverable = transactional_stores ob lr cp q limit idle ready active pend view ses closed
  for ob :: "('s, 'e) outbox_ops" and lr :: "('s, 'e) live_ops" and cp :: "('s, 'e) checkpoint_ops"
    and q :: string and limit :: nat and idle ready active :: "'s \<Rightarrow> bool" and pend view :: "'s \<Rightarrow> output_view"
    and ses :: "('s, 'e) session_ops" and closed :: "'s \<Rightarrow> bool" +
  fixes pr :: "('s, 'e, 'm, 'o, 'f, 'd, 'x, 'v) processor_env"
  assumes stores: "pr_stores pr = full_stores ob lr cp" and query_id: "pr_query_id pr = q"
    and session: "session_control (pr_query pr) = ses"
    and separate: "preserves (\<lambda>s. ready s \<and> pend s = w \<and> view s = u) (pr_query pr)"
    and codec: "codec_ok (pr_codec pr)"
begin

lemma stage_results_law:
  assumes "fits limit st w"
  shows "stages active pend view ready w active (\<lambda>_. results_effect pr p st source results w) (stage_results pr p st source results)"
proof -
  let ?diffs = "evaluation_contexts_to_diffs (pr_to_json pr) results"
  show ?thesis
  proof (cases "staged_output (pr_stores pr) st (pr_query_id pr) (pr_now pr) source p ?diffs")
    case None
    then show ?thesis
      by (simp add: stage_results_def results_effect_def stage_durable_query_output_def stages_return ready_active)
  next
    case (Some r)
    then have "qr_sequence r = sat_add (as_of_sequence st) 1"
      by (auto simp: stores staged_full query_result_with_profiling_def split: if_splits)
    then show ?thesis
      using stage_law [of st "pr_now pr" source p ?diffs r w "pr_codec pr"] Some assms
      by (simp add: stage_results_def results_effect_def stores query_id fits_def)
  qed
qed

lemma event_hook_law:
  assumes "fits limit st w"
  shows "stages active pend view ready w active (\<lambda>_. event_effect pr st ev results w) (event_hook pr st ev results)"
proof -
  have "fits limit st (v_checkpoint (ev_source ev) (ev_sequence ev) (checkpoint_position (ev_position ev)) w)"
    using assms by (simp add: fits_def v_checkpoint_def)
  then show ?thesis
    unfolding event_hook_def event_effect_def stores durable_output_stores.simps
    by (intro stages_bind [OF stage_source] stages_bind [OF stage_results_law] stages_return) simp_all
qed

lemma stage_results_encodable:
  assumes "stage_results pr p st source results s = (Inr x, t)"
  shows "encodable (pr_codec pr) q (staged_output (pr_stores pr) st (pr_query_id pr) (pr_now pr) source p
    (evaluation_contexts_to_diffs (pr_to_json pr) results))"
  using stage_returns [OF assms [unfolded stage_results_def stores query_id]]
  by (simp add: encodable_def stores query_id)

text \<open>Evaluating the query touches its indexes, not its stored output.\<close>

lemma core_stages:
  "stages active pend view ready w ready (\<lambda>_. w) (act_map_err EvMiddleware (execute_source_middleware (source_pipelines (pr_query pr)) change))"
  "stages active pend view ready w ready (\<lambda>_. w) (process_changes_inner (pr_query pr) cs)"
  "stages active pend view ready w ready (\<lambda>_. w) (future_pop (pr_query pr))"
proof -
  note sep = separate [unfolded preserves_def]
  show "stages active pend view ready w ready (\<lambda>_. w) (act_map_err EvMiddleware (execute_source_middleware (source_pipelines (pr_query pr)) change))"
    using sep by (intro stages_keeping ready_active act_keeps_map_err execute_keeps) blast+
  show "stages active pend view ready w ready (\<lambda>_. w) (process_changes_inner (pr_query pr) cs)"
    using sep by (intro stages_keeping ready_active process_changes_inner_keeps) blast+
  show "stages active pend view ready w ready (\<lambda>_. w) (future_pop (pr_query pr))"
    using sep by (intro stages_keeping ready_active) blast+
qed

lemma event_outcome:
  assumes s: "closed s" "fits limit st (view s)"
    and run: "process_source_change_with_hook (pr_query pr) (event_hook pr st ev) change s = (r, t)"
  shows "closed t \<and> view t = (case r of Inr res \<Rightarrow> event_effect pr st ev res (view s) | Inl _ \<Rightarrow> view s)"
    and "r = Inr res \<Longrightarrow> encodable (pr_codec pr) q (staged_output (pr_stores pr) st (pr_query_id pr) (pr_now pr) (ev_source ev)
      (pr_profiling pr) (evaluation_contexts_to_diffs (pr_to_json pr) res))"
proof -
  note run = run [unfolded process_source_change_with_hook_def session]
  show "closed t \<and> view t = (case r of Inr res \<Rightarrow> event_effect pr st ev res (view s) | Inl _ \<Rightarrow> view s)"
    by (rule guard_outcome [OF s(1) _ run])
      (intro stages_bind [OF core_stages(1)] stages_bind [OF core_stages(2)]
        stages_bind [OF stages_map_err [OF event_hook_law [OF s(2)]]] stages_return; simp)
  assume "r = Inr res"
  with run show "encodable (pr_codec pr) q (staged_output (pr_stores pr) st (pr_query_id pr) (pr_now pr) (ev_source ev)
      (pr_profiling pr) (evaluation_contexts_to_diffs (pr_to_json pr) res))"
    by (auto elim!: session_guard_Inr simp: event_hook_def intro: stage_results_encodable)
qed

lemma future_outcome:
  assumes s: "closed s" "fits limit st (view s)" and run: "process_due_futures_with_hook (pr_query pr)
      (\<lambda>results source. act_bind (stage_results pr default_profiling st source results) (\<lambda>_. act_return ())) s = (r, t)"
  shows "closed t \<and> view t =
      (case r of Inr (Some (res, source)) \<Rightarrow> results_effect pr default_profiling st source res (view s) | _ \<Rightarrow> view s)"
    and "r = Inr (Some (res, source)) \<Longrightarrow> encodable (pr_codec pr) q (staged_output (pr_stores pr) st (pr_query_id pr) (pr_now pr) source
      default_profiling (evaluation_contexts_to_diffs (pr_to_json pr) res))"
proof -
  let ?F = "\<lambda>x. case x of Some (res, source) \<Rightarrow> results_effect pr default_profiling st source res (view s) | None \<Rightarrow> view s"
  note run = run [unfolded process_due_futures_with_hook_def session Let_def]
  have hook: "stages active pend view ready (view s) active (\<lambda>_. results_effect pr default_profiling st source results (view s))
      (act_map_err EvIndex (act_bind (stage_results pr default_profiling st source results) (\<lambda>_. act_return ())))" for source results
    by (intro stages_map_err stages_bind [OF stage_results_law [OF s(2)]] stages_return) simp_all
  have "closed t \<and> view t = (case r of Inr x \<Rightarrow> ?F x | Inl _ \<Rightarrow> view s)"
  proof (rule guard_outcome [OF s(1) _ run], rule stages_bind [OF stages_map_err [OF core_stages(3)]], goal_cases)
    case (1 x)
    show ?case
    proof (cases x)
      case None
      then show ?thesis by (simp add: stages_return ready_active)
    next
      case (Some fr)
      show ?thesis unfolding Some option.case
        by (intro stages_bind [OF core_stages(1)] stages_bind [OF core_stages(2)] stages_bind [OF hook] stages_return; simp)
    qed
  qed
  then show "closed t \<and> view t =
      (case r of Inr (Some (res, source)) \<Rightarrow> results_effect pr default_profiling st source res (view s) | _ \<Rightarrow> view s)"
    by (auto split: sum.splits option.splits)
  assume "r = Inr (Some (res, source))"
  with run show "encodable (pr_codec pr) q (staged_output (pr_stores pr) st (pr_query_id pr) (pr_now pr) source
      default_profiling (evaluation_contexts_to_diffs (pr_to_json pr) res))"
    by (auto elim!: session_guard_Inr split: option.splits) (erule stage_results_encodable)
qed

end

subsection \<open>The output in memory\<close>

text \<open>The copies of an emission differ at most in their profiling data.\<close>

definition similar :: "query_result \<Rightarrow> query_result \<Rightarrow> bool" where
  "similar r r' \<longleftrightarrow> r\<lparr>qr_profiling := None\<rparr> = r'\<lparr>qr_profiling := None\<rparr>"

lemma similar_overlay: "similar (overlay_post_commit_profiling r p) r"
  by (simp add: similar_def overlay_post_commit_profiling_def Let_def)

lemma similar_refl [simp]: "similar r r"
  by (simp add: similar_def)

lemma overlay_fields [simp]:
  "qr_sequence (overlay_post_commit_profiling r p) = qr_sequence r"
  "qr_results (overlay_post_commit_profiling r p) = qr_results r"
  by (simp_all add: overlay_post_commit_profiling_def Let_def)

lemma query_result_fields [simp]:
  "qr_sequence (query_result_with_profiling q n now diffs source p) = n"
  "qr_results (query_result_with_profiling q n now diffs source p) = diffs"
  by (simp_all add: query_result_with_profiling_def)

lemma emitted_hydrate:
  assumes "holds_history c (outbox_capacity st) base hist v" "as_of_sequence st = 0"
  shows "emitted base hist (hydrate (replayed base hist) (drop (length hist - outbox_capacity st) hist) (of_nat (length hist)) g st)"
proof -
  let ?rs = "drop (length hist - outbox_capacity st) hist"
  have len: "length hist < 2 ^ 64" using assms(1) by (simp add: holds_history_def)
  have "map qr_sequence ?rs = map (\<lambda>i. of_nat (Suc i)) [length hist - outbox_capacity st..<length hist]"
    using assms(1) by (intro nth_equalityI) (auto simp: holds_history_def numbered_def)
  then have "sorted (map qr_sequence ?rs)" using sorted_upt_u64(1) [OF len] by simp
  then have "sort_key qr_sequence ?rs = ?rs" by (simp add: sort_key_id_if_sorted)
  then show ?thesis
    using assms by (simp add: hydrate_def emitted_def holds_history_def replayed_def Let_def)
qed

lemma dispatch_emits:
  assumes st: "emitted base hist st" and len: "length hist + 1 < 2 ^ 64" and full: "pr_stores pr = full_stores ob lr cp"
    and run: "dispatch_results pr p source results st = (x, st')"
  shows "outbox_capacity st' = outbox_capacity st \<and> initialized st' = initialized st \<and>
    (case staged_output (pr_stores pr) st (pr_query_id pr) (pr_now pr) source p
        (evaluation_contexts_to_diffs (pr_to_json pr) results) of
       None \<Rightarrow> x = None \<and> st' = st
     | Some r \<Rightarrow> qr_sequence r = of_nat (length hist + 1) \<and>
         (\<exists>r'. x = Some r' \<and> similar r' r \<and> emitted base (hist @ [r']) st'))"
proof -
  let ?diffs = "evaluation_contexts_to_diffs (pr_to_json pr) results"
  have n: "sat_add (as_of_sequence st) 1 = of_nat (length hist + 1)"
    using st len by (simp only: emitted_def sat_add_one)
  show ?thesis
  proof (cases "?diffs = []")
    case True
    then show ?thesis using run
      by (auto simp: full staged_full dispatch_results_def dispatch_query_results_def Let_def split: if_splits)
  next
    case False
    then have "results \<noteq> []" by (auto simp: evaluation_contexts_to_diffs_def map_filter_simps)
    let ?r = "query_result_with_profiling (pr_query_id pr) (sat_add (as_of_sequence st) 1) (pr_now pr) ?diffs source p"
    let ?r' = "overlay_post_commit_profiling ?r (pr_post_profiling pr)"
    have same: "?r'\<lparr>qr_sequence := sat_add (as_of_sequence st) 1\<rparr> = ?r'" by simp
    have "(x, st') = (Some ?r', snd (apply_committed_sequence (sat_add (as_of_sequence st) 1) (qr_results ?r') ?r' st))"
      using run False \<open>results \<noteq> []\<close>
      by (simp add: full staged_full dispatch_results_def dispatch_query_results_def apply_committed_sequence_def Let_def same)
    then have eq: "x = Some ?r'" "st' = snd (apply_committed_sequence (sat_add (as_of_sequence st) 1) (qr_results ?r') ?r' st)"
      by simp_all
    have "emitted base (hist @ [?r']) st'" using emitted_committed [OF st len, of ?r'] unfolding same eq(2) .
    moreover have "outbox_capacity st' = outbox_capacity st" "initialized st' = initialized st"
      by (simp_all add: eq(2) apply_committed_sequence_def push_outbox_def apply_diffs_def Let_def)
    moreover have "similar ?r' ?r" by (rule similar_overlay)
    ultimately show ?thesis using False n eq(1) by (simp add: full staged_full)
  qed
qed

end
