(* ===== verification/Query_Run.thy ===== *)
theory Query_Run
  imports Recovery
begin

text \<open>
  Runs of a persistent query: it processes events and due futures, it may fail, stop, crash at
  any moment and be started again. Sources deliver their events in order and, after a restart,
  from wherever they like as long as they leave no gap.
\<close>

subsection \<open>Runs\<close>

type_synonym 'v processed = "('v source_event option \<times> query_result option) list"

definition emissions :: "'v processed \<Rightarrow> query_result list" where
  "emissions h = List.map_filter snd h"

definition events_of :: "string \<Rightarrow> 'v processed \<Rightarrow> 'v source_event list" where
  "events_of source h = filter (\<lambda>ev. ev_source ev = source) (List.map_filter fst h)"

text \<open>An event of the log of its source, all earlier ones of which were processed.\<close>

definition in_order :: "(string \<Rightarrow> 'v source_event list) \<Rightarrow> sequence_dedup \<Rightarrow> 'v source_event \<Rightarrow> bool" where
  "in_order log d ev \<longleftrightarrow> ev \<in> set (log (ev_source ev)) \<and>
     (\<forall>ev' \<in> set (log (ev_source ev)). ev_sequence ev' < ev_sequence ev \<longrightarrow> should_skip d (ev_source ev) (ev_sequence ev'))"

text \<open>The log of a source: ever larger sequences, all after the checkpoint the run begins with.\<close>

definition checkpoint_of :: "output_view \<Rightarrow> string \<Rightarrow> u64" where
  "checkpoint_of v source = (case ov_checkpoints v source of Some cp \<Rightarrow> cp_sequence cp | None \<Rightarrow> 0)"

definition log_ok :: "string set \<Rightarrow> output_view \<Rightarrow> (string \<Rightarrow> 'v source_event list) \<Rightarrow> bool" where
  "log_ok sources v log \<longleftrightarrow> (\<forall>source \<in> sources.
     sorted_wrt (\<lambda>a b. ev_sequence a < ev_sequence b) (log source) \<and>
     (\<forall>ev \<in> set (log source). ev_source ev = source \<and> checkpoint_of v source < ev_sequence ev))"

definition after_outcome :: "'g event_outcome \<Rightarrow> sequence_dedup \<Rightarrow> sequence_dedup option" where
  "after_outcome out d = (case out of Failed _ \<Rightarrow> None | _ \<Rightarrow> Some d)"

definition processed_by :: "'v source_event option \<Rightarrow> 'g event_outcome \<Rightarrow> 'v processed" where
  "processed_by ev out = (case out of Processed r \<Rightarrow> [(ev, r)] | _ \<Rightarrow> [])"

text \<open>
  The state of a run: the backend, the output state in memory, the filter of events while the
  query is running, and what was processed so far. A failed event stops the query, a failed due
  future only ends the round; a stopped query keeps its output state, a crash loses it.
\<close>

inductive query_run ::
    "('s, 'e, 'm, 'o, 'f, 'd, 'x, 'v) processor_env \<Rightarrow> start_config \<Rightarrow> ('s, 'e) persistent_indexes \<Rightarrow> string set \<Rightarrow>
     ('s \<Rightarrow> bool) \<Rightarrow> ('s \<Rightarrow> output_view) \<Rightarrow> (string \<Rightarrow> 'v source_event list) \<Rightarrow> nat \<Rightarrow> 's \<Rightarrow>
     's \<Rightarrow> query_output_state \<Rightarrow> sequence_dedup option \<Rightarrow> 'v processed \<Rightarrow> bool"
  for pr cfg ix sources closed view log capacity s0 where
  fresh: "query_run pr cfg ix sources closed view log capacity s0 s0 (new_output_state capacity) None []"
| crash: "query_run pr cfg ix sources closed view log capacity s0 s st d h \<Longrightarrow> closed t \<Longrightarrow> view t = view s \<Longrightarrow>
    query_run pr cfg ix sources closed view log capacity s0 t (new_output_state capacity) None h"
| stop: "query_run pr cfg ix sources closed view log capacity s0 s st d h \<Longrightarrow>
    query_run pr cfg ix sources closed view log capacity s0 s st None h"
| start: "query_run pr cfg ix sources closed view log capacity s0 s st None h \<Longrightarrow>
    start_query (pr_codec pr) cfg (pr_stores pr) ix sources (s, st) = (r, t, st') \<Longrightarrow>
    query_run pr cfg ix sources closed view log capacity s0 t st' (case r of Inr (_, d) \<Rightarrow> Some d | Inl _ \<Rightarrow> None) h"
| event: "query_run pr cfg ix sources closed view log capacity s0 s st (Some d) h \<Longrightarrow>
    ev_source ev \<in> sources \<Longrightarrow> in_order log d ev \<Longrightarrow>
    process_event pr ev s \<lparr>ru_output = st, ru_dedup = d\<rparr> = (out, t, ru) \<Longrightarrow>
    query_run pr cfg ix sources closed view log capacity s0 t (ru_output ru) (after_outcome out (ru_dedup ru))
      (h @ processed_by (Some ev) out)"
| due: "query_run pr cfg ix sources closed view log capacity s0 s st (Some d) h \<Longrightarrow>
    process_due_future pr s \<lparr>ru_output = st, ru_dedup = d\<rparr> = (out, t, ru) \<Longrightarrow>
    query_run pr cfg ix sources closed view log capacity s0 t (ru_output ru) (Some (ru_dedup ru)) (h @ processed_by None out)"

subsection \<open>The invariant of a run\<close>

text \<open>The emissions of a run, as they are stored and as they are shown, up to their profiling data.\<close>

definition stores_emissions :: "'e codec \<Rightarrow> nat \<Rightarrow> (u64 \<rightharpoonup> json) \<Rightarrow> query_result list \<Rightarrow> output_view \<Rightarrow> bool" where
  "stores_emissions c capacity base ems v \<longleftrightarrow>
     (\<exists>hist. list_all2 similar ems hist \<and> holds_history c capacity base hist v)"

definition shows_emissions :: "(u64 \<rightharpoonup> json) \<Rightarrow> query_result list \<Rightarrow> query_output_state \<Rightarrow> bool" where
  "shows_emissions base ems st \<longleftrightarrow> (\<exists>hist. list_all2 similar ems hist \<and> emitted base hist st)"

definition run_inv ::
    "'e codec \<Rightarrow> nat \<Rightarrow> (u64 \<rightharpoonup> json) \<Rightarrow> string set \<Rightarrow> (string \<Rightarrow> 'v source_event list) \<Rightarrow>
     output_view \<Rightarrow> query_output_state \<Rightarrow> sequence_dedup option \<Rightarrow> 'v processed \<Rightarrow> bool" where
  "run_inv c capacity base sources log v st d h \<longleftrightarrow>
     stores_emissions c capacity base (emissions h) v \<and> outbox_capacity st = capacity \<and>
     (if initialized st then shows_emissions base (emissions h) st else as_of_sequence st = 0 \<and> d = None) \<and>
     (\<forall>source \<in> sources. events_of source h = filter (\<lambda>ev. ev_sequence ev \<le> checkpoint_of v source) (log source)) \<and>
     (\<forall>f. d = Some f \<longrightarrow> f = resume_dedup sources (ov_checkpoints v))"

lemma emissions_append: "emissions (h @ h') = emissions h @ emissions h'"
  by (induction h) (auto simp: emissions_def map_filter_simps split: option.split)

lemma emissions_snoc: "emissions (h @ [(ev, x)]) = emissions h @ (case x of Some r \<Rightarrow> [r] | None \<Rightarrow> [])"
  by (simp add: emissions_append) (simp add: emissions_def map_filter_simps split: option.split)

lemma emissions_le: "length (emissions h) \<le> length h"
  by (induction h) (auto simp: emissions_def map_filter_simps split: option.split)

lemma events_of_append: "events_of source (h @ h') = events_of source h @ events_of source h'"
  by (induction h) (auto simp: events_of_def map_filter_simps split: option.split)

lemma filter_next_event:
  assumes "sorted_wrt (\<lambda>a b. ev_sequence a < ev_sequence b) evs" "ev \<in> set evs" "n < ev_sequence ev"
    "\<forall>e \<in> set evs. ev_sequence e < ev_sequence ev \<longrightarrow> ev_sequence e \<le> n"
  shows "filter (\<lambda>e. ev_sequence e \<le> ev_sequence ev) evs = filter (\<lambda>e. ev_sequence e \<le> n) evs @ [ev]"
  using assms
proof (induction evs)
  case (Cons e evs)
  show ?case
  proof (cases "e = ev")
    case True
    then have "\<forall>x \<in> set evs. ev_sequence ev < ev_sequence x" using Cons.prems(1) by simp
    then have "filter (\<lambda>e. ev_sequence e \<le> ev_sequence ev) evs = []" "filter (\<lambda>e. ev_sequence e \<le> n) evs = []"
      using Cons.prems(3) by (auto simp: filter_empty_conv not_le)
    then show ?thesis using True Cons.prems(3) by simp
  next
    case False
    then have "ev \<in> set evs" "ev_sequence e < ev_sequence ev" using Cons.prems(1,2) by auto
    moreover have "ev_sequence e \<le> n" using Cons.prems(4) calculation(2) by simp
    ultimately show ?thesis using Cons by auto
  qed
qed simp

subsection \<open>Starting again\<close>

text \<open>
  The stored state belongs to the configuration of the query. A failed read of the hash or of the
  checkpoints is only tolerated by a query without bootstrap, which would then not resume.
\<close>

definition may_resume :: "start_config \<Rightarrow> ('s, 'e) checkpoint_ops \<Rightarrow> output_view \<Rightarrow> bool" where
  "may_resume cfg cp v \<longleftrightarrow> ov_config_hash v = Some (sc_config_hash cfg) \<and>
     (if sc_enable_bootstrap cfg then ov_result_sequence v \<noteq> None
      else \<forall>s. \<not> isl (fst (read_config_hash cp s)) \<and> \<not> isl (fst (read_all_checkpoints cp s)))"

lemma not_reset_hash: "h \<noteq> output_reset_in_progress_hash h"
proof
  assume "h = output_reset_in_progress_hash h"
  then have "bit h 0 = (\<not> bit h 0)"
    unfolding output_reset_in_progress_hash_def using bit_not_iff [of h 0] by (metis bit_imp_possible_bit possible_bit_word len_gt_0)
  then show False by simp
qed

context output_stores
begin

lemma check_held:
  assumes s: "idle s" "may_resume cfg cp (pend s)" and id: "sc_query_id cfg = q"
  obtains (ok) "check_config_hash cfg (full_stores ob lr cp) ix (s, st) = (Inr True, s, st)"
  | (failed) e where "check_config_hash cfg (full_stores ob lr cp) ix (s, st) = (Inl e, s, st)"
proof -
  note run = check_config_hash_def on_store_def act_bind_def act_map_err_def id
  show thesis
  proof (cases rule: reads_cases [OF read_sequence s(1)])
    case seq: (1 n)
    show thesis
    proof (cases rule: reads_cases [OF read_hash s(1)])
      case (1 h)
      with seq s(2) show thesis by (intro ok) (auto simp: run may_resume_def not_reset_hash)
    next
      case (2 e)
      have "sc_enable_bootstrap cfg"
      proof (rule ccontr)
        assume "\<not> sc_enable_bootstrap cfg"
        then have "\<not> isl (fst (read_config_hash cp s))" using s(2) by (simp add: may_resume_def)
        with 2 show False by simp
      qed
      with seq 2 show thesis by (intro failed [of "StoreFailed e"]) (simp add: run)
    qed
  next
    case (2 e)
    then show thesis by (intro failed [of "StoreFailed e"]) (simp add: run)
  qed
qed

lemma resume_held:
  assumes s: "idle s" "may_resume cfg cp (pend s)"
  obtains (ok) "read_resume_points cfg (full_stores ob lr cp) sources (s, st) =
      (Inr (resume_dedup sources (ov_checkpoints (pend s))), s, st)"
  | (failed) e where "read_resume_points cfg (full_stores ob lr cp) sources (s, st) = (Inl e, s, st)"
proof (cases rule: reads_cases [OF read_sources s(1)])
  case (1 cps)
  then show thesis by (intro ok) (simp add: read_resume_points_def on_store_def)
next
  case (2 e)
  have "sc_enable_bootstrap cfg"
  proof (rule ccontr)
    assume "\<not> sc_enable_bootstrap cfg"
    then have "\<not> isl (fst (read_all_checkpoints cp s))" using s(2) by (simp add: may_resume_def)
    with 2 show False by simp
  qed
  with 2 show thesis by (intro failed [of "StoreFailed e"]) (simp add: read_resume_points_def on_store_def)
qed

lemma hydrate_held:
  assumes s: "idle s" "holds_history c (outbox_capacity st) base hist (pend s)" "length hist < limit" and c: "codec_ok c"
    and id: "sc_query_id cfg = q"
  obtains (kept) "initialized st" "hydrate_output c cfg (full_stores ob lr cp) ix True (s, st) = (Inr True, s, st)"
  | (loaded) g where "\<not> initialized st" "hydrate_output c cfg (full_stores ob lr cp) ix True (s, st) =
      (Inr True, s, hydrate (replayed base hist) (drop (length hist - outbox_capacity st) hist) (of_nat (length hist)) g st)"
  | (failed) e where "hydrate_output c cfg (full_stores ob lr cp) ix True (s, st) = (Inl e, s, st)"
proof (cases "initialized st")
  case True
  then show thesis by (intro kept) (simp_all add: hydrate_output_def)
next
  case False
  note run = False hydrate_output_def on_store_def on_output_def act_bind_def id
  show thesis
  proof (cases rule: load_held [OF s c])
    case 1
    show thesis by (rule loaded [OF False]) (simp add: run 1)
  next
    case (2 e)
    then show thesis by (intro failed [of "TransientRead e"]) (simp add: run)
  qed
qed

end

context transactional_stores
begin

lemma startup_held:
  assumes s: "closed s" "may_resume cfg cp (view s)" and cfg: "sc_query_id cfg = q" "ix_session ix = Some ses"
    and run: "startup_session cfg (full_stores ob lr cp) ix sources (s, st) = (r, t, st')"
  shows "closed t \<and> view t = view s \<and> st' = st \<and>
    (\<forall>x. r = Inr x \<longrightarrow> x = (True, resume_dedup sources (ov_checkpoints (view s))))"
proof -
  let ?d = "resume_dedup sources (ov_checkpoints (view s))"
  let ?body = "act_bind (check_config_hash cfg (full_stores ob lr cp) ix)
     (\<lambda>m. if m then act_bind (read_resume_points cfg (full_stores ob lr cp) sources) (\<lambda>d. act_return (True, d))
        else act_return (False, Map.empty))"
  have body: "?body (s1, st) = (Inr (True, ?d), s1, st) \<or> (\<exists>e. ?body (s1, st) = (Inl e, s1, st))"
    if "idle s1" "pend s1 = view s" for s1
  proof -
    have m: "may_resume cfg cp (pend s1)" using s(2) that(2) by simp
    show ?thesis
    proof (cases rule: check_held [OF that(1) m cfg(1), of ix st])
      case check: 1
      show ?thesis
        by (cases rule: resume_held [OF that(1) m, of sources st]) (simp_all add: act_bind_def check that(2))
    qed (simp add: act_bind_def)
  qed
  have run: "session_guard StoreFailed (starting_session ses) ?body (s, st) = (r, t, st')"
    using run by (simp add: startup_session_def cfg Let_def)
  have begun: "idle s1 \<and> active s1 \<and> pend s1 = view s \<and> view s1 = view s \<and> st1 = st"
    if "op_begin (starting_session ses) (s, st) = (Inr u, s1, st1)" for u s1 st1
    using that begin_ok [OF s(1)] closed_idle [OF s(1)] ready_active
    by (auto simp: starting_session_def on_store_def split: prod.splits)
  show ?thesis
  proof (cases r)
    case (Inr x)
    from run [unfolded Inr] obtain s1 st1 s2 st2 u v where
      g: "op_begin (starting_session ses) (s, st) = (Inr u, s1, st1)" "?body (s1, st1) = (Inr x, s2, st2)"
        "op_commit (starting_session ses) (s2, st2) = (Inr v, t, st')"
      by (auto elim!: session_guard_Inr)
    from begun [OF g(1)] body [of s1] g(2) have "s2 = s1" "st2 = st" "x = (True, ?d)" by auto
    with begun [OF g(1)] g(3) commit_ok [of s1] show ?thesis
      by (auto simp: Inr starting_session_def on_store_def split: prod.splits)
  next
    case (Inl e)
    from run [unfolded Inl] show ?thesis
    proof (cases rule: session_guard_Inl)
      case (not_begun e)
      then show ?thesis using begin_failed [OF s(1)]
        by (auto simp: Inl starting_session_def on_store_def split: prod.splits)
    next
      case b: (body u s1 s2)
      obtain s1' st1 s2' st2 where p: "s1 = (s1', st1)" "s2 = (s2', st2)" by (cases s1, cases s2)
      note begun = begun [OF b(1) [unfolded p]]
      with body [of s1'] b(2) have "s2' = s1'" "st2 = st" by (auto simp: p)
      with begun b(3) rolled_back [of s1'] show ?thesis
        by (auto simp: Inl p starting_session_def session_drop_def on_store_def split: prod.splits)
    next
      case c: (commit u x s1 s2 e s3)
      obtain s1' st1 s2' st2 s3' st3 where p: "s1 = (s1', st1)" "s2 = (s2', st2)" "s3 = (s3', st3)"
        by (cases s1, cases s2, cases s3)
      note begun = begun [OF c(1) [unfolded p]]
      with body [of s1'] c(2) have same: "s2' = s1'" "st2 = st" by (auto simp: p)
      with c(3) have "op_commit ses s1' = (Inl e, s3')" "st3 = st"
        by (auto simp: p starting_session_def on_store_def split: prod.splits)
      with begun commit_failed [of s1' e s3'] c(5) show ?thesis
        by (auto simp: Inl p starting_session_def session_drop_def on_store_def split: prod.splits)
    qed
  qed
qed

lemma start_held:
  assumes s: "closed s" "may_resume cfg cp (view s)" and cfg: "sc_query_id cfg = q" "ix_session ix = Some ses"
    and c: "codec_ok c" "is_persistent cp" and len: "length (emissions h) < limit" and inv: "run_inv c capacity base sources log (view s) st None h"
    and run: "start_query c cfg (full_stores ob lr cp) ix sources (s, st) = (r, t, st')"
  shows "closed t \<and> view t = view s \<and>
    run_inv c capacity base sources log (view s) st' (case r of Inr (_, d) \<Rightarrow> Some d | Inl _ \<Rightarrow> None) h"
proof -
  let ?ds = "full_stores ob lr cp"
  obtain r1 s1 st1 where r1: "startup_session cfg ?ds ix sources (s, st) = (r1, s1, st1)"
    by (cases "startup_session cfg ?ds ix sources (s, st)") auto
  note up = startup_held [OF s cfg r1]
  show ?thesis
  proof (cases r1)
    case (Inl e)
    then show ?thesis using up run inv by (auto simp: start_query_def act_bind_def r1 c(2))
  next
    case (Inr x)
    let ?d = "resume_dedup sources (ov_checkpoints (view s))"
    from inv obtain hist where hist: "list_all2 similar (emissions h) hist" "holds_history c capacity base hist (view s)"
      by (auto simp: run_inv_def stores_emissions_def)
    have s1: "idle s1" "closed s1" "view s1 = view s" "pend s1 = view s" "st1 = st" "r1 = Inr (True, ?d)"
      using up closed_idle [of s1] Inr by auto
    have cap: "outbox_capacity st = capacity" using inv by (simp add: run_inv_def)
    have held: "holds_history c (outbox_capacity st) base hist (pend s1)" using hist(2) s1 cap by simp
    have len: "length hist < limit" using len list_all2_lengthD [OF hist(1)] by simp
    note run = run [unfolded start_query_def act_bind_def]
    show ?thesis
    proof (cases rule: hydrate_held [OF s1(1) held len c(1) cfg(1), of ix])
      case 1
      then show ?thesis using run inv s1 by (auto simp: r1 c(2) run_inv_def)
    next
      case (2 g)
      let ?st = "hydrate (replayed base hist) (drop (length hist - outbox_capacity st) hist) (of_nat (length hist)) g st"
      have "emitted base hist ?st"
        using inv 2(1) by (intro emitted_hydrate [OF held]) (simp add: run_inv_def)
      then have "shows_emissions base (emissions h) ?st" using hist(1) by (auto simp: shows_emissions_def)
      moreover have "st' = ?st" "t = s1" "r = Inr (True, ?d)" using run s1 2 by (auto simp: r1 c(2))
      moreover have "initialized ?st" "outbox_capacity ?st = outbox_capacity st" by (simp_all add: hydrate_def Let_def)
      ultimately show ?thesis using inv s1 by (simp add: run_inv_def)
    next
      case (3 e)
      then show ?thesis using run inv s1 by (auto simp: r1 c(2))
    qed
  qed
qed

end

subsection \<open>Steps of a running query\<close>

lemma effect_fields [simp]:
  "ov_checkpoints (results_effect pr p st source results v) = ov_checkpoints v"
  "ov_config_hash (results_effect pr p st source results v) = ov_config_hash v"
  "ov_config_hash (v_checkpoint source n pos v) = ov_config_hash v"
  "ov_result_sequence (v_checkpoint source n pos v) = ov_result_sequence v"
  "ov_checkpoints (v_checkpoint source n pos v) = (ov_checkpoints v)(source \<mapsto> \<lparr>cp_sequence = n, cp_source_position = pos\<rparr>)"
  by (simp_all add: results_effect_def stage_view_def v_mutate_def v_trim_def v_append_def v_checkpoint_def split: option.split)

lemma may_resume_effect:
  "may_resume cfg cp v \<Longrightarrow> may_resume cfg cp (results_effect pr p st source results v)"
  "may_resume cfg cp v \<Longrightarrow> may_resume cfg cp (v_checkpoint source n pos v)"
  by (auto simp: may_resume_def results_effect_def stage_view_def v_mutate_def v_trim_def v_append_def v_checkpoint_def
      split: option.splits if_splits)

lemma holds_checkpoint:
  assumes "holds_history c capacity base hist v" "0 < n"
  shows "holds_history c capacity base hist (v_checkpoint source n pos v)"
  using assms by (auto simp: holds_history_def bootstrapped_def v_checkpoint_def ran_def split: if_splits)

lemma stores_checkpoint:
  "stores_emissions c capacity base ems v \<Longrightarrow> 0 < n \<Longrightarrow> stores_emissions c capacity base ems (v_checkpoint source n pos v)"
  unfolding stores_emissions_def using holds_checkpoint by blast

lemma run_inv_running:
  assumes "run_inv c capacity base sources log v st (Some d) h"
  shows "stores_emissions c (outbox_capacity st) base (emissions h) v" "outbox_capacity st = capacity"
    "shows_emissions base (emissions h) st" "initialized st" "d = resume_dedup sources (ov_checkpoints v)"
  using assms by (auto simp: run_inv_def split: if_splits)

lemma run_inv_stop: "run_inv c capacity base sources log v st d h \<Longrightarrow> run_inv c capacity base sources log v st None h"
  by (simp add: run_inv_def split: if_splits)

context recoverable
begin

lemma results_step:
  assumes stored: "stores_emissions (pr_codec pr) (outbox_capacity st) base ems v" and shown: "shows_emissions base ems st"
    and len: "length ems + 1 < 2 ^ 64"
    and enc: "encodable (pr_codec pr) q (staged_output (pr_stores pr) st (pr_query_id pr) (pr_now pr) source p
      (evaluation_contexts_to_diffs (pr_to_json pr) results))"
    and run: "dispatch_results pr p source results st = (x, st')"
  shows "stores_emissions (pr_codec pr) (outbox_capacity st) base (ems @ (case x of Some r \<Rightarrow> [r] | None \<Rightarrow> []))
      (results_effect pr p st source results v)"
    and "shows_emissions base (ems @ (case x of Some r \<Rightarrow> [r] | None \<Rightarrow> [])) st'"
    and "outbox_capacity st' = outbox_capacity st" "initialized st' = initialized st"
proof -
  let ?staged = "staged_output (pr_stores pr) st (pr_query_id pr) (pr_now pr) source p
      (evaluation_contexts_to_diffs (pr_to_json pr) results)"
  obtain hv where hv: "list_all2 similar ems hv" "holds_history (pr_codec pr) (outbox_capacity st) base hv v"
    using stored by (auto simp: stores_emissions_def)
  obtain hm where hm: "list_all2 similar ems hm" "emitted base hm st" using shown by (auto simp: shows_emissions_def)
  have lens: "length hv = length ems" "length hm = length ems" using list_all2_lengthD [OF hv(1)] list_all2_lengthD [OF hm(1)] by simp_all
  note out = dispatch_emits [OF hm(2) _ stores run, unfolded lens, OF len]
  show "outbox_capacity st' = outbox_capacity st" "initialized st' = initialized st" using out by simp_all
  show "stores_emissions (pr_codec pr) (outbox_capacity st) base (ems @ (case x of Some r \<Rightarrow> [r] | None \<Rightarrow> []))
      (results_effect pr p st source results v)"
  proof (cases ?staged)
    case None
    then show ?thesis using out stored by (simp add: results_effect_def)
  next
    case (Some r)
    then obtain r' where r': "x = Some r'" "similar r' r" "qr_sequence r = of_nat (length hv + 1)"
      using out lens by auto
    obtain b ms where "enc_result (pr_codec pr) r = Inr b" "serialize_rows (pr_codec pr) q (qr_sequence r) (qr_results r) = Inr ms"
      using enc Some by (auto simp: encodable_def)
    then have "holds_history (pr_codec pr) (outbox_capacity st) base (hv @ [r]) (stage_view (pr_codec pr) q (outbox_capacity st) r v)"
      using len lens by (intro holds_history_stage [OF hv(2) _ r'(3)]) auto
    moreover have "list_all2 similar (ems @ [r']) (hv @ [r])" using hv(1) r'(2) by (simp add: list_all2_appendI)
    ultimately show ?thesis using Some r'(1) by (auto simp: results_effect_def stores_emissions_def query_id)
  qed
  show "shows_emissions base (ems @ (case x of Some r \<Rightarrow> [r] | None \<Rightarrow> [])) st'"
  proof (cases ?staged)
    case None
    then show ?thesis using out shown by simp
  next
    case (Some r)
    then obtain r' where "x = Some r'" "emitted base (hm @ [r']) st'" using out by auto
    moreover from this have "list_all2 similar (ems @ [r']) (hm @ [r'])" using hm(1) by (simp add: list_all2_appendI)
    ultimately show ?thesis by (auto simp: shows_emissions_def)
  qed
qed

lemma run_fits:
  assumes "stores_emissions c capacity base ems v" "shows_emissions base ems st" "length ems + 1 < limit"
  shows "fits limit st v"
proof -
  obtain hv hm where h: "list_all2 similar ems hv" "holds_history c capacity base hv v" "list_all2 similar ems hm" "emitted base hm st"
    using assms(1,2) by (auto simp: stores_emissions_def shows_emissions_def)
  have len: "length hv = length ems" "length hm = length ems" "length ems + 1 < 2 ^ 64"
    using list_all2_lengthD [OF h(1)] list_all2_lengthD [OF h(3)] assms(3) limit_u64 by simp_all
  have "as_of_sequence st = of_nat (length hm)" using h(4) by (simp add: emitted_def)
  then have n: "sat_add (as_of_sequence st) 1 = of_nat (length ems + 1)" using len by (simp only: sat_add_one)
  have entries: "holds_entries c (drop (length hv - capacity) hv) (ov_outbox v)" "numbered hv"
    using h(2) by (simp_all add: holds_history_def)
  have "fst ` set (ov_outbox v) = qr_sequence ` set (drop (length hv - capacity) hv)"
    using arg_cong [OF holds_entries_keys [OF entries(1)], of set] by simp
  then have "\<forall>k \<in> fst ` set (ov_outbox v). k < of_nat (length ems + 1)"
    using numbered_less [OF entries(2)] len by (auto dest: in_set_dropD)
  moreover have "unat (of_nat (length ems + 1) :: u64) < limit" using assms(3) len(3) by (simp add: unat_of_nat del: of_nat_add of_nat_Suc)
  ultimately show ?thesis by (simp add: fits_def n del: of_nat_add of_nat_Suc)
qed

lemma due_step:
  assumes s: "closed s" "may_resume cfg cp (view s)"
    and inv: "run_inv (pr_codec pr) capacity base sources log (view s) st (Some d) h"
    and run: "process_due_future pr s \<lparr>ru_output = st, ru_dedup = d\<rparr> = (out, t, ru)"
    and len: "length (emissions h) + 1 < limit"
  shows "closed t \<and> may_resume cfg cp (view t) \<and>
    run_inv (pr_codec pr) capacity base sources log (view t) (ru_output ru) (Some (ru_dedup ru)) (h @ processed_by None out)"
proof -
  let ?hook = "\<lambda>results source. act_bind (stage_results pr default_profiling st source results) (\<lambda>_. act_return ())"
  obtain r t' where r: "process_due_futures_with_hook (pr_query pr) ?hook s = (r, t')" by force
  note inv' = run_inv_running [OF inv]
  have len: "length (emissions h) + 1 < 2 ^ 64" and fit: "fits limit st (view s)"
    using len limit_u64 run_fits [OF inv'(1,3)] by simp_all
  note step = future_outcome [OF s(1) fit r]
  note run = run [unfolded process_due_future_def, simplified, unfolded r, simplified]
  consider (failed) e where "r = Inl e" | (drained) "r = Inr None" | (popped) results source where "r = Inr (Some (results, source))"
    by (cases r) (auto, metis option.exhaust surj_pair)
  then show ?thesis
  proof cases
    case failed
    then show ?thesis using run step(1) s inv by (auto simp: processed_by_def)
  next
    case drained
    then show ?thesis using run step(1) s inv by (auto simp: after_outcome_def processed_by_def)
  next
    case popped
    obtain x st' where x: "dispatch_results pr default_profiling source results st = (x, st')" by force
    note res = results_step [OF inv'(1,3) len step(2) [OF popped] x]
    have out: "out = Processed x" "t = t'" "ru = \<lparr>ru_output = st', ru_dedup = d\<rparr>" using run popped x by auto
    have t: "view t' = results_effect pr default_profiling st source results (view s)" "closed t'" using step(1) popped by simp_all
    have "events_of src (h @ [(None, x)]) = events_of src h" for src
      by (simp add: events_of_append) (simp add: events_of_def map_filter_simps)
    moreover have "checkpoint_of (view t') = checkpoint_of (view s)" by (simp add: t(1) checkpoint_of_def fun_eq_iff)
    moreover have "may_resume cfg cp (view t')" unfolding t(1) by (intro may_resume_effect s(2))
    ultimately show ?thesis
      using res inv inv' t by (simp add: out after_outcome_def processed_by_def run_inv_def emissions_snoc)
  qed
qed

lemma event_step:
  assumes s: "closed s" "may_resume cfg cp (view s)"
    and inv: "run_inv (pr_codec pr) capacity base sources log (view s) st (Some d) h"
    and log: "sorted_wrt (\<lambda>a b. ev_sequence a < ev_sequence b) (log (ev_source ev))"
    and ev: "ev_source ev \<in> sources" "in_order log d ev" "0 < ev_sequence ev"
    and run: "process_event pr ev s \<lparr>ru_output = st, ru_dedup = d\<rparr> = (out, t, ru)"
    and len: "length (emissions h) + 1 < limit"
  shows "closed t \<and> may_resume cfg cp (view t) \<and>
    run_inv (pr_codec pr) capacity base sources log (view t) (ru_output ru) (after_outcome out (ru_dedup ru)) (h @ processed_by (Some ev) out)"
proof (cases "should_skip d (ev_source ev) (ev_sequence ev)")
  case True
  then show ?thesis using run s inv by (auto simp: process_event_def after_outcome_def processed_by_def)
next
  case fresh: False
  obtain r t' where r: "process_source_change_with_hook (pr_query pr) (event_hook pr st ev) (ev_change ev) s = (r, t')" by force
  note inv' = run_inv_running [OF inv]
  have len: "length (emissions h) + 1 < 2 ^ 64" and fit: "fits limit st (view s)"
    using len limit_u64 run_fits [OF inv'(1,3)] by simp_all
  note step = event_outcome [OF s(1) fit r]
  note run = run [unfolded process_event_def running.simps if_not_P [OF fresh] r prod.case]
  show ?thesis
  proof (cases r)
    case (Inl e)
    then show ?thesis using run step(1) s run_inv_stop [OF inv] by (auto simp: after_outcome_def processed_by_def)
  next
    case (Inr results)
    let ?v = "v_checkpoint (ev_source ev) (ev_sequence ev) (checkpoint_position (ev_position ev)) (view s)"
    obtain x st' where x: "dispatch_results pr (pr_profiling pr) (ev_source ev) results st = (x, st')" by force
    have stored: "stores_emissions (pr_codec pr) (outbox_capacity st) base (emissions h) ?v"
      using inv'(1) ev(3) by (rule stores_checkpoint)
    have t: "view t' = results_effect pr (pr_profiling pr) st (ev_source ev) results ?v" "closed t'"
      using step(1) Inr by (simp_all add: event_effect_def)
    have out: "out = Processed x" "t = t'" "ru = \<lparr>ru_output = st', ru_dedup = dedup_advance (ev_source ev) (ev_sequence ev) d\<rparr>"
      using run Inr x fresh by auto
    have skip: "should_skip d (ev_source ev) n \<longleftrightarrow> n \<le> checkpoint_of (view s) (ev_source ev)" if "0 < n" for n
      using inv'(5) ev(1) that by (auto simp: should_skip_def resume_dedup_def checkpoint_of_def split: option.splits)
    have next_event: "filter (\<lambda>e. ev_sequence e \<le> ev_sequence ev) (log (ev_source ev)) =
        filter (\<lambda>e. ev_sequence e \<le> checkpoint_of (view s) (ev_source ev)) (log (ev_source ev)) @ [ev]"
    proof (rule filter_next_event [OF log])
      show "checkpoint_of (view s) (ev_source ev) < ev_sequence ev" using skip [OF ev(3)] fresh by simp
      show "\<forall>e \<in> set (log (ev_source ev)). ev_sequence e < ev_sequence ev \<longrightarrow> ev_sequence e \<le> checkpoint_of (view s) (ev_source ev)"
      proof (intro ballI impI)
        fix e assume e: "e \<in> set (log (ev_source ev))" "ev_sequence e < ev_sequence ev"
        show "ev_sequence e \<le> checkpoint_of (view s) (ev_source ev)"
          using e ev(2) skip [of "ev_sequence e"] by (cases "ev_sequence e = 0") (auto simp: in_order_def word_gt_0)
      qed
    qed (use ev(2) in \<open>simp add: in_order_def\<close>)
    have "dedup_advance (ev_source ev) (ev_sequence ev) d = resume_dedup sources (ov_checkpoints (view t'))"
      using fresh ev(1) by (auto simp: t(1) inv'(5) dedup_advance_def resume_dedup_def should_skip_def fun_eq_iff split: option.splits)
    moreover have "events_of source (h @ [(Some ev, x)]) = filter (\<lambda>e. ev_sequence e \<le> checkpoint_of (view t') source) (log source)"
      if "source \<in> sources" for source
    proof -
      have old: "events_of source h = filter (\<lambda>e. ev_sequence e \<le> checkpoint_of (view s) source) (log source)"
        using inv that by (simp add: run_inv_def)
      have "checkpoint_of (view t') source = (if source = ev_source ev then ev_sequence ev else checkpoint_of (view s) source)"
        by (simp add: t(1) checkpoint_of_def)
      then show ?thesis using old next_event
        by (auto simp: events_of_append) (simp_all add: events_of_def map_filter_simps)
    qed
    moreover have "may_resume cfg cp (view t')" unfolding t(1) by (intro may_resume_effect s(2))
    ultimately show ?thesis
      using results_step [OF stored inv'(3) len step(2) [OF Inr] x] inv' t
      by (simp add: out after_outcome_def processed_by_def run_inv_def emissions_snoc)
  qed
qed

lemma run_holds:
  assumes cfg: "sc_query_id cfg = q" "ix_session ix = Some ses" "is_persistent cp"
    and init: "closed s0" "may_resume cfg cp (view s0)"
      "stores_emissions (pr_codec pr) (outbox_capacity (new_output_state capacity)) base [] (view s0)"
    and log: "log_ok sources (view s0) log"
    and run: "query_run pr cfg ix sources closed view log capacity s0 s st d h" and len: "length h + 1 < limit"
  shows "closed s \<and> may_resume cfg cp (view s) \<and>
    run_inv (pr_codec pr) (outbox_capacity (new_output_state capacity)) base sources log (view s) st d h"
  using run len
proof (induction rule: query_run.induct)
  case fresh
  have "filter (\<lambda>ev. ev_sequence ev \<le> checkpoint_of (view s0) source) (log source) = []" if "source \<in> sources" for source
    using log that by (auto simp: log_ok_def filter_empty_conv not_le)
  then show ?case using init
    by (simp add: run_inv_def emissions_def events_of_def map_filter_simps new_output_state_def)
next
  case (crash s st d h t)
  then show ?case by (simp add: run_inv_def) (simp add: new_output_state_def)
next
  case (stop s st d h)
  then have "closed s \<and> may_resume cfg cp (view s) \<and>
    run_inv (pr_codec pr) (outbox_capacity (new_output_state capacity)) base sources log (view s) st d h" by simp
  then show ?case by (elim conjE) (intro conjI, assumption, assumption, erule run_inv_stop)
next
  case (start s st h r t st')
  then show ?case
    using emissions_le [of h] start_held [OF _ _ cfg(1,2) codec cfg(3), of s h "outbox_capacity (new_output_state capacity)" base sources log st r t st'] by (simp add: stores)
next
  case (event s st d h ev out t ru)
  have "ev \<in> set (log (ev_source ev))" using event.hyps(3) by (simp add: in_order_def)
  then have "checkpoint_of (view s0) (ev_source ev) < ev_sequence ev" using log event.hyps(2) unfolding log_ok_def by blast
  then have pos: "0 < ev_sequence ev" using word_gt_0 by fastforce
  have sorted: "sorted_wrt (\<lambda>a b. ev_sequence a < ev_sequence b) (log (ev_source ev))"
    using log event.hyps(2) unfolding log_ok_def by blast
  have inv: "closed s" "may_resume cfg cp (view s)"
    "run_inv (pr_codec pr) (outbox_capacity (new_output_state capacity)) base sources log (view s) st (Some d) h"
    using event.IH event.prems by simp_all
  have "length (emissions h) + 1 < limit" using emissions_le [of h] event.prems by simp
  then show ?case by (rule event_step [OF inv sorted event.hyps(2,3) pos event.hyps(4)])
next
  case (due s st d h out t ru)
  note emissions_le [of h]
  then show ?case using due due_step [of s cfg "outbox_capacity (new_output_state capacity)" base sources log st d h out t ru] by simp
qed

end

lemma filter_prefix_of_sorted:
  assumes "sorted_wrt (\<lambda>a b. ev_sequence a < ev_sequence b) evs"
  shows "\<exists>n. filter (\<lambda>e. ev_sequence e \<le> k) evs = take n evs"
  using assms
proof (induction evs)
  case (Cons e evs)
  show ?case
  proof (cases "ev_sequence e \<le> k")
    case True
    with Cons obtain n where "filter (\<lambda>e. ev_sequence e \<le> k) evs = take n evs" by auto
    then show ?thesis using True by (intro exI [of _ "Suc n"]) simp
  next
    case False
    with Cons.prems have "filter (\<lambda>e. ev_sequence e \<le> k) (e # evs) = []" by (auto simp: filter_empty_conv)
    then show ?thesis by (intro exI [of _ 0]) simp
  qed
qed simp

lemma run_exactly_once:
  assumes "recoverable ob lr cp q limit idle ready active pend view ses closed pr"
    and "sc_query_id cfg = q" "ix_session ix = Some ses" "is_persistent cp"
    and "closed s0" "may_resume cfg cp (view s0)"
      "stores_emissions (pr_codec pr) (outbox_capacity (new_output_state capacity)) base [] (view s0)"
    and "log_ok sources (view s0) log"
    and "query_run pr cfg ix sources closed view log capacity s0 s st d h" "length h + 1 < limit"
  shows "(\<forall>source \<in> sources. \<exists>n. events_of source h = take n (log source) \<and>
      take n (log source) = filter (\<lambda>ev. ev_sequence ev \<le> checkpoint_of (view s) source) (log source)) \<and>
    stores_emissions (pr_codec pr) (outbox_capacity (new_output_state capacity)) base (emissions h) (view s) \<and>
    (d \<noteq> None \<longrightarrow> shows_emissions base (emissions h) st)"
proof -
  have inv: "run_inv (pr_codec pr) (outbox_capacity (new_output_state capacity)) base sources log (view s) st d h"
    using recoverable.run_holds [OF assms] by simp
  moreover have "\<exists>n. events_of source h = take n (log source) \<and>
      take n (log source) = filter (\<lambda>ev. ev_sequence ev \<le> checkpoint_of (view s) source) (log source)"
    if "source \<in> sources" for source
  proof -
    have "events_of source h = filter (\<lambda>ev. ev_sequence ev \<le> checkpoint_of (view s) source) (log source)"
      using inv that by (simp add: run_inv_def)
    moreover have "sorted_wrt (\<lambda>a b. ev_sequence a < ev_sequence b) (log source)" using assms(8) that by (simp add: log_ok_def)
    ultimately show ?thesis using filter_prefix_of_sorted [of "log source"] by metis
  qed
  ultimately show ?thesis by (auto simp: run_inv_def split: if_splits)
qed

subsection \<open>Catching up\<close>

text \<open>The events a source delivers, one after the other, until one fails.\<close>

fun deliver ::
    "('s, 'e, 'm, 'o, 'f, 'd, 'x, 'v) processor_env \<Rightarrow> 'v source_event list \<Rightarrow> 's \<Rightarrow> running \<Rightarrow> bool \<times> 's \<times> running" where
  "deliver pr [] s ru = (True, s, ru)"
| "deliver pr (ev # evs) s ru =
     (case process_event pr ev s ru of
        (Failed _, t, ru') \<Rightarrow> (False, t, ru')
      | (_, t, ru') \<Rightarrow> deliver pr evs t ru')"

lemma skip_after_event:
  assumes "process_event pr ev s ru = (out, t, ru')" "\<forall>e. out \<noteq> Failed e"
  shows "should_skip (ru_dedup ru') (ev_source ev) (ev_sequence ev)"
    and "should_skip (ru_dedup ru) source n \<Longrightarrow> should_skip (ru_dedup ru') source n"
  using assms
  by (auto simp: process_event_def should_skip_def dedup_advance_def split: if_splits prod.splits sum.splits option.splits)

lemma deliver_runs:
  assumes run: "query_run pr cfg ix sources closed view log capacity s0 s st (Some d) h" and source: "source \<in> sources"
    and log: "log source = past @ evs" "sorted_wrt (\<lambda>a b. ev_sequence a < ev_sequence b) (log source)"
      "\<forall>ev \<in> set (log source). ev_source ev = source"
    and past: "\<forall>ev \<in> set past. should_skip d source (ev_sequence ev)"
    and all: "deliver pr evs s \<lparr>ru_output = st, ru_dedup = d\<rparr> = (True, t, ru)"
  shows "\<exists>h'. query_run pr cfg ix sources closed view log capacity s0 t (ru_output ru) (Some (ru_dedup ru)) (h @ h') \<and>
    length h' \<le> length evs \<and> (\<forall>ev \<in> set (log source). should_skip (ru_dedup ru) source (ev_sequence ev))"
  using run log(1) past all
proof (induction evs arbitrary: past s st d h)
  case Nil
  then show ?case by (intro exI [of _ "[]"]) auto
next
  case (Cons ev evs)
  let ?ru = "\<lparr>ru_output = st, ru_dedup = d\<rparr>"
  obtain out t1 ru1 where p: "process_event pr ev s ?ru = (out, t1, ru1)" by (metis prod_cases3)
  have ok: "\<forall>e. out \<noteq> Failed e" using Cons.prems(4) p by auto
  have src: "ev_source ev = source" using log(3) Cons.prems(2) by simp
  have "\<forall>e \<in> set (log source). ev_sequence e < ev_sequence ev \<longrightarrow> e \<in> set past"
    using log(2) unfolding Cons.prems(2) by (fastforce simp: sorted_wrt_append)
  then have order: "in_order log d ev" using Cons.prems(2,3) by (auto simp: in_order_def src)
  have run1: "query_run pr cfg ix sources closed view log capacity s0 t1 (ru_output ru1) (Some (ru_dedup ru1)) (h @ processed_by (Some ev) out)"
    using query_run.event [OF Cons.prems(1) _ order p] ok source src by (cases out) (auto simp: after_outcome_def)
  have past1: "\<forall>e \<in> set (past @ [ev]). should_skip (ru_dedup ru1) source (ev_sequence e)"
    using skip_after_event [OF p ok] Cons.prems(3) src by auto
  have "deliver pr evs t1 ru1 = (True, t, ru)" using Cons.prems(4) p ok by (cases out) auto
  then have rest: "deliver pr evs t1 \<lparr>ru_output = ru_output ru1, ru_dedup = ru_dedup ru1\<rparr> = (True, t, ru)" by (cases ru1) simp
  from Cons.IH [OF run1 _ past1 rest] Cons.prems(2) obtain h' where
    h': "query_run pr cfg ix sources closed view log capacity s0 t (ru_output ru) (Some (ru_dedup ru)) ((h @ processed_by (Some ev) out) @ h')"
      "length h' \<le> length evs" "\<forall>ev \<in> set (log source). should_skip (ru_dedup ru) source (ev_sequence ev)" by auto
  have "length (processed_by (Some ev) out @ h') \<le> length (ev # evs)" using h'(2) by (cases out) (auto simp: processed_by_def)
  then show ?case using h'(1,3) by (intro exI [of _ "processed_by (Some ev) out @ h'"]) simp
qed

lemma run_catches_up:
  assumes "recoverable ob lr cp q limit idle ready active pend view ses closed pr"
    and "sc_query_id cfg = q" "ix_session ix = Some ses" "is_persistent cp"
    and "closed s0" "may_resume cfg cp (view s0)"
      "stores_emissions (pr_codec pr) (outbox_capacity (new_output_state capacity)) base [] (view s0)"
    and "log_ok sources (view s0) log"
    and "query_run pr cfg ix sources closed view log capacity s0 s st (Some d) h"
    and "source \<in> sources" "length h + length (log source) + 1 < limit"
    and "deliver pr (log source) s \<lparr>ru_output = st, ru_dedup = d\<rparr> = (True, t, ru)"
  shows "\<exists>h'. query_run pr cfg ix sources closed view log capacity s0 t (ru_output ru) (Some (ru_dedup ru)) (h @ h') \<and>
    events_of source (h @ h') = log source"
proof -
  from assms(8,10) have log: "sorted_wrt (\<lambda>a b. ev_sequence a < ev_sequence b) (log source)"
    "\<forall>ev \<in> set (log source). ev_source ev = source" by (auto simp: log_ok_def)
  from deliver_runs [OF assms(9,10) _ log _ assms(12), of "[]"] obtain h' where
    h': "query_run pr cfg ix sources closed view log capacity s0 t (ru_output ru) (Some (ru_dedup ru)) (h @ h')"
      "length h' \<le> length (log source)" "\<forall>ev \<in> set (log source). should_skip (ru_dedup ru) source (ev_sequence ev)" by auto
  have "run_inv (pr_codec pr) (outbox_capacity (new_output_state capacity)) base sources log (view t) (ru_output ru) (Some (ru_dedup ru)) (h @ h')"
    using recoverable.run_holds [OF assms(1-8) h'(1)] assms(11) h'(2) by simp
  then have "events_of source (h @ h') = filter (\<lambda>ev. ev_sequence ev \<le> checkpoint_of (view t) source) (log source)"
    "ru_dedup ru = resume_dedup sources (ov_checkpoints (view t))" using assms(10) by (simp_all add: run_inv_def)
  moreover from this have "\<forall>ev \<in> set (log source). ev_sequence ev \<le> checkpoint_of (view t) source"
    using h'(3) assms(10) by (auto simp: should_skip_def resume_dedup_def checkpoint_of_def split: option.splits)
  ultimately show ?thesis using h'(1) by (auto simp: filter_id_conv)
qed

end
