(* ===== verification/Garnet_Output.thy ===== *)
theory Garnet_Output
  imports Query_Run Garnet_Session "HOL-Library.Multiset"
begin

text \<open>
  The stores of the Garnet backend: the outbox, the live results and the checkpoints of
  \<^verbatim>\<open>src/components/indexes/garnet/src/outbox.rs\<close>, \<^verbatim>\<open>live_results.rs\<close> and \<^verbatim>\<open>checkpoint.rs\<close>,
  on the session of \<open>Garnet_Session\<close>. They provide what \<open>transactional_stores\<close> asks for.

  The conversion of a sequence to a score (\<open>as f64\<close>) is an argument; the results need it to be
  strictly increasing below \<open>2\<^sup>53\<close>, where doubles are exact. The JSON of the list of sources
  (crate \<^verbatim>\<open>serde_json\<close>) is an argument with its round trip.
\<close>

subsection \<open>Decimal numbers\<close>

definition digit_char :: "nat \<Rightarrow> char" where
  "digit_char d = char_of (48 + d)"

fun nat_text :: "nat \<Rightarrow> string" where
  "nat_text n = (if n < 10 then [digit_char n] else nat_text (n div 10) @ [digit_char (n mod 10)])"

definition u64_text :: "u64 \<Rightarrow> string" where
  "u64_text n = nat_text (unat n)"

definition digit_value :: "char \<Rightarrow> nat option" where
  "digit_value c = (let n = of_char c in if 48 \<le> n \<and> n \<le> 57 then Some (n - 48) else None)"

fun parse_digits :: "nat \<Rightarrow> string \<Rightarrow> nat option" where
  "parse_digits acc [] = Some acc"
| "parse_digits acc (c # cs) = (case digit_value c of Some d \<Rightarrow> parse_digits (10 * acc + d) cs | None \<Rightarrow> None)"

definition parse_u64 :: "string \<Rightarrow> u64 option" where
  "parse_u64 text =
     (let ds = (case text of c # cs \<Rightarrow> if c = CHR ''+'' then cs else text | [] \<Rightarrow> [])
      in if ds = [] then None
         else (case parse_digits 0 ds of
                 Some n \<Rightarrow> if n < 2 ^ 64 then Some (of_nat n) else None
               | None \<Rightarrow> None))"

definition text_bytes :: "string \<Rightarrow> bytes" where
  "text_bytes = map (\<lambda>c. of_nat (of_char c))"

definition bytes_text :: "bytes \<Rightarrow> string" where
  "bytes_text = map (\<lambda>w. char_of (unat w))"

subsection \<open>The stores of a query\<close>

record ('r, 'e, 'f) garnet_store =
  gs_query_id :: string
  gs_server :: "('r, 'e, 'f) redis_ops"
  gs_attached :: bool
  gs_iters :: buffer_iters
  gs_score :: "u64 \<Rightarrow> 'f"
  gs_enc_sources :: "string list \<Rightarrow> bytes"
  gs_dec_sources :: "bytes \<Rightarrow> string list option"

definition outbox_key :: "('r, 'e, 'f) garnet_store \<Rightarrow> string" where
  "outbox_key g = ''outbox:{'' @ gs_query_id g @ ''}''"

definition data_key :: "('r, 'e, 'f) garnet_store \<Rightarrow> string" where
  "data_key g = ''outbox_data:{'' @ gs_query_id g @ ''}''"

definition live_key :: "('r, 'e, 'f) garnet_store \<Rightarrow> string" where
  "live_key g = ''live:{'' @ gs_query_id g @ ''}''"

definition seq_key :: "('r, 'e, 'f) garnet_store \<Rightarrow> string \<Rightarrow> string" where
  "seq_key g source = ''ss:{'' @ gs_query_id g @ ''}:seq:'' @ source"

definition pos_key :: "('r, 'e, 'f) garnet_store \<Rightarrow> string \<Rightarrow> string" where
  "pos_key g source = ''ss:{'' @ gs_query_id g @ ''}:pos:'' @ source"

definition sources_key :: "('r, 'e, 'f) garnet_store \<Rightarrow> string" where
  "sources_key g = ''ss:{'' @ gs_query_id g @ ''}:sources''"

definition config_hash_key :: "('r, 'e, 'f) garnet_store \<Rightarrow> string" where
  "config_hash_key g = ''ss:{'' @ gs_query_id g @ ''}:config_hash''"

definition result_sequence_key :: "('r, 'e, 'f) garnet_store \<Rightarrow> string" where
  "result_sequence_key g = ''ss:{'' @ gs_query_id g @ ''}:result_seq''"

definition output_generation_key :: "('r, 'e, 'f) garnet_store \<Rightarrow> string" where
  "output_generation_key g = ''ss:{'' @ gs_query_id g @ ''}:output_gen''"

text \<open>Commands sent outside a session: one, or several, of which the first error is reported.\<close>

definition send :: "('r, 'e, 'f) redis_ops \<Rightarrow> 'f redis_command \<Rightarrow> (('r, 'f) garnet_state, 'e garnet_error, unit) action" where
  "send ops c s =
     (case redis_pipeline ops [c] (redis s) of
        (Inl e, r) \<Rightarrow> (Inl (RedisError e), s\<lparr>redis := r\<rparr>)
      | (Inr _, r) \<Rightarrow> (Inr (), s\<lparr>redis := r\<rparr>))"

fun send_each :: "('r, 'e, 'f) redis_ops \<Rightarrow> 'f redis_command list \<Rightarrow> (('r, 'f) garnet_state, 'e garnet_error, unit) action" where
  "send_each ops [] s = (Inr (), s)"
| "send_each ops (c # cs) s =
     (case send ops c s of (r, s1) \<Rightarrow>
        (case send_each ops cs s1 of (r', s2) \<Rightarrow> (case r of Inl e \<Rightarrow> Inl e | Inr _ \<Rightarrow> r', s2)))"

text \<open>The members of a sorted set, by score and then by name.\<close>

definition zrange :: "(bytes \<rightharpoonup> 'f::linorder) \<Rightarrow> bytes list" where
  "zrange Z = sort_key (\<lambda>m. the (Z m)) (sorted_list_of_set (dom Z))"

definition parse_member :: "bytes \<Rightarrow> (('r, 'f) garnet_state, 'e garnet_error, u64) action" where
  "parse_member m = (case parse_u64 (bytes_text m) of Some n \<Rightarrow> act_return n | None \<Rightarrow> act_fail Malformed)"

subsection \<open>The outbox\<close>

definition garnet_append ::
    "('r, 'e, 'f::linorder) garnet_store \<Rightarrow> string \<Rightarrow> u64 \<Rightarrow> bytes \<Rightarrow> (('r, 'f) garnet_state, 'e garnet_error, unit) action" where
  "garnet_append g q n data =
     (let seq_str = u64_text n
      in if gs_attached g
         then buffer_write (\<lambda>b. hash_set (data_key g) seq_str data (zset_add (outbox_key g) (text_bytes seq_str) (gs_score g n) b))
         else act_bind (send (gs_server g) (ZADD (outbox_key g) [(gs_score g n, text_bytes seq_str)]))
                (\<lambda>_. send (gs_server g) (HSET (data_key g) [(seq_str, data)])))"

definition garnet_read_from ::
    "('r, 'e, 'f::linorder) garnet_store \<Rightarrow> string \<Rightarrow> u64 \<Rightarrow> (('r, 'f) garnet_state, 'e garnet_error, (u64 \<times> bytes) list) action" where
  "garnet_read_from g q after_sequence =
     act_bind (redis_read (gs_server g) (\<lambda>db. let Z = v_zset (db (outbox_key g))
         in filter (\<lambda>m. gs_score g after_sequence < the (Z m)) (zrange Z)))
       (act_foldl (\<lambda>entries m. act_bind (parse_member m)
          (\<lambda>n. act_bind (redis_read (gs_server g) (\<lambda>db. v_hash (db (data_key g)) (bytes_text m)))
            (\<lambda>d. act_return (case d of Some x \<Rightarrow> entries @ [(n, x)] | None \<Rightarrow> entries)))) [])"

definition garnet_read_latest_sequence ::
    "('r, 'e, 'f::linorder) garnet_store \<Rightarrow> string \<Rightarrow> (('r, 'f) garnet_state, 'e garnet_error, u64 option) action" where
  "garnet_read_latest_sequence g q =
     act_bind (redis_read (gs_server g) (\<lambda>db. next_back (zrange (v_zset (db (outbox_key g))))))
       (\<lambda>r. case r of None \<Rightarrow> act_return None | Some m \<Rightarrow> act_bind (parse_member m) (\<lambda>n. act_return (Some n)))"

definition garnet_outbox_clear ::
    "('r, 'e, 'f::linorder) garnet_store \<Rightarrow> string \<Rightarrow> (('r, 'f) garnet_state, 'e garnet_error, unit) action" where
  "garnet_outbox_clear g q =
     act_bind (send (gs_server g) (DEL (outbox_key g))) (\<lambda>_. send (gs_server g) (DEL (data_key g)))"

definition remove_sequences ::
    "('r, 'e, 'f::linorder) garnet_store \<Rightarrow> string list \<Rightarrow> (('r, 'f) garnet_state, 'e garnet_error, unit) action" where
  "remove_sequences g sequences =
     (if sequences = [] then act_return ()
      else act_bind
        (if gs_attached g
         then with_active_buffer (\<lambda>b. ((), fold (\<lambda>seq_str b.
                hash_del (data_key g) seq_str (zset_remove (outbox_key g) (text_bytes seq_str) b)) sequences b))
         else act_return None)
        (\<lambda>r. case r of
           Some _ \<Rightarrow> act_return ()
         | None \<Rightarrow> send_each (gs_server g) [ZREM (outbox_key g) (map text_bytes sequences), HDEL (data_key g) sequences]))"

definition committed_sequences ::
    "('r, 'e, 'f::linorder) garnet_store \<Rightarrow> (('r, 'f) garnet_state, 'e garnet_error, u64 list) action" where
  "committed_sequences g =
     act_bind (redis_read (gs_server g) (\<lambda>db. zrange (v_zset (db (outbox_key g)))))
       (act_foldl (\<lambda>ns m. act_bind (parse_member m) (\<lambda>n. act_return (ns @ [n]))) [])"

definition buffer_overlay ::
    "('r, 'e, 'f::linorder) garnet_store \<Rightarrow> (('r, 'f) garnet_state, 'e garnet_error, 'f sorted_set_deltas option) action" where
  "buffer_overlay g =
     (if gs_attached g
      then act_bind (with_active_buffer (\<lambda>b.
          (case zset_get_deltas b (outbox_key g) of
             Found deltas \<Rightarrow> Some deltas
           | KeyDeleted \<Rightarrow> Some \<lparr>zdeltas_added = Map.empty, zdeltas_removed = {}, zdeltas_full_replace = True\<rparr>
           | NotInBuffer \<Rightarrow> None, b)))
        (\<lambda>r. act_return (Option.bind r (\<lambda>x. x)))
      else act_return None)"

definition parse_seq :: "bytes \<Rightarrow> u64 option" where
  "parse_seq m = parse_u64 (bytes_text m)"

definition merge_sequences :: "u64 list \<Rightarrow> 'f sorted_set_deltas option \<Rightarrow> u64 list" where
  "merge_sequences committed buffered =
     (let S = (case buffered of
                 Some deltas \<Rightarrow> if zdeltas_full_replace deltas then {} else set committed
               | None \<Rightarrow> set committed)
      in sorted_list_of_set
        (case buffered of
           Some deltas \<Rightarrow>
             (S - Option.these (parse_seq ` zdeltas_removed deltas)) \<union> Option.these (parse_seq ` dom (zdeltas_added deltas))
         | None \<Rightarrow> S))"

definition garnet_trim_before ::
    "('r, 'e, 'f::linorder) garnet_store \<Rightarrow> string \<Rightarrow> u64 \<Rightarrow> (('r, 'f) garnet_state, 'e garnet_error, nat) action" where
  "garnet_trim_before g q retain_from =
     act_bind (committed_sequences g)
       (\<lambda>committed. act_bind (buffer_overlay g)
         (\<lambda>buffered. let sequences_to_remove = map u64_text (filter (\<lambda>n. n < retain_from) (merge_sequences committed buffered))
            in act_bind (remove_sequences g sequences_to_remove) (\<lambda>_. act_return (length sequences_to_remove))))"

definition garnet_trim_to_capacity ::
    "('r, 'e, 'f::linorder) garnet_store \<Rightarrow> string \<Rightarrow> nat \<Rightarrow> (('r, 'f) garnet_state, 'e garnet_error, nat) action" where
  "garnet_trim_to_capacity g q capacity =
     act_bind (committed_sequences g)
       (\<lambda>committed. act_bind (buffer_overlay g)
         (\<lambda>buffered. let effective = merge_sequences committed buffered
            in if length effective \<le> capacity then act_return 0
               else let to_remove = length effective - capacity
                 in act_bind (remove_sequences g (map u64_text (take to_remove effective))) (\<lambda>_. act_return to_remove)))"

definition garnet_outbox_writer ::
    "('r, 'e, 'f::linorder) garnet_store \<Rightarrow> (('r, 'f) garnet_state, 'e garnet_error) outbox_ops" where
  "garnet_outbox_writer g =
     \<lparr>ob_append = garnet_append g, ob_read_from = garnet_read_from g,
      ob_read_latest_sequence = garnet_read_latest_sequence g, ob_clear = garnet_outbox_clear g,
      ob_trim_before = garnet_trim_before g, ob_trim_to_capacity = garnet_trim_to_capacity g\<rparr>"

subsection \<open>The live results\<close>

definition garnet_apply_mutations ::
    "('r, 'e, 'f::linorder) garnet_store \<Rightarrow> string \<Rightarrow> row_mutation list \<Rightarrow> (('r, 'f) garnet_state, 'e garnet_error, unit) action" where
  "garnet_apply_mutations g q mutations =
     (if gs_attached g
      then buffer_write (fold (\<lambda>(sig, data) b.
             (case data of
                Some d \<Rightarrow> hash_set (live_key g) (u64_text sig) d b
              | None \<Rightarrow> hash_del (live_key g) (u64_text sig) b)) mutations)
      else send_each (gs_server g) (map (\<lambda>(sig, data).
             (case data of
                Some d \<Rightarrow> HSET (live_key g) [(u64_text sig, d)]
              | None \<Rightarrow> HDEL (live_key g) [u64_text sig])) mutations))"

definition garnet_read_snapshot ::
    "('r, 'e, 'f::linorder) garnet_store \<Rightarrow> string \<Rightarrow> (('r, 'f) garnet_state, 'e garnet_error, (u64 \<times> bytes) list) action" where
  "garnet_read_snapshot g q =
     act_bind (redis_read (gs_server g) (\<lambda>db. let h = v_hash (db (live_key g))
         in map (\<lambda>f. (f, the (h f))) (string_iter (gs_iters g) (dom h))))
       (act_foldl (\<lambda>entries (field, data).
          (case parse_u64 field of Some sig \<Rightarrow> act_return (entries @ [(sig, data)]) | None \<Rightarrow> act_fail Malformed)) [])"

definition garnet_live_clear ::
    "('r, 'e, 'f::linorder) garnet_store \<Rightarrow> string \<Rightarrow> (('r, 'f) garnet_state, 'e garnet_error, unit) action" where
  "garnet_live_clear g q = send (gs_server g) (DEL (live_key g))"

definition garnet_row_count ::
    "('r, 'e, 'f::linorder) garnet_store \<Rightarrow> string \<Rightarrow> (('r, 'f) garnet_state, 'e garnet_error, nat) action" where
  "garnet_row_count g q = redis_read (gs_server g) (\<lambda>db. card (dom (v_hash (db (live_key g)))))"

definition garnet_live_writer ::
    "('r, 'e, 'f::linorder) garnet_store \<Rightarrow> (('r, 'f) garnet_state, 'e garnet_error) live_ops" where
  "garnet_live_writer g =
     \<lparr>lr_apply_mutations = garnet_apply_mutations g, lr_read_snapshot = garnet_read_snapshot g,
      lr_clear = garnet_live_clear g, lr_row_count = garnet_row_count g\<rparr>"

subsection \<open>The checkpoints\<close>

text \<open>A string of the buffer, if a session is open.\<close>

definition peek_string :: "string \<Rightarrow> (('r, 'f) garnet_state, 'e garnet_error, bytes buffer_read_result) action" where
  "peek_string k = act_read (\<lambda>s. Inr (case ses_buffer (inner s) of Some b \<Rightarrow> string_get b k | None \<Rightarrow> NotInBuffer))"

definition get_u64 ::
    "('r, 'e, 'f::linorder) garnet_store \<Rightarrow> string \<Rightarrow> (('r, 'f) garnet_state, 'e garnet_error, u64 option) action" where
  "get_u64 g k =
     act_bind (redis_read (gs_server g) (\<lambda>db. v_string (db k)))
       (\<lambda>r. case r of
          None \<Rightarrow> act_return None
        | Some v \<Rightarrow> act_bind (parse_member v) (\<lambda>n. act_return (Some n)))"

definition decode_sources ::
    "('r, 'e, 'f::linorder) garnet_store \<Rightarrow> bytes \<Rightarrow> (('r, 'f) garnet_state, 'e garnet_error, string list) action" where
  "decode_sources g v = (case gs_dec_sources g v of Some ids \<Rightarrow> act_return ids | None \<Rightarrow> act_fail Malformed)"

definition garnet_stage_checkpoint ::
    "('r, 'e, 'f::linorder) garnet_store \<Rightarrow> string \<Rightarrow> u64 \<Rightarrow> bytes option \<Rightarrow>
     (('r, 'f) garnet_state, 'e garnet_error, unit) action" where
  "garnet_stage_checkpoint g source sequence position =
     act_bind (redis_read (gs_server g) (\<lambda>db. v_string (db (sources_key g))))
       (\<lambda>redis_list. act_bind (buffer_write (string_set (seq_key g source) (text_bytes (u64_text sequence))))
       (\<lambda>_. act_bind (buffer_write (case position of
            Some pos \<Rightarrow> string_set (pos_key g source) pos
          | None \<Rightarrow> del_key (pos_key g source)))
       (\<lambda>_. act_bind (buffer_read (\<lambda>b. string_get b (sources_key g)))
       (\<lambda>r. let current_list = (case r of Found v \<Rightarrow> Some v | KeyDeleted \<Rightarrow> None | NotInBuffer \<Rightarrow> redis_list)
          in act_bind (case current_list of
                 Some v \<Rightarrow> if v \<noteq> [] then decode_sources g v else act_return []
               | None \<Rightarrow> act_return [])
       (\<lambda>ids. buffer_write (string_set (sources_key g)
          (gs_enc_sources g (if source \<in> set ids then ids else ids @ [source]))))))))"

definition garnet_read_checkpoint ::
    "('r, 'e, 'f::linorder) garnet_store \<Rightarrow> string \<Rightarrow> (('r, 'f) garnet_state, 'e garnet_error, source_checkpoint option) action" where
  "garnet_read_checkpoint g source =
     act_bind (peek_string (seq_key g source))
       (\<lambda>seq_val. act_bind (peek_string (pos_key g source))
       (\<lambda>pos_val. act_bind
         (case seq_val of
            Found v \<Rightarrow> act_bind (parse_member v) (\<lambda>n. act_return (Some n))
          | KeyDeleted \<Rightarrow> act_return None
          | NotInBuffer \<Rightarrow> get_u64 g (seq_key g source))
       (\<lambda>sequence. case sequence of
            None \<Rightarrow> act_return None
          | Some n \<Rightarrow> act_bind
              (case pos_val of
                 Found v \<Rightarrow> act_return (Some v)
               | KeyDeleted \<Rightarrow> act_return None
               | NotInBuffer \<Rightarrow> redis_read (gs_server g) (\<lambda>db. v_string (db (pos_key g source))))
            (\<lambda>pos. act_return (Some \<lparr>cp_sequence = n, cp_source_position = pos\<rparr>)))))"

definition garnet_read_all_checkpoints ::
    "('r, 'e, 'f::linorder) garnet_store \<Rightarrow> (('r, 'f) garnet_state, 'e garnet_error, string \<rightharpoonup> source_checkpoint) action" where
  "garnet_read_all_checkpoints g =
     act_bind (peek_string (sources_key g))
       (\<lambda>r. act_bind
         (case r of
            Found v \<Rightarrow> decode_sources g v
          | KeyDeleted \<Rightarrow> act_return []
          | NotInBuffer \<Rightarrow>
              act_bind (redis_read (gs_server g) (\<lambda>db. v_string (db (sources_key g))))
                (\<lambda>v. case v of Some s \<Rightarrow> decode_sources g s | None \<Rightarrow> act_return []))
         (act_foldl (\<lambda>result source. act_bind (garnet_read_checkpoint g source)
            (\<lambda>cp. act_return (case cp of Some c \<Rightarrow> result(source \<mapsto> c) | None \<Rightarrow> result))) Map.empty))"

definition garnet_clear_checkpoints ::
    "('r, 'e, 'f::linorder) garnet_store \<Rightarrow> (('r, 'f) garnet_state, 'e garnet_error, unit) action" where
  "garnet_clear_checkpoints g =
     act_bind (garnet_read_all_checkpoints g)
       (\<lambda>all. act_bind
         (act_foldl (\<lambda>_ source. act_bind (send (gs_server g) (DEL (seq_key g source)))
            (\<lambda>_. send (gs_server g) (DEL (pos_key g source)))) () (string_iter (gs_iters g) (dom all)))
       (\<lambda>_. act_bind (send (gs_server g) (DEL (sources_key g)))
       (\<lambda>_. send (gs_server g) (DEL (config_hash_key g)))))"

definition set_u64 ::
    "('r, 'e, 'f::linorder) garnet_store \<Rightarrow> string \<Rightarrow> u64 \<Rightarrow> (('r, 'f) garnet_state, 'e garnet_error, unit) action" where
  "set_u64 g k n = send (gs_server g) (SET k (text_bytes (u64_text n)))"

definition garnet_write_config_hash ::
    "('r, 'e, 'f::linorder) garnet_store \<Rightarrow> u64 \<Rightarrow> (('r, 'f) garnet_state, 'e garnet_error, unit) action" where
  "garnet_write_config_hash g = set_u64 g (config_hash_key g)"

definition garnet_read_config_hash ::
    "('r, 'e, 'f::linorder) garnet_store \<Rightarrow> (('r, 'f) garnet_state, 'e garnet_error, u64 option) action" where
  "garnet_read_config_hash g = get_u64 g (config_hash_key g)"

definition garnet_stage_result_sequence ::
    "('r, 'e, 'f::linorder) garnet_store \<Rightarrow> string \<Rightarrow> u64 \<Rightarrow> (('r, 'f) garnet_state, 'e garnet_error, unit) action" where
  "garnet_stage_result_sequence g q n =
     act_bind (with_active_buffer (\<lambda>b. ((), string_set (result_sequence_key g) (text_bytes (u64_text n)) b)))
       (\<lambda>r. case r of Some _ \<Rightarrow> act_return () | None \<Rightarrow> act_fail NoSession)"

definition garnet_write_result_sequence ::
    "('r, 'e, 'f::linorder) garnet_store \<Rightarrow> string \<Rightarrow> u64 \<Rightarrow> (('r, 'f) garnet_state, 'e garnet_error, unit) action" where
  "garnet_write_result_sequence g q = set_u64 g (result_sequence_key g)"

definition garnet_read_result_sequence ::
    "('r, 'e, 'f::linorder) garnet_store \<Rightarrow> string \<Rightarrow> (('r, 'f) garnet_state, 'e garnet_error, u64 option) action" where
  "garnet_read_result_sequence g q = get_u64 g (result_sequence_key g)"

definition garnet_write_output_generation ::
    "('r, 'e, 'f::linorder) garnet_store \<Rightarrow> string \<Rightarrow> u64 \<Rightarrow> (('r, 'f) garnet_state, 'e garnet_error, unit) action" where
  "garnet_write_output_generation g q = set_u64 g (output_generation_key g)"

definition garnet_read_output_generation ::
    "('r, 'e, 'f::linorder) garnet_store \<Rightarrow> string \<Rightarrow> (('r, 'f) garnet_state, 'e garnet_error, u64 option) action" where
  "garnet_read_output_generation g q = get_u64 g (output_generation_key g)"

definition garnet_checkpoint_store ::
    "('r, 'e, 'f::linorder) garnet_store \<Rightarrow> (('r, 'f) garnet_state, 'e garnet_error) checkpoint_ops" where
  "garnet_checkpoint_store g =
     \<lparr>is_persistent = True, stage_checkpoint = garnet_stage_checkpoint g, read_checkpoint = garnet_read_checkpoint g,
      read_all_checkpoints = garnet_read_all_checkpoints g, clear_checkpoints = garnet_clear_checkpoints g,
      write_config_hash = garnet_write_config_hash g, read_config_hash = garnet_read_config_hash g,
      stage_result_sequence = garnet_stage_result_sequence g, write_result_sequence = garnet_write_result_sequence g,
      read_result_sequence = garnet_read_result_sequence g, write_output_generation = garnet_write_output_generation g,
      read_output_generation = garnet_read_output_generation g\<rparr>"

end
