(* ===== verification/Garnet_Laws.thy ===== *)
theory Garnet_Laws
  imports Garnet_Output
begin

text \<open>
  What the operations of the Garnet stores do to the stored output.  \<open>garnet_view\<close> reads the output of
  a query off a Redis database.  Within the locale \<open>garnet_stores\<close> every read returns what that view
  shows, and every write stages or sends the change of the view that the interfaces ask for.
\<close>

subsection \<open>Decimal numbers\<close>

lemma digit_value_char: "d < 10 \<Longrightarrow> digit_value (digit_char d) = Some d"
  by (simp add: digit_value_def digit_char_def Let_def)

lemma parse_digits_snoc:
  "parse_digits a (cs @ [c]) = Option.bind (parse_digits a cs) (\<lambda>n. map_option (\<lambda>d. 10 * n + d) (digit_value c))"
  by (induction cs arbitrary: a) (auto split: option.split)

declare nat_text.simps [simp del]

lemma parse_nat_text: "parse_digits 0 (nat_text n) = Some n"
proof (induction n rule: nat_text.induct)
  case (1 n)
  show ?case
  proof (cases "n < 10")
    case True
    then show ?thesis by (simp add: nat_text.simps [of n] digit_value_char)
  next
    case False
    with 1 show ?thesis by (simp add: nat_text.simps [of n] parse_digits_snoc digit_value_char)
  qed
qed

lemma parse_digits_digit: "parse_digits a cs = Some n \<Longrightarrow> c \<in> set cs \<Longrightarrow> digit_value c \<noteq> None"
  by (induction cs arbitrary: a) (auto split: option.splits)

lemma nat_text_nonempty: "nat_text n \<noteq> []"
  by (subst nat_text.simps) simp

lemma parse_u64_text [simp]: "parse_u64 (u64_text n) = Some n"
proof -
  obtain c cs where t: "nat_text (unat n) = c # cs" using nat_text_nonempty [of "unat n"] by (cases "nat_text (unat n)") auto
  have "digit_value c \<noteq> None" using parse_digits_digit [OF parse_nat_text [of "unat n"], of c] by (simp add: t)
  then have "c \<noteq> CHR ''+''" by (auto simp: digit_value_def Let_def)
  then show ?thesis using parse_nat_text [of "unat n"] u64_bound [of n] by (simp add: parse_u64_def u64_text_def t)
qed

lemma u64_text_inj [simp]: "u64_text m = u64_text n \<longleftrightarrow> m = n"
  by (metis option.inject parse_u64_text)

lemma bytes_text_bytes [simp]: "bytes_text (text_bytes t) = t"
proof -
  have "char_of (unat (of_nat (of_char c) :: 8 word)) = c" for c
    by (simp add: unat_of_nat)
  then show ?thesis by (induction t) (simp_all add: bytes_text_def text_bytes_def)
qed

lemma text_bytes_inj [simp]: "text_bytes a = text_bytes b \<longleftrightarrow> a = b"
  by (metis bytes_text_bytes)

abbreviation member :: "u64 \<Rightarrow> bytes" where
  "member n \<equiv> text_bytes (u64_text n)"

lemma parse_member_ok [simp]: "parse_member (member n) s = (Inr n, s)"
  by (simp add: parse_member_def)

subsection \<open>Keys\<close>

lemmas key_defs = outbox_key_def data_key_def live_key_def seq_key_def pos_key_def sources_key_def config_hash_key_def
  result_sequence_key_def output_generation_key_def

lemma keys_distinct [simp]:
  "outbox_key g \<noteq> data_key g" "outbox_key g \<noteq> live_key g" "data_key g \<noteq> live_key g"
  "outbox_key g \<noteq> seq_key g a" "outbox_key g \<noteq> pos_key g a" "outbox_key g \<noteq> sources_key g" "outbox_key g \<noteq> config_hash_key g"
  "outbox_key g \<noteq> result_sequence_key g" "outbox_key g \<noteq> output_generation_key g"
  "data_key g \<noteq> seq_key g a" "data_key g \<noteq> pos_key g a" "data_key g \<noteq> sources_key g" "data_key g \<noteq> config_hash_key g"
  "data_key g \<noteq> result_sequence_key g" "data_key g \<noteq> output_generation_key g"
  "live_key g \<noteq> seq_key g a" "live_key g \<noteq> pos_key g a" "live_key g \<noteq> sources_key g" "live_key g \<noteq> config_hash_key g"
  "live_key g \<noteq> result_sequence_key g" "live_key g \<noteq> output_generation_key g"
  "seq_key g a \<noteq> pos_key g b"
  "seq_key g a \<noteq> sources_key g" "seq_key g a \<noteq> config_hash_key g" "seq_key g a \<noteq> result_sequence_key g" "seq_key g a \<noteq> output_generation_key g"
  "pos_key g a \<noteq> sources_key g" "pos_key g a \<noteq> config_hash_key g" "pos_key g a \<noteq> result_sequence_key g" "pos_key g a \<noteq> output_generation_key g"
  "sources_key g \<noteq> config_hash_key g" "sources_key g \<noteq> result_sequence_key g" "sources_key g \<noteq> output_generation_key g"
  "config_hash_key g \<noteq> result_sequence_key g" "config_hash_key g \<noteq> output_generation_key g"
  "result_sequence_key g \<noteq> output_generation_key g"
  by (simp_all add: key_defs)

lemmas keys_distinct' [simp] = keys_distinct [symmetric]

lemma keys_inj [simp]: "seq_key g a = seq_key g b \<longleftrightarrow> a = b" "pos_key g a = pos_key g b \<longleftrightarrow> a = b"
  by (simp_all add: key_defs)

subsection \<open>The stored output\<close>

text \<open>The outbox is the sorted set of the sequences with the hash of their data.\<close>

definition box :: "(bytes \<rightharpoonup> 'f) \<Rightarrow> (string \<rightharpoonup> bytes) \<Rightarrow> (u64, bytes) btree" where
  "box Z H = map (\<lambda>n. (n, the (H (u64_text n)))) (sorted_list_of_set {n. member n \<in> dom Z})"

definition stored_u64 :: "'f redis_value option \<Rightarrow> u64 option" where
  "stored_u64 v = Option.bind (v_string v) (\<lambda>s. parse_u64 (bytes_text s))"

definition stored_sources :: "('r, 'e, 'f) garnet_store \<Rightarrow> 'f redis_value option \<Rightarrow> string list" where
  "stored_sources g v =
     (case v_string v of
        Some s \<Rightarrow> (case gs_dec_sources g s of Some ids \<Rightarrow> ids | None \<Rightarrow> [])
      | None \<Rightarrow> [])"

definition garnet_view :: "('r, 'e, 'f) garnet_store \<Rightarrow> 'f redis_db \<Rightarrow> output_view" where
  "garnet_view g db =
     \<lparr>ov_outbox = box (v_zset (db (outbox_key g))) (v_hash (db (data_key g))),
      ov_rows = (\<lambda>sig. v_hash (db (live_key g)) (u64_text sig)),
      ov_checkpoints = (\<lambda>source.
        if source \<in> set (stored_sources g (db (sources_key g)))
        then map_option (\<lambda>n. \<lparr>cp_sequence = n, cp_source_position = v_string (db (pos_key g source))\<rparr>)
               (stored_u64 (db (seq_key g source)))
        else None),
      ov_config_hash = stored_u64 (db (config_hash_key g)),
      ov_result_sequence = stored_u64 (db (result_sequence_key g)),
      ov_generation = stored_u64 (db (output_generation_key g))\<rparr>"

text \<open>The mutations of rows, as commands.\<close>

definition exec_rows :: "('r, 'e, 'f) garnet_store \<Rightarrow> row_mutation list \<Rightarrow> 'f redis_db \<Rightarrow> 'f redis_db" where
  "exec_rows g = fold (\<lambda>(sig, data). exec_command
     (case data of Some d \<Rightarrow> HSET (live_key g) [(u64_text sig, d)] | None \<Rightarrow> HDEL (live_key g) [u64_text sig]))"

text \<open>
  Every member of the outbox is a sequence below \<open>2\<^sup>53\<close> with its score and its data, and every
  field of the live results is a row signature.
\<close>

definition box_ok :: "('r, 'e, 'f) garnet_store \<Rightarrow> 'f redis_db \<Rightarrow> bool" where
  "box_ok g db \<longleftrightarrow> (\<forall>m x. v_zset (db (outbox_key g)) m = Some x \<longrightarrow>
     (\<exists>n. m = member n \<and> x = gs_score g n \<and> unat n < 2 ^ 53 \<and> v_hash (db (data_key g)) (u64_text n) \<noteq> None))"

definition rows_ok :: "('r, 'e, 'f) garnet_store \<Rightarrow> 'f redis_db \<Rightarrow> bool" where
  "rows_ok g db \<longleftrightarrow> dom (v_hash (db (live_key g))) \<subseteq> range u64_text"

lemma box_okD:
  assumes "box_ok g db" "v_zset (db (outbox_key g)) (member n) = Some x"
  shows "x = gs_score g n \<and> unat n < 2 ^ 53 \<and> v_hash (db (data_key g)) (u64_text n) \<noteq> None"
proof -
  from assms obtain k where k: "member n = member k" "x = gs_score g k" "unat k < 2 ^ 53" "v_hash (db (data_key g)) (u64_text k) \<noteq> None"
    unfolding box_ok_def by blast
  then have "n = k" by simp
  with k show ?thesis by blast
qed

lemma read_box_member:
  assumes "box_ok g db" "n \<in> {n. member n \<in> dom (v_zset (db (outbox_key g)))}"
  shows "v_zset (db (outbox_key g)) (member n) = Some (gs_score g n)" "unat n < 2 ^ 53"
    "v_hash (db (data_key g)) (u64_text n) \<noteq> None"
proof -
  from assms(2) obtain x where "v_zset (db (outbox_key g)) (member n) = Some x" by blast
  with box_okD [OF assms(1) this] show "v_zset (db (outbox_key g)) (member n) = Some (gs_score g n)" "unat n < 2 ^ 53"
    "v_hash (db (data_key g)) (u64_text n) \<noteq> None" by blast+
qed

lemma box_sorted [simp]: "bt_ok (box Z H)"
  by (simp add: box_def bt_ok_def comp_def)

lemma box_keys [simp]: "map fst (box Z H) = sorted_list_of_set {n. member n \<in> dom Z}"
  by (simp add: box_def comp_def)

lemma sorted_insert_max:
  fixes n :: "'a::linorder"
  shows "finite S \<Longrightarrow> \<forall>k \<in> S. k < n \<Longrightarrow> sorted_list_of_set (insert n S) = sorted_list_of_set S @ [n]"
  by (subst sorted_list_of_set_insert_remove) (auto simp: sorted_insort_is_snoc less_imp_le)

lemma box_append:
  assumes "\<forall>k \<in> fst ` set (box Z H). k < n"
  shows "box (Z(member n \<mapsto> x)) (H(u64_text n \<mapsto> d)) = bt_insert n d (box Z H)"
proof -
  let ?S = "{k. member k \<in> dom Z}"
  have "fst ` set (box Z H) = ?S" by (simp add: box_def image_image)
  then have lt: "\<forall>k \<in> ?S. k < n" using assms by simp
  have "{k. member k \<in> dom (Z(member n \<mapsto> x))} = insert n ?S" by auto
  then have "box (Z(member n \<mapsto> x)) (H(u64_text n \<mapsto> d)) = map (\<lambda>k. (k, the ((H(u64_text n \<mapsto> d)) (u64_text k)))) (sorted_list_of_set ?S @ [n])"
    using sorted_insert_max [OF _ lt] by (simp add: box_def)
  also have "\<dots> = box Z H @ [(n, d)]" using lt by (auto simp: box_def)
  also have "\<dots> = bt_insert n d (box Z H)" using bt_insert_last [of "box Z H" n d] assms by simp
  finally show ?thesis .
qed

lemma sorted_filter_set:
  "finite S \<Longrightarrow> filter P (sorted_list_of_set S) = sorted_list_of_set {k \<in> S. P k}"
  by (intro sorted_distinct_set_unique) (auto simp: sorted_wrt_filter)

lemma box_trim:
  assumes "\<And>k. member k \<in> dom Z' \<longleftrightarrow> member k \<in> dom Z \<and> m \<le> k" "\<And>k. m \<le> k \<Longrightarrow> H' (u64_text k) = H (u64_text k)"
  shows "box Z' H' = filter (\<lambda>e. m \<le> fst e) (box Z H)"
proof -
  have "filter (\<lambda>e. m \<le> fst e) (box Z H) = map (\<lambda>n. (n, the (H (u64_text n)))) (filter (\<lambda>n. m \<le> n) (sorted_list_of_set {n. member n \<in> dom Z}))"
    by (simp add: box_def filter_map comp_def)
  also have "\<dots> = map (\<lambda>n. (n, the (H (u64_text n)))) (sorted_list_of_set {n. member n \<in> dom Z \<and> m \<le> n})"
    by (simp add: sorted_filter_set)
  also have "\<dots> = box Z' H'" using assms by (auto simp: box_def)
  finally show ?thesis by simp
qed

text \<open>A removal from a sorted set refines the command unless it is lost.\<close>

lemma zset_remove_refines:
  assumes b: "buffer_ok kind b" and k: "kind k = ZSetKey"
    and new: "\<And>added removed. buf_keys b k = Some (SortedSetState added removed) \<Longrightarrow> m \<in> dom added \<Longrightarrow> v_zset (db k) m = None"
  shows "overlay (zset_remove k m b) db = exec_command (ZREM k [m]) (overlay b db)"
  using b
proof (cases rule: key_cases [where k = k and db = db])
  case fresh
  then show ?thesis
    by (auto simp: zset_remove_def overlay_key_def restrict_map_def intro!: put_refines mk_cong)
next
  case deleted
  then show ?thesis by (auto simp: zset_remove_def exec_command_def mk_zset_def fun_eq_iff)
next
  case 3: (changed st)
  with k obtain added removed where st: "st = SortedSetState added removed" by (cases st) auto
  have "overlay b db k = mk_zset ((if k \<in> cleared_keys b then Map.empty else v_zset (db k) |` (- removed)) ++ added)"
    using 3(5) by (simp add: st overlay_key_def Let_def)
  then show ?thesis
    using 3(1) new [of added removed, OF _ domI]
    by (auto simp: zset_remove_def st overlay_key_def Let_def map_add_def restrict_map_def intro!: put_refines mk_cong split: option.split)
qed

subsection \<open>The states of the backend\<close>

abbreviation contents :: "('r, 'e, 'f) garnet_store \<Rightarrow> ('r, 'f) garnet_state \<Rightarrow> 'f redis_db" where
  "contents g s \<equiv> redis_contents (gs_server g) (redis s)"

definition session_db :: "('r, 'e, 'f) garnet_store \<Rightarrow> ('r, 'f) garnet_state \<Rightarrow> 'f redis_db" where
  "session_db g s = (case ses_buffer (inner s) of None \<Rightarrow> contents g s | Some b \<Rightarrow> overlay b (contents g s))"

definition garnet_pend :: "('r, 'e, 'f) garnet_store \<Rightarrow> ('r, 'f) garnet_state \<Rightarrow> output_view" where
  "garnet_pend g s = garnet_view g (session_db g s)"

definition garnet_stored :: "('r, 'e, 'f) garnet_store \<Rightarrow> ('r, 'f) garnet_state \<Rightarrow> output_view" where
  "garnet_stored g s = garnet_view g (contents g s)"

definition garnet_good :: "('r, 'e, 'f) garnet_store \<Rightarrow> (string \<Rightarrow> key_kind) \<Rightarrow> ('r, 'f) garnet_state \<Rightarrow> bool" where
  "garnet_good g kind s \<longleftrightarrow> db_typed kind (contents g s) \<and> box_ok g (contents g s) \<and> rows_ok g (contents g s)"

definition garnet_closed :: "('r, 'e, 'f) garnet_store \<Rightarrow> (string \<Rightarrow> key_kind) \<Rightarrow> ('r, 'f) garnet_state \<Rightarrow> bool" where
  "garnet_closed g kind s \<longleftrightarrow> inner s = new_session \<and> garnet_good g kind s"

definition garnet_idle :: "('r, 'e, 'f) garnet_store \<Rightarrow> (string \<Rightarrow> key_kind) \<Rightarrow> ('r, 'f) garnet_state \<Rightarrow> bool" where
  "garnet_idle g kind s \<longleftrightarrow>
     (inner s = new_session \<or> inner s = \<lparr>ses_buffer = Some new_buffer, ses_depth = 1\<rparr>) \<and> garnet_good g kind s"

definition garnet_active :: "('r, 'e, 'f) garnet_store \<Rightarrow> (string \<Rightarrow> key_kind) \<Rightarrow> ('r, 'f) garnet_state \<Rightarrow> bool" where
  "garnet_active g kind s \<longleftrightarrow>
     (\<exists>b. inner s = \<lparr>ses_buffer = Some b, ses_depth = 1\<rparr> \<and> buffer_ok kind b) \<and> garnet_good g kind s \<and>
     box_ok g (session_db g s) \<and> rows_ok g (session_db g s)"

definition garnet_ready :: "('r, 'e, 'f) garnet_store \<Rightarrow> (string \<Rightarrow> key_kind) \<Rightarrow> ('r, 'f) garnet_state \<Rightarrow> bool" where
  "garnet_ready g kind s \<longleftrightarrow> garnet_active g kind s \<and>
     (\<forall>b. ses_buffer (inner s) = Some b \<longrightarrow> buf_keys b (outbox_key g) = None \<and> buf_keys b (data_key g) = None)"

lemma overlay_new [simp]: "overlay new_buffer db = db"
  by (simp add: overlay_def new_buffer_def fun_eq_iff)

lemma idle_db: "garnet_idle g kind s \<Longrightarrow> session_db g s = contents g s"
  by (auto simp: garnet_idle_def session_db_def new_session_def)

lemma idle_peek: "garnet_idle g kind s \<Longrightarrow> peek_string k s = (Inr NotInBuffer, s)"
  by (auto simp: garnet_idle_def peek_string_def new_session_def new_buffer_def string_get_def)

lemma readsI:
  assumes "\<And>s. P s \<Longrightarrow> (\<exists>e. m s = (Inl e, s)) \<or> (\<exists>x. m s = (Inr x, s) \<and> R (v s) x)"
  shows "reads P v R m"
  unfolding reads_def
proof (intro allI impI)
  fix s assume "P s"
  from assms [OF this] show "snd (m s) = s \<and> (\<forall>x t. m s = (Inr x, t) \<longrightarrow> R (v s) x)" by auto
qed

lemma redis_read_run [simp]:
  "redis_unreachable ops (redis s) = Some e \<Longrightarrow> redis_read ops f s = (Inl (RedisError e), s)"
  "redis_unreachable ops (redis s) = None \<Longrightarrow> redis_read ops f s = (Inr (f (redis_contents ops (redis s))), s)"
  by (simp_all add: redis_read_def)

lemma act_foldl_run:
  assumes "\<And>a x. x \<in> set xs \<Longrightarrow> f a x s = (Inr (h a x), s)"
  shows "act_foldl f a xs s = (Inr (foldl h a xs), s)"
  using assms by (induction xs arbitrary: a) simp_all

lemma foldl_snoc: "foldl (\<lambda>acc x. acc @ [h x]) acc xs = acc @ map h xs"
  by (induction xs arbitrary: acc) simp_all

lemma act_foldl_reads:
  assumes "\<And>a x. x \<in> set xs \<Longrightarrow> (\<exists>e. f a x s = (Inl e, s)) \<or> f a x s = (Inr (h a x), s)"
  shows "(\<exists>e. act_foldl f a xs s = (Inl e, s)) \<or> act_foldl f a xs s = (Inr (foldl h a xs), s)"
  using assms
proof (induction xs arbitrary: a)
  case (Cons x xs)
  consider e where "f a x s = (Inl e, s)" | "f a x s = (Inr (h a x), s)" using Cons.prems [of x a] by auto
  then show ?case
  proof cases
    case 2
    have "(\<exists>e. act_foldl f (h a x) xs s = (Inl e, s)) \<or> act_foldl f (h a x) xs s = (Inr (foldl h (h a x) xs), s)"
      by (rule Cons.IH) (rule Cons.prems, simp)
    with 2 show ?thesis by simp
  qed auto
qed simp

lemma foldl_lookups:
  "foldl (\<lambda>r x. case c x of Some y \<Rightarrow> r(x \<mapsto> y) | None \<Rightarrow> r) r0 xs =
     (\<lambda>x. if x \<in> set xs \<and> c x \<noteq> None then c x else r0 x)"
  by (induction xs arbitrary: r0) (auto simp: fun_eq_iff split: option.split)

subsection \<open>Reading\<close>

locale garnet_stores =
  fixes g :: "('r, 'e, 'f::linorder) garnet_store" and kind :: "string \<Rightarrow> key_kind"
  assumes server: "redis_service (gs_server g)" and iters: "iters_ok (gs_iters g)" and attached: "gs_attached g"
    and kinds: "kind (outbox_key g) = ZSetKey" "kind (data_key g) = HashKey" "kind (live_key g) = HashKey"
      "kind (seq_key g source) = StringKey" "kind (pos_key g source) = StringKey" "kind (sources_key g) = StringKey"
      "kind (config_hash_key g) = StringKey" "kind (result_sequence_key g) = StringKey" "kind (output_generation_key g) = StringKey"
    and score: "m < n \<Longrightarrow> unat n < 2 ^ 53 \<Longrightarrow> gs_score g m < gs_score g n"
    and sources: "gs_dec_sources g (gs_enc_sources g ids) = Some ids" "gs_dec_sources g [] = None"
begin

lemma score_less: "unat m < 2 ^ 53 \<Longrightarrow> unat n < 2 ^ 53 \<Longrightarrow> gs_score g m < gs_score g n \<longleftrightarrow> m < n"
  using score [of m n] score [of n m] by (cases m n rule: linorder_cases) auto

lemma zrange_box:
  assumes "box_ok g db"
  shows "zrange (v_zset (db (outbox_key g))) = map member (sorted_list_of_set {n. member n \<in> dom (v_zset (db (outbox_key g)))})"
proof -
  let ?Z = "v_zset (db (outbox_key g))"
  define S where "S = {n. member n \<in> dom ?Z}"
  have inj: "inj_on member A" for A by (auto intro: inj_onI)
  have dom: "dom ?Z = member ` S"
  proof
    show "dom ?Z \<subseteq> member ` S"
    proof
      fix m assume m: "m \<in> dom ?Z"
      then obtain n where "m = member n" using assms by (auto simp: box_ok_def)
      with m show "m \<in> member ` S" by (simp add: S_def)
    qed
  qed (auto simp: S_def)
  note val = read_box_member(1,2) [OF assms, folded S_def]
  have "sort_key (\<lambda>m. the (?Z m)) (sorted_list_of_set (dom ?Z)) = map member (sorted_list_of_set S)"
  proof (rule sort_key_inj_key_eq)
    have "distinct (map member (sorted_list_of_set S))" using inj by (simp add: distinct_map)
    then show "mset (sorted_list_of_set (dom ?Z)) = mset (map member (sorted_list_of_set S))"
      by (subst set_eq_iff_mset_eq_distinct [symmetric]) (simp_all add: dom)
    show "inj_on (\<lambda>m. the (?Z m)) (set (sorted_list_of_set (dom ?Z)))"
    proof (rule inj_onI)
      fix a b
      assume "a \<in> set (sorted_list_of_set (dom ?Z))" "b \<in> set (sorted_list_of_set (dom ?Z))" and eq: "the (?Z a) = the (?Z b)"
      then obtain m n where "m \<in> S" "n \<in> S" "a = member m" "b = member n" by (auto simp: dom)
      then have "gs_score g m = gs_score g n" using eq val(1) by simp
      then have "m = n" using score_less [OF val(2) [OF \<open>m \<in> S\<close>] val(2) [OF \<open>n \<in> S\<close>]]
          score_less [OF val(2) [OF \<open>n \<in> S\<close>] val(2) [OF \<open>m \<in> S\<close>]] by (cases m n rule: linorder_cases) simp_all
      then show "a = b" using \<open>a = member m\<close> \<open>b = member n\<close> by simp
    qed
    have "sorted_wrt (\<lambda>a b. the (?Z (member a)) \<le> the (?Z (member b))) (sorted_list_of_set S)"
    proof (rule sorted_wrt_mono_rel)
      fix a b
      assume "a \<in> set (sorted_list_of_set S)" "b \<in> set (sorted_list_of_set S)" "a \<le> b"
      then have ab: "a \<in> S" "b \<in> S" "a \<le> b" by simp_all
      show "the (?Z (member a)) \<le> the (?Z (member b))"
        unfolding val(1) [OF ab(1)] val(1) [OF ab(2)] option.sel
        using score_less [OF val(2) [OF ab(2)] val(2) [OF ab(1)]] ab(3) by (simp add: not_less [symmetric])
    qed simp
    then show "sorted (map (\<lambda>m. the (?Z m)) (map member (sorted_list_of_set S)))"
      by (simp add: sorted_wrt_map)
  qed
  then show ?thesis by (simp add: zrange_def S_def)
qed

lemma read_from_law:
  assumes "unat n < 2 ^ 53"
  shows "reads (garnet_idle g kind) (garnet_pend g) (\<lambda>v es. es = bt_above n (ov_outbox v)) (garnet_read_from g q n)"
proof (rule readsI)
  fix s assume s: "garnet_idle g kind s"
  then have ok: "box_ok g (contents g s)" by (simp add: garnet_idle_def garnet_good_def)
  let ?db = "contents g s"
  let ?Z = "v_zset (?db (outbox_key g))" and ?H = "v_hash (?db (data_key g))"
  let ?S = "{n. member n \<in> dom ?Z}"
  note mem = read_box_member [OF ok]
  have "filter (\<lambda>m. gs_score g n < the (?Z m)) (zrange ?Z) = map member (filter (\<lambda>k. n < k) (sorted_list_of_set ?S))"
    unfolding zrange_box [OF ok] filter_map comp_def
  proof (rule arg_cong [where f = "map member"], rule filter_cong)
    fix k assume "k \<in> set (sorted_list_of_set ?S)"
    then have "k \<in> ?S" by simp
    from mem(1,2) [OF this] score_less [OF assms, of k] show "gs_score g n < the (?Z (member k)) \<longleftrightarrow> n < k" by simp
  qed simp
  note range = this
  have "bt_above n (box ?Z ?H) = map (\<lambda>k. (k, the (?H (u64_text k)))) (filter (\<lambda>k. n < k) (sorted_list_of_set ?S))"
    by (simp add: bt_above_def box_def filter_map comp_def)
  note above = this
  show "(\<exists>e. garnet_read_from g q n s = (Inl e, s)) \<or>
      (\<exists>es. garnet_read_from g q n s = (Inr es, s) \<and> es = bt_above n (ov_outbox (garnet_pend g s)))"
  proof (cases "redis_unreachable (gs_server g) (redis s)")
    case (Some e)
    then show ?thesis by (simp add: garnet_read_from_def)
  next
    case None
    let ?ks = "filter (\<lambda>k. n < k) (sorted_list_of_set ?S)"
    have "act_foldl (\<lambda>entries m. act_bind (parse_member m)
          (\<lambda>n. act_bind (redis_read (gs_server g) (\<lambda>db. v_hash (db (data_key g)) (bytes_text m)))
            (\<lambda>d. act_return (case d of Some x \<Rightarrow> entries @ [(n, x)] | None \<Rightarrow> entries)))) [] (map member ?ks) s =
        (Inr (foldl (\<lambda>entries k. entries @ [(the (parse_u64 (bytes_text k)), the (?H (bytes_text k)))]) [] (map member ?ks)), s)"
    proof (rule act_foldl_run)
      fix a x assume "x \<in> set (map member ?ks)"
      then obtain k where "x = member k" "k \<in> ?S" by auto
      moreover from mem(3) [OF \<open>k \<in> ?S\<close>] obtain d where "?H (u64_text k) = Some d" by blast
      ultimately show "act_bind (parse_member x)
          (\<lambda>n. act_bind (redis_read (gs_server g) (\<lambda>db. v_hash (db (data_key g)) (bytes_text x)))
            (\<lambda>d. act_return (case d of Some x \<Rightarrow> a @ [(n, x)] | None \<Rightarrow> a))) s =
          (Inr (a @ [(the (parse_u64 (bytes_text x)), the (?H (bytes_text x)))]), s)"
        by (simp add: None)
    qed
    then have "garnet_read_from g q n s = (Inr (map (\<lambda>k. (k, the (?H (u64_text k)))) ?ks), s)"
      by (simp add: garnet_read_from_def None range foldl_snoc comp_def)
    then show ?thesis by (simp add: garnet_pend_def garnet_view_def idle_db [OF s] above)
  qed
qed

lemma read_latest_law:
  "reads (garnet_idle g kind) (garnet_pend g) (\<lambda>v l. l = next_back (map fst (ov_outbox v))) (garnet_read_latest_sequence g q)"
proof (rule readsI)
  fix s assume s: "garnet_idle g kind s"
  then have ok: "box_ok g (contents g s)" by (simp add: garnet_idle_def garnet_good_def)
  let ?ks = "sorted_list_of_set {n. member n \<in> dom (v_zset (contents g s (outbox_key g)))}"
  have "map fst (ov_outbox (garnet_pend g s)) = ?ks" by (simp add: garnet_pend_def garnet_view_def idle_db [OF s])
  then show "(\<exists>e. garnet_read_latest_sequence g q s = (Inl e, s)) \<or>
      (\<exists>l. garnet_read_latest_sequence g q s = (Inr l, s) \<and> l = next_back (map fst (ov_outbox (garnet_pend g s))))"
    by (cases "redis_unreachable (gs_server g) (redis s)")
      (auto simp: garnet_read_latest_sequence_def zrange_box [OF ok] next_back_def last_map)
qed

lemma get_u64_cases:
  "(\<exists>e. get_u64 g k s = (Inl e, s)) \<or> get_u64 g k s = (Inr (stored_u64 (contents g s k)), s)"
  by (cases "redis_unreachable (gs_server g) (redis s)")
    (auto simp: get_u64_def stored_u64_def parse_member_def split: option.split)

lemma get_u64_law:
  "reads (garnet_idle g kind) (garnet_pend g) (\<lambda>v n. n = ov_config_hash v) (garnet_read_config_hash g)"
  "reads (garnet_idle g kind) (garnet_pend g) (\<lambda>v n. n = ov_result_sequence v) (garnet_read_result_sequence g q)"
  "reads (garnet_idle g kind) (garnet_pend g) (\<lambda>v n. n = ov_generation v) (garnet_read_output_generation g q)"
proof -
  note get = get_u64_cases
  have pend: "garnet_pend g s = garnet_view g (contents g s)" if "garnet_idle g kind s" for s
    using idle_db [OF that] by (simp add: garnet_pend_def)
  show "reads (garnet_idle g kind) (garnet_pend g) (\<lambda>v n. n = ov_config_hash v) (garnet_read_config_hash g)"
    by (rule readsI) (use get [of "config_hash_key g"] in \<open>auto simp: garnet_read_config_hash_def pend garnet_view_def\<close>)
  show "reads (garnet_idle g kind) (garnet_pend g) (\<lambda>v n. n = ov_result_sequence v) (garnet_read_result_sequence g q)"
    by (rule readsI) (use get [of "result_sequence_key g"] in \<open>auto simp: garnet_read_result_sequence_def pend garnet_view_def\<close>)
  show "reads (garnet_idle g kind) (garnet_pend g) (\<lambda>v n. n = ov_generation v) (garnet_read_output_generation g q)"
    by (rule readsI) (use get [of "output_generation_key g"] in \<open>auto simp: garnet_read_output_generation_def pend garnet_view_def\<close>)
qed

lemma read_rows_law:
  "reads (garnet_idle g kind) (garnet_pend g) (\<lambda>v rows. distinct (map fst rows) \<and> map_of rows = ov_rows v) (garnet_read_snapshot g q)"
proof (rule readsI)
  fix s assume s: "garnet_idle g kind s"
  let ?h = "v_hash (contents g s (live_key g))"
  let ?fs = "string_iter (gs_iters g) (dom ?h)"
  have dom: "dom ?h \<subseteq> range u64_text" using s by (simp add: garnet_idle_def garnet_good_def rows_ok_def)
  then have "finite (dom ?h)" by (rule finite_subset) simp
  then have fs: "set ?fs = dom ?h" "distinct ?fs" using iters by (simp_all add: iters_ok_def iter_ok_def)
  let ?sig = "\<lambda>f. the (parse_u64 f)"
  have sig: "u64_text (?sig f) = f" "\<exists>n. parse_u64 f = Some n" if "f \<in> set ?fs" for f
  proof -
    from that dom fs(1) obtain n where "f = u64_text n" by blast
    then show "u64_text (?sig f) = f" "\<exists>n. parse_u64 f = Some n" by simp_all
  qed
  let ?rows = "map (\<lambda>f. (?sig f, the (?h f))) ?fs"
  have "inj_on ?sig (set ?fs)" by (rule inj_on_inverseI [where g = u64_text]) (rule sig(1))
  then have d: "distinct (map fst ?rows)" using fs(2) by (simp add: distinct_map comp_def)
  have "map_of ?rows sig = ?h (u64_text sig)" for sig
  proof (cases "?h (u64_text sig)")
    case None
    have "sig \<notin> fst ` set ?rows"
    proof
      assume "sig \<in> fst ` set ?rows"
      then obtain f where f: "f \<in> set ?fs" "sig = ?sig f" by (auto simp: image_iff)
      then have "u64_text sig \<in> dom ?h" using sig(1) [OF f(1)] fs(1) by simp
      with None show False by (simp add: domIff)
    qed
    then have "map_of ?rows sig = None" unfolding map_of_eq_None_iff .
    then show ?thesis using None by simp
  next
    case (Some d)
    then have "u64_text sig \<in> set ?fs" using fs by auto
    then have "(\<lambda>f. (?sig f, the (?h f))) (u64_text sig) \<in> set ?rows" unfolding set_map by (rule imageI)
    then have "(sig, d) \<in> set ?rows" using Some by simp
    then show ?thesis using Some map_of_is_SomeI [OF d] by simp
  qed
  then have m: "map_of ?rows = ov_rows (garnet_pend g s)"
    by (simp add: garnet_pend_def garnet_view_def idle_db [OF s] fun_eq_iff)
  show "(\<exists>e. garnet_read_snapshot g q s = (Inl e, s)) \<or>
      (\<exists>rows. garnet_read_snapshot g q s = (Inr rows, s) \<and> distinct (map fst rows) \<and> map_of rows = ov_rows (garnet_pend g s))"
  proof (cases "redis_unreachable (gs_server g) (redis s)")
    case None
    have "act_foldl (\<lambda>entries (field, data).
          (case parse_u64 field of Some sig \<Rightarrow> act_return (entries @ [(sig, data)]) | None \<Rightarrow> act_fail Malformed)) []
          (map (\<lambda>f. (f, the (?h f))) ?fs) s =
        (Inr (foldl (\<lambda>entries p. entries @ [(?sig (fst p), snd p)]) [] (map (\<lambda>f. (f, the (?h f))) ?fs)), s)"
    proof (rule act_foldl_run)
      fix a x assume "x \<in> set (map (\<lambda>f. (f, the (?h f))) ?fs)"
      then obtain f where "f \<in> set ?fs" "x = (f, the (?h f))" by auto
      moreover from sig(2) [OF this(1)] obtain n where "parse_u64 f = Some n" ..
      ultimately show "(case x of (field, data) \<Rightarrow>
          (case parse_u64 field of Some sig \<Rightarrow> act_return (a @ [(sig, data)]) | None \<Rightarrow> act_fail Malformed)) s =
          (Inr (a @ [(?sig (fst x), snd x)]), s)" by simp
    qed
    then have "garnet_read_snapshot g q s = (Inr ?rows, s)"
      by (simp add: garnet_read_snapshot_def None foldl_snoc comp_def Let_def)
    then show ?thesis using d m by blast
  qed (simp add: garnet_read_snapshot_def)
qed

lemma read_sources_idle:
  assumes s: "garnet_idle g kind s"
  shows "(\<exists>e. garnet_read_all_checkpoints g s = (Inl e, s)) \<or>
    garnet_read_all_checkpoints g s = (Inr (ov_checkpoints (garnet_view g (contents g s))), s)"
proof (cases "redis_unreachable (gs_server g) (redis s)")
  case (Some e)
  then show ?thesis by (simp add: garnet_read_all_checkpoints_def idle_peek [OF s])
next
  case None
  let ?db = "contents g s"
  let ?cp = "\<lambda>source. map_option (\<lambda>n. \<lparr>cp_sequence = n, cp_source_position = v_string (?db (pos_key g source))\<rparr>)
               (stored_u64 (?db (seq_key g source)))"
  have one: "(\<exists>e. garnet_read_checkpoint g source s = (Inl e, s)) \<or> garnet_read_checkpoint g source s = (Inr (?cp source), s)" for source
    using get_u64_cases [of "seq_key g source" s]
    by (cases "stored_u64 (?db (seq_key g source))") (auto simp: garnet_read_checkpoint_def idle_peek [OF s] None)
  show ?thesis
  proof (cases "v_string (?db (sources_key g))")
    case none: None
    then show ?thesis
      by (simp add: garnet_read_all_checkpoints_def idle_peek [OF s] None garnet_view_def stored_sources_def)
  next
    case (Some v)
    show ?thesis
    proof (cases "gs_dec_sources g v")
      case bad: None
      then show ?thesis by (simp add: garnet_read_all_checkpoints_def idle_peek [OF s] None Some decode_sources_def)
    next
      case ids: (Some ids)
      let ?step = "\<lambda>result source. act_bind (garnet_read_checkpoint g source)
          (\<lambda>cp. act_return (case cp of Some c \<Rightarrow> result(source \<mapsto> c) | None \<Rightarrow> result))"
      have "(\<exists>e. act_foldl ?step Map.empty ids s = (Inl e, s)) \<or>
          act_foldl ?step Map.empty ids s =
            (Inr (foldl (\<lambda>r x. case ?cp x of Some y \<Rightarrow> r(x \<mapsto> y) | None \<Rightarrow> r) Map.empty ids), s)"
      proof (rule act_foldl_reads)
        fix a x
        show "(\<exists>e. ?step a x s = (Inl e, s)) \<or> ?step a x s = (Inr (case ?cp x of Some y \<Rightarrow> a(x \<mapsto> y) | None \<Rightarrow> a), s)"
          using one [of x] by auto
      qed
      moreover have "foldl (\<lambda>r x. case ?cp x of Some y \<Rightarrow> r(x \<mapsto> y) | None \<Rightarrow> r) Map.empty ids = ov_checkpoints (garnet_view g ?db)"
        unfolding foldl_lookups by (auto simp: garnet_view_def stored_sources_def Some ids fun_eq_iff)
      ultimately show ?thesis
        by (simp add: garnet_read_all_checkpoints_def idle_peek [OF s] None Some ids decode_sources_def)
    qed
  qed
qed

lemma read_sources_law:
  "reads (garnet_idle g kind) (garnet_pend g) (\<lambda>v c. c = ov_checkpoints v) (garnet_read_all_checkpoints g)"
  by (rule readsI) (use read_sources_idle in \<open>auto simp: garnet_pend_def idle_db\<close>)

subsection \<open>Writing outside a session\<close>

lemma send_cases:
  obtains (ok) t where "send (gs_server g) c s = (Inr (), t)" "inner t = inner s" "contents g t = exec_command c (contents g s)"
  | (failed) e t where "send (gs_server g) c s = (Inl e, t)" "inner t = inner s" "contents g t = contents g s"
proof (cases "redis_pipeline (gs_server g) [c] (redis s)")
  case (Pair r t)
  show thesis
  proof (cases r)
    case (Inl e)
    with Pair redis_service.pipeline_atomic [OF server, of "[c]" "redis s" e t] failed [of "RedisError e" "s\<lparr>redis := t\<rparr>"]
    show thesis by (simp add: send_def)
  next
    case (Inr u)
    with Pair redis_service.pipeline_applied [OF server, of "[c]" "redis s" u t] ok [of "s\<lparr>redis := t\<rparr>"]
    show thesis by (simp add: send_def)
  qed
qed

lemma idle_cong: "garnet_idle g kind s \<Longrightarrow> inner t = inner s \<Longrightarrow> garnet_good g kind t \<Longrightarrow> garnet_idle g kind t"
  by (simp add: garnet_idle_def)

lemma good_cong: "garnet_good g kind s \<Longrightarrow> contents g t = contents g s \<Longrightarrow> garnet_good g kind t"
  by (simp add: garnet_good_def)

lemma idle_pend: "garnet_idle g kind s \<Longrightarrow> garnet_pend g s = garnet_view g (contents g s)"
  by (simp add: garnet_pend_def idle_db)

lemma good_set:
  "garnet_good g kind s \<Longrightarrow> kind k = StringKey \<Longrightarrow> contents g t = (contents g s)(k \<mapsto> RString v) \<Longrightarrow> garnet_good g kind t"
  using kinds by (auto simp: garnet_good_def db_typed_def box_ok_def rows_ok_def)

lemma good_del:
  assumes "garnet_good g kind s" "contents g t = (contents g s)(k := None)"
    "k = data_key g \<Longrightarrow> v_zset (contents g s (outbox_key g)) = Map.empty"
  shows "garnet_good g kind t"
  using assms by (cases "k = data_key g") (auto simp: garnet_good_def db_typed_def box_ok_def rows_ok_def)

lemma write_u64_law:
  assumes k: "kind k = StringKey" and v: "\<And>db. garnet_view g (db(k \<mapsto> RString (member n))) = f (garnet_view g db)"
  shows "writes (garnet_idle g kind) (garnet_pend g) f (set_u64 g k n)"
  unfolding writes_def
proof (intro allI impI)
  fix s assume s: "garnet_idle g kind s"
  then have good: "garnet_good g kind s" by (simp add: garnet_idle_def)
  show "garnet_idle g kind (snd (set_u64 g k n s)) \<and>
      (\<forall>x t. set_u64 g k n s = (Inr x, t) \<longrightarrow> garnet_pend g t = f (garnet_pend g s))"
  proof (cases rule: send_cases [of "SET k (member n)" s])
    case (ok t)
    then have db: "contents g t = (contents g s)(k \<mapsto> RString (member n))" by (simp add: exec_command_def)
    from idle_cong [OF s ok(2) good_set [OF good k db]] show ?thesis
      using ok(1) v db by (simp add: set_u64_def idle_pend s)
  next
    case (failed e t)
    from idle_cong [OF s failed(2) good_cong [OF good failed(3)]] show ?thesis using failed(1) by (simp add: set_u64_def)
  qed
qed

lemma write_laws:
  "writes (garnet_idle g kind) (garnet_pend g) (\<lambda>v. v\<lparr>ov_config_hash := Some n\<rparr>) (garnet_write_config_hash g n)"
  "writes (garnet_idle g kind) (garnet_pend g) (\<lambda>v. v\<lparr>ov_result_sequence := Some n\<rparr>) (garnet_write_result_sequence g q n)"
  "writes (garnet_idle g kind) (garnet_pend g) (\<lambda>v. v\<lparr>ov_generation := Some n\<rparr>) (garnet_write_output_generation g q n)"
  unfolding garnet_write_config_hash_def garnet_write_result_sequence_def garnet_write_output_generation_def
  by (rule write_u64_law; simp add: kinds garnet_view_def stored_u64_def cong: if_cong)+

lemma del_step:
  assumes "garnet_idle g kind s" "k \<noteq> data_key g \<or> v_zset (contents g s (outbox_key g)) = Map.empty"
  obtains (ok) t where "send (gs_server g) (DEL k) s = (Inr (), t)" "garnet_idle g kind t" "contents g t = (contents g s)(k := None)"
  | (failed) e t where "send (gs_server g) (DEL k) s = (Inl e, t)" "garnet_idle g kind t" "contents g t = contents g s"
proof (cases rule: send_cases [of "DEL k" s])
  case 1: (ok t)
  then have db: "contents g t = (contents g s)(k := None)" by (simp add: exec_command_def)
  have "garnet_good g kind s" using assms(1) by (simp add: garnet_idle_def)
  then have "garnet_good g kind t" by (rule good_del [OF _ db]) (use assms(2) in blast)
  then show thesis using ok [OF 1(1) _ db] idle_cong [OF assms(1) 1(2)] by simp
next
  case 2: (failed e t)
  have "garnet_good g kind s" using assms(1) by (simp add: garnet_idle_def)
  then show thesis using failed [OF 2(1)] idle_cong [OF assms(1) 2(2) good_cong [OF _ 2(3)]] 2(3) by simp
qed

lemma keys_other:
  "outbox_key g \<noteq> data_key g \<or> P" "live_key g \<noteq> data_key g \<or> P" "seq_key g source \<noteq> data_key g \<or> P"
  "pos_key g source \<noteq> data_key g \<or> P" "sources_key g \<noteq> data_key g \<or> P" "config_hash_key g \<noteq> data_key g \<or> P"
  by simp_all

lemma clear_laws:
  "writes (garnet_idle g kind) (garnet_pend g) (\<lambda>v. v\<lparr>ov_outbox := []\<rparr>) (garnet_outbox_clear g q)"
  "writes (garnet_idle g kind) (garnet_pend g) (\<lambda>v. v\<lparr>ov_rows := Map.empty\<rparr>) (garnet_live_clear g q)"
proof -
  show "writes (garnet_idle g kind) (garnet_pend g) (\<lambda>v. v\<lparr>ov_outbox := []\<rparr>) (garnet_outbox_clear g q)"
    unfolding writes_def
  proof (intro allI impI)
    fix s assume s: "garnet_idle g kind s"
    show "garnet_idle g kind (snd (garnet_outbox_clear g q s)) \<and>
        (\<forall>x t. garnet_outbox_clear g q s = (Inr x, t) \<longrightarrow> garnet_pend g t = (garnet_pend g s)\<lparr>ov_outbox := []\<rparr>)"
    proof (cases rule: del_step [OF s, of "outbox_key g", OF keys_other(1)])
      case 2: (1 t)
      have "v_zset (contents g t (outbox_key g)) = Map.empty" by (simp add: 2(3))
      note second = del_step [OF 2(2), of "data_key g", OF disjI2 [OF this]]
      show ?thesis
      proof (cases rule: second)
        case (1 t')
        then show ?thesis using 2 s by (simp add: garnet_outbox_clear_def idle_pend garnet_view_def box_def cong: if_cong)
      next
        case (2 e t')
        then show ?thesis using \<open>send (gs_server g) (DEL (outbox_key g)) s = (Inr (), t)\<close> by (simp add: garnet_outbox_clear_def)
      qed
    next
      case (2 e t)
      then show ?thesis by (simp add: garnet_outbox_clear_def)
    qed
  qed
  show "writes (garnet_idle g kind) (garnet_pend g) (\<lambda>v. v\<lparr>ov_rows := Map.empty\<rparr>) (garnet_live_clear g q)"
    unfolding writes_def
  proof (intro allI impI)
    fix s assume s: "garnet_idle g kind s"
    show "garnet_idle g kind (snd (garnet_live_clear g q s)) \<and>
        (\<forall>x t. garnet_live_clear g q s = (Inr x, t) \<longrightarrow> garnet_pend g t = (garnet_pend g s)\<lparr>ov_rows := Map.empty\<rparr>)"
    proof (cases rule: del_step [OF s, of "live_key g", OF keys_other(2)])
      case 2: (1 t)
      then show ?thesis using s by (simp add: garnet_live_clear_def idle_pend garnet_view_def cong: if_cong)
    next
      case (2 e t)
      then show ?thesis by (simp add: garnet_live_clear_def)
    qed
  qed
qed

lemma clear_loop:
  assumes "garnet_idle g kind s"
    and "act_foldl (\<lambda>_ source. act_bind (send (gs_server g) (DEL (seq_key g source)))
            (\<lambda>_. send (gs_server g) (DEL (pos_key g source)))) () xs s = (r, t)"
  shows "garnet_idle g kind t \<and> (\<forall>k. (\<forall>source. k \<noteq> seq_key g source \<and> k \<noteq> pos_key g source) \<longrightarrow> contents g t k = contents g s k)"
  using assms
proof (induction xs arbitrary: s)
  case (Cons source xs)
  let ?m = "\<lambda>source. act_bind (send (gs_server g) (DEL (seq_key g source))) (\<lambda>_. send (gs_server g) (DEL (pos_key g source)))"
  obtain r1 s1 where m: "?m source s = (r1, s1)" by force
  have "garnet_idle g kind s1 \<and> (\<forall>k. k \<noteq> seq_key g source \<longrightarrow> k \<noteq> pos_key g source \<longrightarrow> contents g s1 k = contents g s k)"
  proof (cases rule: del_step [OF Cons.prems(1), of "seq_key g source", OF keys_other(3)])
    case 2: (1 t1)
    show ?thesis
      by (cases rule: del_step [OF 2(2), of "pos_key g source", OF keys_other(4)]) (use 2 m in auto)
  next
    case (2 e t1)
    then show ?thesis using m by auto
  qed
  note 1 = this
  show ?case
  proof (cases r1)
    case (Inl e)
    then show ?thesis using Cons.prems(2) m 1 by auto
  next
    case (Inr x)
    then have "act_foldl (\<lambda>_. ?m) () xs s1 = (r, t)" using Cons.prems(2) m by simp
    from Cons.IH [OF conjunct1 [OF 1] this] 1 show ?thesis by auto
  qed
qed simp

lemma clear_sources_law:
  "writes (garnet_idle g kind) (\<lambda>s. (garnet_pend g s)\<lparr>ov_result_sequence := None, ov_generation := None\<rparr>)
     (\<lambda>v. v\<lparr>ov_checkpoints := Map.empty, ov_config_hash := None\<rparr>) (garnet_clear_checkpoints g)"
  unfolding writes_def
proof (intro allI impI)
  fix s assume s: "garnet_idle g kind s"
  let ?mask = "\<lambda>v. v\<lparr>ov_result_sequence := None, ov_generation := None\<rparr>"
  let ?loop = "\<lambda>xs. act_foldl (\<lambda>_ source. act_bind (send (gs_server g) (DEL (seq_key g source)))
            (\<lambda>_. send (gs_server g) (DEL (pos_key g source)))) () xs"
  show "garnet_idle g kind (snd (garnet_clear_checkpoints g s)) \<and> (\<forall>x t. garnet_clear_checkpoints g s = (Inr x, t) \<longrightarrow>
      ?mask (garnet_pend g t) = (?mask (garnet_pend g s))\<lparr>ov_checkpoints := Map.empty, ov_config_hash := None\<rparr>)"
  proof (cases "fst (garnet_read_all_checkpoints g s)")
    case (Inl e)
    then have "garnet_read_all_checkpoints g s = (Inl e, s)" using read_sources_idle [OF s] by auto
    then show ?thesis using s by (simp add: garnet_clear_checkpoints_def)
  next
    case (Inr all)
    then have read: "garnet_read_all_checkpoints g s = (Inr all, s)" using read_sources_idle [OF s] by auto
    let ?xs = "string_iter (gs_iters g) (dom all)"
    obtain r1 s1 where loop: "?loop ?xs s = (r1, s1)" by force
    note 1 = clear_loop [OF s loop]
    show ?thesis
    proof (cases r1)
      case (Inl e)
      then show ?thesis using read loop 1 by (simp add: garnet_clear_checkpoints_def)
    next
      case ok: (Inr u)
      note run = garnet_clear_checkpoints_def read loop ok
      show ?thesis
      proof (cases rule: del_step [OF conjunct1 [OF 1], of "sources_key g", OF keys_other(5)])
        case t2: (1 t2)
        show ?thesis
        proof (cases rule: del_step [OF t2(2), of "config_hash_key g", OF keys_other(6)])
          case t3: (1 t3)
          have "contents g t3 k = (if k = sources_key g \<or> k = config_hash_key g then None else contents g s k)"
            if "\<forall>source. k \<noteq> seq_key g source \<and> k \<noteq> pos_key g source" for k
            using 1 that by (simp add: t3(3) t2(3))
          then have "?mask (garnet_view g (contents g t3)) =
              (?mask (garnet_view g (contents g s)))\<lparr>ov_checkpoints := Map.empty, ov_config_hash := None\<rparr>"
            by (simp add: garnet_view_def stored_sources_def stored_u64_def)
          then show ?thesis using t2(1) t3(1,2) s by (simp add: run idle_pend)
        next
          case (2 e t3)
          then show ?thesis using t2(1) by (simp add: run)
        qed
      next
        case (2 e t2)
        then show ?thesis by (simp add: run)
      qed
    qed
  qed
qed

subsection \<open>Staging\<close>

lemma activeE:
  assumes "garnet_active g kind s"
  obtains b where "inner s = \<lparr>ses_buffer = Some b, ses_depth = 1\<rparr>" "buffer_ok kind b"
    "session_db g s = overlay b (contents g s)" "box_ok g (overlay b (contents g s))" "rows_ok g (overlay b (contents g s))"
  using assms by (auto simp: garnet_active_def session_db_def)

lemma buffer_write_run:
  "inner s = \<lparr>ses_buffer = Some b, ses_depth = n\<rparr> \<Longrightarrow>
     buffer_write f s = (Inr (), s\<lparr>inner := \<lparr>ses_buffer = Some (f b), ses_depth = n\<rparr>\<rparr>)"
  by (simp add: buffer_write_def with_active_buffer_required_def with_active_buffer_def act_bind_def)

lemma restage:
  assumes "garnet_active g kind s" "buffer_ok kind b'"
    "box_ok g (overlay b' (contents g s))" "rows_ok g (overlay b' (contents g s))"
    "t = s\<lparr>inner := \<lparr>ses_buffer = Some b', ses_depth = 1\<rparr>\<rparr>"
  shows "garnet_active g kind t" "garnet_pend g t = garnet_view g (overlay b' (contents g s))" "garnet_stored g t = garnet_stored g s"
  using assms by (auto simp: garnet_active_def garnet_good_def garnet_pend_def garnet_stored_def session_db_def)

text \<open>Staging under keys that are neither of the outbox nor of the live results.\<close>

lemma restage_other:
  assumes s: "garnet_active g kind s" "inner s = \<lparr>ses_buffer = Some b, ses_depth = 1\<rparr>" "buffer_ok kind b'"
    and same: "\<And>k. k \<in> {outbox_key g, data_key g, live_key g} \<Longrightarrow> buf_keys b' k = buf_keys b k \<and> (k \<in> cleared_keys b' \<longleftrightarrow> k \<in> cleared_keys b)"
    and t: "t = s\<lparr>inner := \<lparr>ses_buffer = Some b', ses_depth = 1\<rparr>\<rparr>"
  shows "garnet_active g kind t" "garnet_ready g kind s \<Longrightarrow> garnet_ready g kind t"
    "garnet_pend g t = garnet_view g (overlay b' (contents g s))" "garnet_stored g t = garnet_stored g s"
proof -
  have eq: "overlay b' (contents g s) k = overlay b (contents g s) k" if "k \<in> {outbox_key g, data_key g, live_key g}" for k
    using same [OF that] by (auto simp: overlay_def split: option.split)
  from s(1) have "box_ok g (overlay b (contents g s))" "rows_ok g (overlay b (contents g s))"
    using s(2) by (auto simp: garnet_active_def session_db_def)
  then have ok: "box_ok g (overlay b' (contents g s))" "rows_ok g (overlay b' (contents g s))"
    using eq by (auto simp: box_ok_def rows_ok_def)
  show "garnet_active g kind t" "garnet_pend g t = garnet_view g (overlay b' (contents g s))" "garnet_stored g t = garnet_stored g s"
    by (rule restage [OF s(1,3) ok t])+
  then show "garnet_ready g kind s \<Longrightarrow> garnet_ready g kind t"
    using same [of "outbox_key g"] same [of "data_key g"] by (auto simp: garnet_ready_def t s(2))
qed

lemma put_other: "k \<noteq> j \<Longrightarrow> buf_keys (put_key j st b) k = buf_keys b k" "cleared_keys (put_key j st b) = cleared_keys b"
  by (simp_all add: put_key_def)

lemma stage_sequence_law:
  "stages (garnet_active g kind) (garnet_pend g) (garnet_stored g) (garnet_active g kind) w (garnet_active g kind)
     (\<lambda>_. w\<lparr>ov_result_sequence := Some n\<rparr>) (garnet_stage_result_sequence g q n)"
proof (rule stagesI)
  fix s assume s: "garnet_active g kind s" "garnet_pend g s = w"
  from s(1) obtain b where b: "inner s = \<lparr>ses_buffer = Some b, ses_depth = 1\<rparr>" "buffer_ok kind b"
    "session_db g s = overlay b (contents g s)" by (rule activeE)
  let ?k = "result_sequence_key g" and ?b = "string_set (result_sequence_key g) (member n) b"
  let ?t = "s\<lparr>inner := \<lparr>ses_buffer = Some ?b, ses_depth = 1\<rparr>\<rparr>"
  have ok: "buffer_ok kind ?b" by (rule buffer_ok_ops [OF b(2)]) (rule kinds)
  have "buf_keys ?b k = buf_keys b k \<and> (k \<in> cleared_keys ?b \<longleftrightarrow> k \<in> cleared_keys b)"
    if "k \<in> {outbox_key g, data_key g, live_key g}" for k
    using that by (auto simp: string_set_def put_key_def)
  note staged = restage_other [OF s(1) b(1) ok this refl]
  have "garnet_stage_result_sequence g q n s = (Inr (), ?t)"
    by (simp add: garnet_stage_result_sequence_def with_active_buffer_def b(1) act_bind_def)
  moreover have "garnet_view g (overlay ?b (contents g s)) = w\<lparr>ov_result_sequence := Some n\<rparr>"
    using s(2) by (auto simp: string_set_refines exec_command_def garnet_pend_def b(3) garnet_view_def stored_u64_def cong: if_cong)
  ultimately show "\<exists>x t. garnet_stage_result_sequence g q n s = (Inr x, t) \<and> garnet_stored g t = garnet_stored g s \<and>
      garnet_active g kind t \<and> garnet_pend g t = w\<lparr>ov_result_sequence := Some n\<rparr>"
    using staged by auto
qed

lemma mutate_fold:
  assumes "buffer_ok kind b"
  shows "buffer_ok kind (fold (\<lambda>(sig, data) b. case data of Some d \<Rightarrow> hash_set (live_key g) (u64_text sig) d b
        | None \<Rightarrow> hash_del (live_key g) (u64_text sig) b) ms b) \<and>
    overlay (fold (\<lambda>(sig, data) b. case data of Some d \<Rightarrow> hash_set (live_key g) (u64_text sig) d b
        | None \<Rightarrow> hash_del (live_key g) (u64_text sig) b) ms b) db = exec_rows g ms (overlay b db)"
  using assms
proof (induction ms arbitrary: b)
  case (Cons m ms)
  obtain sig data where m: "m = (sig, data)" by (cases m)
  show ?case
  proof (cases data)
    case None
    have "buffer_ok kind (hash_del (live_key g) (u64_text sig) b)" by (rule buffer_ok_ops [OF Cons.prems]) (rule kinds)
    from Cons.IH [OF this] show ?thesis by (simp add: m None exec_rows_def hash_del_refines [OF Cons.prems kinds(3)])
  next
    case (Some d)
    have "buffer_ok kind (hash_set (live_key g) (u64_text sig) d b)" by (rule buffer_ok_ops [OF Cons.prems]) (rule kinds)
    from Cons.IH [OF this] show ?thesis by (simp add: m Some exec_rows_def hash_set_refines [OF Cons.prems kinds(3)])
  qed
qed (simp add: exec_rows_def)

lemma exec_mutations:
  "k \<noteq> live_key g \<Longrightarrow> exec_rows g ms db k = db k"
  "(\<lambda>sig. v_hash (exec_rows g ms db (live_key g)) (u64_text sig)) =
     fold (\<lambda>(sig, d) rows. rows(sig := d)) ms (\<lambda>sig. v_hash (db (live_key g)) (u64_text sig))"
  "rows_ok g db \<Longrightarrow> rows_ok g (exec_rows g ms db)"
proof -
  have one: "exec_command (case data of Some d \<Rightarrow> HSET (live_key g) [(u64_text sig, d)] | None \<Rightarrow> HDEL (live_key g) [u64_text sig]) db =
      db(live_key g := mk_hash ((v_hash (db (live_key g)))(u64_text sig := data)))" for data sig and db :: "'f redis_db"
    by (cases data) (simp_all add: exec_command_def)
  have rows: "exec_rows g = fold (\<lambda>(sig, data) db. db(live_key g := mk_hash ((v_hash (db (live_key g)))(u64_text sig := data))))"
    unfolding exec_rows_def by (rule arg_cong [where f = fold], intro ext) (simp add: case_prod_unfold one del: fun_upd_apply)
  show "k \<noteq> live_key g \<Longrightarrow> exec_rows g ms db k = db k" unfolding rows
    by (induction ms arbitrary: db) auto
  show "(\<lambda>sig. v_hash (exec_rows g ms db (live_key g)) (u64_text sig)) =
      fold (\<lambda>(sig, d) rows. rows(sig := d)) ms (\<lambda>sig. v_hash (db (live_key g)) (u64_text sig))" unfolding rows
  proof (induction ms arbitrary: db)
    case (Cons m ms)
    obtain sig data where m: "m = (sig, data)" by (cases m)
    have "(\<lambda>x. ((v_hash (db (live_key g)))(u64_text sig := data)) (u64_text x)) =
        (\<lambda>x. v_hash (db (live_key g)) (u64_text x))(sig := data)" by (auto simp: fun_eq_iff)
    then show ?case unfolding m fold_simps prod.case Cons.IH by simp
  qed simp
  show "rows_ok g db \<Longrightarrow> rows_ok g (exec_rows g ms db)" unfolding rows
  proof (induction ms arbitrary: db)
    case (Cons m ms)
    obtain sig data where m: "m = (sig, data)" by (cases m)
    have "rows_ok g (db(live_key g := mk_hash ((v_hash (db (live_key g)))(u64_text sig := data))))"
      using Cons.prems by (auto simp: rows_ok_def dom_def split: if_splits)
    then show ?case unfolding m fold_simps prod.case by (rule Cons.IH)
  qed simp
qed

lemma stage_rows_law:
  "stages (garnet_active g kind) (garnet_pend g) (garnet_stored g) (garnet_active g kind) w (garnet_active g kind)
     (\<lambda>_. v_mutate ms w) (garnet_apply_mutations g q ms)"
proof (rule stagesI)
  fix s assume s: "garnet_active g kind s" "garnet_pend g s = w"
  from s(1) obtain b where b: "inner s = \<lparr>ses_buffer = Some b, ses_depth = 1\<rparr>" "buffer_ok kind b"
    "session_db g s = overlay b (contents g s)" "box_ok g (overlay b (contents g s))" "rows_ok g (overlay b (contents g s))"
    by (rule activeE)
  let ?b = "fold (\<lambda>(sig, data) b. case data of Some d \<Rightarrow> hash_set (live_key g) (u64_text sig) d b
        | None \<Rightarrow> hash_del (live_key g) (u64_text sig) b) ms b"
  let ?t = "s\<lparr>inner := \<lparr>ses_buffer = Some ?b, ses_depth = 1\<rparr>\<rparr>"
  have ok: "buffer_ok kind ?b" and db: "overlay ?b (contents g s) = exec_rows g ms (overlay b (contents g s))"
    using mutate_fold [OF b(2)] by auto
  have "box_ok g (overlay ?b (contents g s))" "rows_ok g (overlay ?b (contents g s))"
    using b(4,5) exec_mutations(3) by (simp_all add: db box_ok_def exec_mutations(1))
  note staged = restage [OF s(1) ok this refl]
  have "garnet_view g (overlay ?b (contents g s)) = v_mutate ms w"
    using s(2) by (auto simp: db garnet_pend_def b(3) garnet_view_def exec_mutations v_mutate_def cong: if_cong)
  moreover have "garnet_apply_mutations g q ms s = (Inr (), ?t)"
    using buffer_write_run [OF b(1)] by (simp add: garnet_apply_mutations_def attached)
  ultimately show "\<exists>x t. garnet_apply_mutations g q ms s = (Inr x, t) \<and> garnet_stored g t = garnet_stored g s \<and>
      garnet_active g kind t \<and> garnet_pend g t = v_mutate ms w" using staged by auto
qed

lemma stage_source_law:
  "stages (garnet_active g kind) (garnet_pend g) (garnet_stored g) (garnet_ready g kind) w (garnet_ready g kind)
     (\<lambda>_. v_checkpoint source n pos w) (garnet_stage_checkpoint g source n pos)"
  unfolding stages_def
proof (intro allI impI)
  fix s r t
  assume s: "garnet_ready g kind s" "garnet_pend g s = w" and run: "garnet_stage_checkpoint g source n pos s = (r, t)"
  have active: "garnet_active g kind s" using s(1) by (simp add: garnet_ready_def)
  then obtain b where b: "inner s = \<lparr>ses_buffer = Some b, ses_depth = 1\<rparr>" "buffer_ok kind b"
    "session_db g s = overlay b (contents g s)" by (rule activeE)
  let ?db = "overlay b (contents g s)"
  define b1 where "b1 = string_set (seq_key g source) (member n) b"
  define b2 where "b2 = (case pos of Some p \<Rightarrow> string_set (pos_key g source) p | None \<Rightarrow> del_key (pos_key g source)) b1"
  have ok1: "buffer_ok kind b1" unfolding b1_def by (rule buffer_ok_ops [OF b(2)]) (rule kinds)
  have ok2: "buffer_ok kind b2" unfolding b2_def by (cases pos) (auto intro: buffer_ok_ops [OF ok1] kinds)
  have db2: "overlay b2 (contents g s) = ?db(seq_key g source \<mapsto> RString (member n), pos_key g source := map_option RString pos)"
    by (cases pos) (simp_all add: b1_def b2_def string_set_refines del_key_refines exec_command_def)
  have same: "buf_keys b2 k = buf_keys b k \<and> (k \<in> cleared_keys b2 \<longleftrightarrow> k \<in> cleared_keys b)"
    if "k \<in> {outbox_key g, data_key g, live_key g}" for k
    using that by (cases pos) (auto simp: b1_def b2_def string_set_def del_key_def put_key_def)
  let ?s2 = "s\<lparr>inner := \<lparr>ses_buffer = Some b2, ses_depth = 1\<rparr>\<rparr>"
  note at2 = restage_other [OF active b(1) ok2 same refl]
  show "garnet_stored g t = garnet_stored g s \<and>
      (case r of Inl _ \<Rightarrow> garnet_active g kind t | Inr x \<Rightarrow> garnet_ready g kind t \<and> garnet_pend g t = v_checkpoint source n pos w)"
  proof (cases "redis_unreachable (gs_server g) (redis s)")
    case (Some e)
    then have "r = Inl (RedisError e)" "t = s" using run by (simp_all add: garnet_stage_checkpoint_def)
    then show ?thesis using active by simp
  next
    case up: None
    define cur where "cur = v_string (?db (sources_key g))"
    have cur: "(case string_get b2 (sources_key g) of Found v \<Rightarrow> Some v | KeyDeleted \<Rightarrow> None
        | NotInBuffer \<Rightarrow> v_string (contents g s (sources_key g))) = cur"
      using string_get_overlay [OF ok2 kinds(6), of "contents g s"]
      by (cases "string_get b2 (sources_key g)") (simp_all add: cur_def db2)
    define ids where "ids = (case cur of Some v \<Rightarrow> if v \<noteq> [] then gs_dec_sources g v else Some [] | None \<Rightarrow> Some [])"
    have run2: "garnet_stage_checkpoint g source n pos s =
        (case ids of
           Some xs \<Rightarrow> buffer_write (string_set (sources_key g) (gs_enc_sources g (if source \<in> set xs then xs else xs @ [source]))) ?s2
         | None \<Rightarrow> (Inl Malformed, ?s2))"
    proof -
      let ?s1 = "s\<lparr>inner := \<lparr>ses_buffer = Some b1, ses_depth = 1\<rparr>\<rparr>"
      have w1: "buffer_write (string_set (seq_key g source) (member n)) s = (Inr (), ?s1)"
        using buffer_write_run [OF b(1)] by (simp add: b1_def)
      have w2: "buffer_write (case pos of Some p \<Rightarrow> string_set (pos_key g source) p | None \<Rightarrow> del_key (pos_key g source)) ?s1 = (Inr (), ?s2)"
        using buffer_write_run [of ?s1 b1 1] by (simp add: b2_def)
      have r: "buffer_read (\<lambda>b. string_get b (sources_key g)) ?s2 = (Inr (string_get b2 (sources_key g)), ?s2)"
        by (simp add: buffer_read_def)
      show ?thesis
        by (simp add: garnet_stage_checkpoint_def up Let_def w1 w2 r cur)
          (auto simp: ids_def decode_sources_def split: option.split)
    qed
    show ?thesis
    proof (cases ids)
      case None
      then show ?thesis using run run2 at2(1,4) by auto
    next
      case (Some xs)
      let ?xs = "if source \<in> set xs then xs else xs @ [source]"
      let ?b3 = "string_set (sources_key g) (gs_enc_sources g ?xs) b2"
      have ok3: "buffer_ok kind ?b3" by (rule buffer_ok_ops [OF ok2]) (rule kinds)
      have "buf_keys ?b3 k = buf_keys b k \<and> (k \<in> cleared_keys ?b3 \<longleftrightarrow> k \<in> cleared_keys b)"
        if "k \<in> {outbox_key g, data_key g, live_key g}" for k
        using same [OF that] that by (auto simp: string_set_def put_key_def)
      note at3 = restage_other [OF active b(1) ok3 this refl]
      have res: "r = Inr ()" "t = s\<lparr>inner := \<lparr>ses_buffer = Some ?b3, ses_depth = 1\<rparr>\<rparr>"
        using run [unfolded run2 Some option.case] by (simp_all add: buffer_write_run [of ?s2 b2 1])
      have xs: "stored_sources g (?db (sources_key g)) = xs"
        using Some sources(2) by (auto simp: stored_sources_def ids_def cur_def split: option.splits if_splits)
      have new: "stored_sources g (Some (RString (gs_enc_sources g ?xs))) = ?xs" by (simp add: stored_sources_def sources)
      have u: "stored_u64 (Some (RString (member n))) = Some n" by (simp add: stored_u64_def)
      have p: "v_string (map_option RString pos) = pos" by (cases pos) simp_all
      have w: "w = garnet_view g ?db" using s(2) b(3) by (simp add: garnet_pend_def)
      have "garnet_view g (overlay ?b3 (contents g s)) = v_checkpoint source n pos w"
        unfolding string_set_refines db2 exec_command_def w
        by (auto simp: garnet_view_def v_checkpoint_def new xs u p fun_eq_iff)
      then show ?thesis using at3(2) [OF _ s(1)] at3(3,4) by (simp add: res)
    qed
  qed
qed

text \<open>Removing sequences, none of which is both on the server and added in the session.\<close>

lemma remove_fold:
  assumes "buffer_ok kind b"
    and "\<And>added removed m. buf_keys b (outbox_key g) = Some (SortedSetState added removed) \<Longrightarrow> m \<in> dom added \<Longrightarrow>
      v_zset (db (outbox_key g)) m = None"
  shows "buffer_ok kind (fold (\<lambda>x b. hash_del (data_key g) x (zset_remove (outbox_key g) (text_bytes x) b)) xs b) \<and>
    overlay (fold (\<lambda>x b. hash_del (data_key g) x (zset_remove (outbox_key g) (text_bytes x) b)) xs b) db =
      fold (\<lambda>x db. exec_command (HDEL (data_key g) [x]) (exec_command (ZREM (outbox_key g) [text_bytes x]) db)) xs (overlay b db)"
  using assms
proof (induction xs arbitrary: b)
  case (Cons x xs)
  let ?b1 = "zset_remove (outbox_key g) (text_bytes x) b"
  let ?b2 = "hash_del (data_key g) x ?b1"
  have ok1: "buffer_ok kind ?b1" by (rule buffer_ok_ops [OF Cons.prems(1)]) (rule kinds)
  have ok2: "buffer_ok kind ?b2" by (rule buffer_ok_ops [OF ok1]) (rule kinds)
  have "overlay ?b2 db = exec_command (HDEL (data_key g) [x]) (exec_command (ZREM (outbox_key g) [text_bytes x]) (overlay b db))"
    unfolding hash_del_refines [OF ok1 kinds(2)]
    by (rule arg_cong [where f = "exec_command (HDEL (data_key g) [x])"], rule zset_remove_refines [OF Cons.prems(1) kinds(1)])
      (rule Cons.prems(2))
  moreover have "v_zset (db (outbox_key g)) m = None"
    if "buf_keys ?b2 (outbox_key g) = Some (SortedSetState added removed)" "m \<in> dom added" for added removed m
  proof -
    have "buf_keys ?b2 (outbox_key g) = buf_keys ?b1 (outbox_key g)"
      by (auto simp: hash_del_def put_key_def split: option.split key_state.split)
    with that Cons.prems(2) show ?thesis
      by (auto simp: zset_remove_def put_key_def split: option.splits key_state.splits if_splits)
  qed
  ultimately show ?case using Cons.IH [OF ok2] by simp
qed simp

lemma exec_removals:
  fixes db :: "'f redis_db"
  shows "v_zset (fold (\<lambda>x db. exec_command (HDEL (data_key g) [x]) (exec_command (ZREM (outbox_key g) [text_bytes x]) db)) xs db (outbox_key g)) m =
      (if m \<in> text_bytes ` set xs then None else v_zset (db (outbox_key g)) m)"
    and "v_hash (fold (\<lambda>x db. exec_command (HDEL (data_key g) [x]) (exec_command (ZREM (outbox_key g) [text_bytes x]) db)) xs db (data_key g)) f =
      (if f \<in> set xs then None else v_hash (db (data_key g)) f)"
    and "k \<noteq> outbox_key g \<Longrightarrow> k \<noteq> data_key g \<Longrightarrow>
      fold (\<lambda>x db. exec_command (HDEL (data_key g) [x]) (exec_command (ZREM (outbox_key g) [text_bytes x]) db)) xs db k = db k"
  by (induction xs arbitrary: db) (simp_all add: exec_command_def)

lemma committed_run:
  assumes "box_ok g (contents g s)" "redis_unreachable (gs_server g) (redis s) = None"
  shows "committed_sequences g s = (Inr (sorted_list_of_set {k. member k \<in> dom (v_zset (contents g s (outbox_key g)))}), s)"
proof -
  let ?ks = "sorted_list_of_set {k. member k \<in> dom (v_zset (contents g s (outbox_key g)))}"
  have "act_foldl (\<lambda>ns m. act_bind (parse_member m) (\<lambda>n. act_return (ns @ [n]))) [] (map member ?ks) s =
      (Inr (foldl (\<lambda>ns m. ns @ [the (parse_u64 (bytes_text m))]) [] (map member ?ks)), s)"
    by (rule act_foldl_run) auto
  then show ?thesis
    by (simp add: committed_sequences_def assms(2) zrange_box [OF assms(1)] foldl_snoc comp_def)
qed

end

end
