(* ===== verification/Garnet_Recovery.thy ===== *)
theory Garnet_Recovery
  imports Garnet_Laws
begin

text \<open>
  The Garnet stores take part in the session of the backend as the query manager expects it.
\<close>

lemma outbox_operations [simp]:
  "ob_read_from (garnet_outbox_writer g) = garnet_read_from g"
  "ob_read_latest_sequence (garnet_outbox_writer g) = garnet_read_latest_sequence g"
  "ob_clear (garnet_outbox_writer g) = garnet_outbox_clear g"
  by (simp_all add: garnet_outbox_writer_def)

lemma new_buffer_keys [simp]: "buf_keys new_buffer k = None"
  by (simp add: new_buffer_def)

lemma overlay_typed:
  assumes b: "buffer_ok kind b" and db: "db_typed kind db"
  shows "db_typed kind (overlay b db)"
  unfolding db_typed_def
proof (intro allI impI)
  fix k v assume v: "overlay b db k = Some v"
  show "value_kind v = kind k \<and> v \<noteq> RHash Map.empty \<and> v \<noteq> RSet {} \<and> v \<noteq> RZSet Map.empty"
  proof (cases "buf_keys b k")
    case None
    with v db show ?thesis by (simp add: overlay_def db_typed_def)
  next
    case (Some st)
    with buffer_ok_state [OF b Some] v show ?thesis
      by (cases st) (auto simp: overlay_def overlay_key_def Let_def mk_hash_def mk_set_def mk_zset_def split: if_splits)
  qed
qed

context garnet_stores
begin

lemma append_staged:
  assumes s: "garnet_ready g kind s" and lt: "\<forall>k \<in> fst ` set (ov_outbox (garnet_pend g s)). k < n" and n: "unat n < 2 ^ 53"
  obtains b t where "garnet_append g q n d s = (Inr (), t)" "garnet_active g kind t"
    "t = s\<lparr>inner := \<lparr>ses_buffer = Some b, ses_depth = 1\<rparr>\<rparr>" "buffer_ok kind b"
    "buf_keys b (outbox_key g) = Some (SortedSetState [member n \<mapsto> gs_score g n] {})" "outbox_key g \<notin> cleared_keys b"
    "overlay b (contents g s) = exec_command (HSET (data_key g) [(u64_text n, d)])
      (exec_command (ZADD (outbox_key g) [(gs_score g n, member n)]) (session_db g s))"
    "session_db g s (outbox_key g) = contents g s (outbox_key g)" "v_zset (contents g s (outbox_key g)) (member n) = None"
proof -
  have active: "garnet_active g kind s" using s by (simp add: garnet_ready_def)
  then obtain b where b: "inner s = \<lparr>ses_buffer = Some b, ses_depth = 1\<rparr>" "buffer_ok kind b"
    "session_db g s = overlay b (contents g s)" "box_ok g (overlay b (contents g s))" "rows_ok g (overlay b (contents g s))"
    by (rule activeE)
  have no: "buf_keys b (outbox_key g) = None" "buf_keys b (data_key g) = None" using s b(1) by (simp_all add: garnet_ready_def)
  then have cl: "outbox_key g \<notin> cleared_keys b" using b(2) by (auto simp: buffer_ok_def)
  let ?b1 = "zset_add (outbox_key g) (member n) (gs_score g n) b"
  let ?b2 = "hash_set (data_key g) (u64_text n) d ?b1"
  let ?t = "s\<lparr>inner := \<lparr>ses_buffer = Some ?b2, ses_depth = 1\<rparr>\<rparr>"
  have ok1: "buffer_ok kind ?b1" by (rule buffer_ok_ops [OF b(2)]) (rule kinds)
  have ok2: "buffer_ok kind ?b2" by (rule buffer_ok_ops [OF ok1]) (rule kinds)
  have db: "overlay ?b2 (contents g s) = exec_command (HSET (data_key g) [(u64_text n, d)])
      (exec_command (ZADD (outbox_key g) [(gs_score g n, member n)]) (overlay b (contents g s)))"
    unfolding hash_set_refines [OF ok1 kinds(2)] zset_add_refines [OF b(2) kinds(1)] ..
  have box: "box_ok g (overlay ?b2 (contents g s))"
    unfolding box_ok_def
  proof (intro allI impI)
    fix m x assume "v_zset (overlay ?b2 (contents g s) (outbox_key g)) m = Some x"
    then consider "m = member n" "x = gs_score g n" | "m \<noteq> member n" "v_zset (overlay b (contents g s) (outbox_key g)) m = Some x"
      by (auto simp: db exec_command_def split: if_splits)
    then show "\<exists>n. m = member n \<and> x = gs_score g n \<and> unat n < 2 ^ 53 \<and> v_hash (overlay ?b2 (contents g s) (data_key g)) (u64_text n) \<noteq> None"
    proof cases
      case 1
      then show ?thesis using n by (intro exI [of _ n]) (simp add: db exec_command_def)
    next
      case 2
      then obtain k where "m = member k" "x = gs_score g k" "unat k < 2 ^ 53" "v_hash (overlay b (contents g s) (data_key g)) (u64_text k) \<noteq> None"
        using b(4) unfolding box_ok_def by blast
      then show ?thesis by (intro exI [of _ k]) (simp add: db exec_command_def)
    qed
  qed
  have rows: "rows_ok g (overlay ?b2 (contents g s))" using b(5) by (simp add: db exec_command_def rows_ok_def)
  have fresh: "v_zset (contents g s (outbox_key g)) (member n) = None"
  proof (rule ccontr)
    assume "\<not> ?thesis"
    then have "member n \<in> dom (v_zset (overlay b (contents g s) (outbox_key g)))" using no by (simp add: overlay_def domIff)
    then have "n \<in> fst ` set (ov_outbox (garnet_pend g s))"
      by (simp add: garnet_pend_def garnet_view_def b(3) box_def image_image)
    with lt show False by blast
  qed
  show thesis
  proof (rule that [of ?t ?b2])
    show "garnet_append g q n d s = (Inr (), ?t)"
      using buffer_write_run [OF b(1)] by (simp add: garnet_append_def attached Let_def)
    show "garnet_active g kind ?t" by (rule restage [OF active ok2 box rows refl])
    show "buf_keys ?b2 (outbox_key g) = Some (SortedSetState [member n \<mapsto> gs_score g n] {})"
      using no by (auto simp: hash_set_def zset_add_def put_key_def split: option.split key_state.split)
    show "outbox_key g \<notin> cleared_keys ?b2"
      using no cl by (auto simp: hash_set_def zset_add_def put_key_def split: option.split key_state.split)
    show "session_db g s (outbox_key g) = contents g s (outbox_key g)" using no by (simp add: b(3) overlay_def)
  qed (use ok2 db b(3) fresh in simp_all)
qed

lemma trim_run:
  assumes t: "inner t = \<lparr>ses_buffer = Some b, ses_depth = 1\<rparr>" "box_ok g (contents g t)"
    and b: "buf_keys b (outbox_key g) = Some (SortedSetState [member n \<mapsto> x] {})" "outbox_key g \<notin> cleared_keys b"
    and up: "redis_unreachable (gs_server g) (redis t) = None"
    and S: "S = insert n {k. member k \<in> dom (v_zset (contents g t (outbox_key g)))}"
  shows "\<exists>r. garnet_trim_before g q m t = (Inr r, t\<lparr>inner := \<lparr>ses_buffer =
      Some (fold (\<lambda>x b. hash_del (data_key g) x (zset_remove (outbox_key g) (text_bytes x) b))
        (map u64_text (filter (\<lambda>k. k < m) (sorted_list_of_set S))) b), ses_depth = 1\<rparr>\<rparr>)"
proof -
  let ?xs = "map u64_text (filter (\<lambda>k. k < m) (sorted_list_of_set S))"
  have over: "buffer_overlay g t = (Inr (Some \<lparr>zdeltas_added = [member n \<mapsto> x], zdeltas_removed = {}, zdeltas_full_replace = False\<rparr>), t)"
    using t(1) b by (simp add: buffer_overlay_def attached with_active_buffer_def zset_get_deltas_def act_bind_def)
  have eq: "({k. member k \<in> dom (v_zset (contents g t (outbox_key g)))} - Option.these (parse_seq ` {})) \<union>
      Option.these (parse_seq ` dom [member n \<mapsto> x]) = S"
    by (auto simp: S parse_seq_def Option.these_def image_iff)
  have merge: "merge_sequences (sorted_list_of_set {k. member k \<in> dom (v_zset (contents g t (outbox_key g)))})
      (Some \<lparr>zdeltas_added = [member n \<mapsto> x], zdeltas_removed = {}, zdeltas_full_replace = False\<rparr>) = sorted_list_of_set S"
    unfolding eq [symmetric] by (simp add: merge_sequences_def Let_def)
  have "garnet_trim_before g q m t = act_bind (remove_sequences g ?xs) (\<lambda>_. act_return (length ?xs)) t"
    by (simp add: garnet_trim_before_def Let_def committed_run [OF t(2) up] over merge)
  moreover have "remove_sequences g ?xs t = (Inr (), t\<lparr>inner := \<lparr>ses_buffer =
      Some (fold (\<lambda>x b. hash_del (data_key g) x (zset_remove (outbox_key g) (text_bytes x) b)) ?xs b), ses_depth = 1\<rparr>\<rparr>)"
  proof (cases "?xs = []")
    case True
    then show ?thesis using t(1) by (simp add: remove_sequences_def)
  next
    case False
    then show ?thesis using t(1) unfolding remove_sequences_def
      by (simp add: attached with_active_buffer_def act_bind_def)
  qed
  ultimately show ?thesis by simp
qed

text \<open>The commands of an emission change the view as an append and a trim.\<close>

lemma append_view:
  assumes "\<forall>k \<in> fst ` set (ov_outbox (garnet_view g db)). k < n"
  shows "garnet_view g (exec_command (HSET (data_key g) [(u64_text n, d)])
      (exec_command (ZADD (outbox_key g) [(x, member n)]) db)) = v_append n d (garnet_view g db)"
  using box_append [of "v_zset (db (outbox_key g))" "v_hash (db (data_key g))" n x d] assms
  by (simp add: garnet_view_def v_append_def exec_command_def cong: if_cong)

lemma removals_view:
  fixes db :: "'f redis_db" and m :: u64
  assumes S: "S = {k. member k \<in> dom (v_zset (db (outbox_key g)))}" and ok: "box_ok g db" "rows_ok g db"
  defines "db' \<equiv> fold (\<lambda>x db. exec_command (HDEL (data_key g) [x]) (exec_command (ZREM (outbox_key g) [text_bytes x]) db))
      (map u64_text (filter (\<lambda>k. k < m) (sorted_list_of_set S))) db"
  shows "garnet_view g db' = v_trim m (garnet_view g db)" "box_ok g db'" "rows_ok g db'"
proof -
  let ?Z = "v_zset (db (outbox_key g))" and ?H = "v_hash (db (data_key g))"
  have Z: "v_zset (db' (outbox_key g)) (member k) = (if k < m then None else ?Z (member k))" for k
    by (auto simp: db'_def exec_removals(1) S image_iff)
  have H: "v_hash (db' (data_key g)) (u64_text k) = ?H (u64_text k)" if "m \<le> k" for k
    using that by (auto simp: db'_def exec_removals(2) image_iff)
  have other: "db' k = db k" if "k \<noteq> outbox_key g" "k \<noteq> data_key g" for k
    using that by (simp add: db'_def exec_removals(3))
  have "box (v_zset (db' (outbox_key g))) (v_hash (db' (data_key g))) = filter (\<lambda>e. m \<le> fst e) (box ?Z ?H)"
    by (rule box_trim) (auto simp: Z H dom_def not_less split: if_splits)
  then show "garnet_view g db' = v_trim m (garnet_view g db)"
    by (simp add: garnet_view_def v_trim_def other cong: if_cong)
  show "rows_ok g db'" using ok(2) by (simp add: rows_ok_def other)
  show "box_ok g db'"
    unfolding box_ok_def
  proof (intro allI impI)
    fix a x assume a: "v_zset (db' (outbox_key g)) a = Some x"
    then have "?Z a = Some x" by (auto simp: db'_def exec_removals(1) split: if_splits)
    then obtain k where k: "a = member k" "x = gs_score g k" "unat k < 2 ^ 53" "?H (u64_text k) \<noteq> None"
      using ok(1) unfolding box_ok_def by blast
    moreover have "m \<le> k" using a Z [of k] k(1) by (simp split: if_splits)
    ultimately show "\<exists>n. a = member n \<and> x = gs_score g n \<and> unat n < 2 ^ 53 \<and> v_hash (db' (data_key g)) (u64_text n) \<noteq> None"
      using H by auto
  qed
qed

lemma stage_emission_law:
  assumes n: "unat n < 2 ^ 53" and lt: "\<forall>k \<in> fst ` set (ov_outbox w). k < n"
  shows "stages (garnet_active g kind) (garnet_pend g) (garnet_stored g) (garnet_ready g kind) w (garnet_active g kind)
     (\<lambda>_. v_trim m (v_append n d w)) (append_and_trim (garnet_outbox_writer g) q n d m)"
  unfolding stages_def
proof (intro allI impI)
  fix s r t
  assume s: "garnet_ready g kind s" "garnet_pend g s = w" and run: "append_and_trim (garnet_outbox_writer g) q n d m s = (r, t)"
  from s(2) lt have "\<forall>k \<in> fst ` set (ov_outbox (garnet_pend g s)). k < n" by simp
  from append_staged [OF s(1) this n] obtain b s1 where
    b: "garnet_append g q n d s = (Inr (), s1)" "garnet_active g kind s1"
      "s1 = s\<lparr>inner := \<lparr>ses_buffer = Some b, ses_depth = 1\<rparr>\<rparr>" "buffer_ok kind b"
      "buf_keys b (outbox_key g) = Some (SortedSetState [member n \<mapsto> gs_score g n] {})" "outbox_key g \<notin> cleared_keys b"
      "overlay b (contents g s) = exec_command (HSET (data_key g) [(u64_text n, d)])
        (exec_command (ZADD (outbox_key g) [(gs_score g n, member n)]) (session_db g s))"
      "session_db g s (outbox_key g) = contents g s (outbox_key g)" "v_zset (contents g s (outbox_key g)) (member n) = None"
    by metis
  let ?db = "contents g s"
  have s1: "contents g s1 = ?db" "inner s1 = \<lparr>ses_buffer = Some b, ses_depth = 1\<rparr>" "garnet_stored g s1 = garnet_stored g s"
    by (simp_all add: b(3) garnet_stored_def)
  have good: "box_ok g (contents g s1)" using b(2) by (simp add: garnet_active_def garnet_good_def)
  have over: "box_ok g (overlay b ?db)" "rows_ok g (overlay b ?db)"
    using b(2) by (simp_all add: garnet_active_def session_db_def s1)
  have "garnet_view g (session_db g s) = w" using s(2) by (simp add: garnet_pend_def)
  then have view1: "garnet_view g (overlay b ?db) = v_append n d w"
    unfolding b(7) using lt by (simp add: append_view)
  show "garnet_stored g t = garnet_stored g s \<and>
      (case r of Inl _ \<Rightarrow> garnet_active g kind t | Inr x \<Rightarrow> garnet_active g kind t \<and> garnet_pend g t = v_trim m (v_append n d w))"
  proof (cases "redis_unreachable (gs_server g) (redis s1)")
    case (Some e)
    then have "r = Inl (RedisError e) \<and> t = s1"
      using run b(1) by (auto simp: append_and_trim_def garnet_outbox_writer_def garnet_trim_before_def committed_sequences_def)
    then show ?thesis using b(2) s1(3) by simp
  next
    case None
    define S where "S = insert n {k. member k \<in> dom (v_zset (contents g s1 (outbox_key g)))}"
    define b' where "b' = fold (\<lambda>x b. hash_del (data_key g) x (zset_remove (outbox_key g) (text_bytes x) b))
        (map u64_text (filter (\<lambda>k. k < m) (sorted_list_of_set S))) b"
    from trim_run [OF s1(2) good b(5,6) None S_def, of q m] obtain x where
      "garnet_trim_before g q m s1 = (Inr x, s1\<lparr>inner := \<lparr>ses_buffer = Some b', ses_depth = 1\<rparr>\<rparr>)" by (auto simp: b'_def)
    then have rt: "r = Inr x" "t = s1\<lparr>inner := \<lparr>ses_buffer = Some b', ses_depth = 1\<rparr>\<rparr>"
      using run b(1) by (auto simp: append_and_trim_def garnet_outbox_writer_def)
    have "v_zset (?db (outbox_key g)) a = None"
      if "buf_keys b (outbox_key g) = Some (SortedSetState added removed)" "a \<in> dom added" for added removed a
      using that b(5,9) by (auto split: if_splits)
    note remove = remove_fold [where db = ?db and xs = "map u64_text (filter (\<lambda>k. k < m) (sorted_list_of_set S))", OF b(4) this, folded b'_def]
    have fold: "buffer_ok kind b'" "overlay b' ?db = fold (\<lambda>x db. exec_command (HDEL (data_key g) [x])
        (exec_command (ZREM (outbox_key g) [text_bytes x]) db)) (map u64_text (filter (\<lambda>k. k < m) (sorted_list_of_set S))) (overlay b ?db)"
      using remove by simp_all
    have "S = {k. member k \<in> dom (v_zset (overlay b ?db (outbox_key g)))}"
      by (auto simp: S_def s1(1) b(7,8) exec_command_def)
    note after = removals_view [OF this over, of m, folded fold(2)]
    note staged = restage [OF b(2) fold(1) after(2,3) [folded s1(1)] rt(2)]
    show ?thesis using staged after(1) view1 by (simp add: rt(1) s1)
  qed
qed

text \<open>The session of the backend stores what is pending, or leaves the server as it is.\<close>

lemma begin_law:
  "garnet_closed g kind s \<Longrightarrow> garnet_begin s = (Inr u, t) \<Longrightarrow>
     garnet_idle g kind t \<and> garnet_ready g kind t \<and> garnet_pend g t = garnet_pend g s \<and> garnet_stored g t = garnet_stored g s"
  by (auto simp: garnet_closed_def garnet_idle_def garnet_ready_def garnet_active_def garnet_begin_def garnet_pend_def
      garnet_stored_def garnet_good_def session_db_def new_session_def)

lemma commit_law:
  assumes s: "garnet_active g kind s" and run: "garnet_commit (gs_server g) (gs_iters g) s = (r, t)"
  shows "case r of Inl _ \<Rightarrow> garnet_closed g kind t \<and> garnet_stored g t = garnet_stored g s
    | Inr _ \<Rightarrow> garnet_closed g kind t \<and> garnet_stored g t = garnet_pend g s"
proof -
  from s obtain b where b: "inner s = \<lparr>ses_buffer = Some b, ses_depth = 1\<rparr>" "buffer_ok kind b"
    "session_db g s = overlay b (contents g s)" "box_ok g (overlay b (contents g s))" "rows_ok g (overlay b (contents g s))"
    by (rule activeE)
  from s have good: "garnet_good g kind s" by (simp add: garnet_active_def)
  then have typed: "db_typed kind (contents g s)" by (simp add: garnet_good_def)
  obtain x srv where p: "redis_pipeline (gs_server g) (drain_into_pipeline (gs_iters g) b) (redis s) = (x, srv)" by fastforce
  show ?thesis
  proof (cases x)
    case (Inl e)
    with p have "redis_contents (gs_server g) srv = contents g s" using redis_service.pipeline_atomic [OF server] by simp
    with good run b(1) p Inl show ?thesis
      by (auto simp: garnet_commit_def garnet_closed_def garnet_good_def garnet_stored_def)
  next
    case (Inr y)
    with p have "redis_contents (gs_server g) srv = overlay b (contents g s)"
      using redis_service.pipeline_applied [OF server] drain_overlay [OF iters b(2) typed] by simp
    with run b p Inr overlay_typed [OF b(2) typed] show ?thesis
      by (auto simp: garnet_commit_def garnet_closed_def garnet_good_def garnet_stored_def garnet_pend_def)
  qed
qed

lemma closed_drop:
  "garnet_closed g kind s \<Longrightarrow> session_drop (garnet_session (gs_server g) (gs_iters g)) s = s"
  by (simp add: garnet_closed_def session_drop_def garnet_session_def garnet_rollback_def new_session_def)

lemma rollback_law:
  "garnet_active g kind s \<Longrightarrow> garnet_closed g kind (session_drop (garnet_session (gs_server g) (gs_iters g)) s) \<and>
     garnet_stored g (session_drop (garnet_session (gs_server g) (gs_iters g)) s) = garnet_stored g s"
  by (auto simp: garnet_active_def garnet_closed_def garnet_good_def garnet_stored_def session_drop_def garnet_session_def garnet_rollback_def)

lemmas store_laws =
  stage_source_law stage_emission_law stage_rows_law stage_sequence_law read_from_law read_latest_law read_rows_law
  read_sources_law get_u64_law write_laws clear_laws clear_sources_law

end

sublocale garnet_stores \<subseteq> durable: transactional_stores "garnet_outbox_writer g" "garnet_live_writer g" "garnet_checkpoint_store g"
    q "2 ^ 53" "garnet_idle g kind" "garnet_ready g kind" "garnet_active g kind" "garnet_pend g" "garnet_stored g"
    "garnet_session (gs_server g) (gs_iters g)" "garnet_closed g kind" for q
proof unfold_locales
  show "garnet_idle g kind s \<Longrightarrow> bt_ok (ov_outbox (garnet_pend g s))" for s by (simp add: garnet_pend_def garnet_view_def)
  show "garnet_ready g kind s \<Longrightarrow> garnet_active g kind s" for s by (simp add: garnet_ready_def)
  show "garnet_closed g kind s \<Longrightarrow> garnet_idle g kind s \<and> garnet_stored g s = garnet_pend g s" for s
    by (simp add: garnet_closed_def garnet_idle_def garnet_stored_def garnet_pend_def session_db_def new_session_def)
  show "garnet_closed g kind s \<Longrightarrow> op_begin (garnet_session (gs_server g) (gs_iters g)) s = (Inr u, t) \<Longrightarrow>
      garnet_idle g kind t \<and> garnet_ready g kind t \<and> garnet_pend g t = garnet_pend g s \<and> garnet_stored g t = garnet_stored g s" for s u t
    using begin_law by (simp add: garnet_session_def)
  show "garnet_closed g kind s \<Longrightarrow> op_begin (garnet_session (gs_server g) (gs_iters g)) s = (Inl e, t) \<Longrightarrow>
      garnet_closed g kind t \<and> garnet_stored g t = garnet_stored g s" for s e t
    by (simp add: garnet_session_def garnet_begin_def split: if_splits)
  show "garnet_active g kind s \<Longrightarrow> op_commit (garnet_session (gs_server g) (gs_iters g)) s = (Inr u, t) \<Longrightarrow>
      garnet_closed g kind t \<and> garnet_stored g t = garnet_pend g s" for s u t
    using commit_law [of s "Inr u" t] by (simp add: garnet_session_def)
  show "garnet_closed g kind (session_drop (garnet_session (gs_server g) (gs_iters g)) t) \<and>
      garnet_stored g (session_drop (garnet_session (gs_server g) (gs_iters g)) t) = garnet_stored g s"
    if "garnet_active g kind s" "op_commit (garnet_session (gs_server g) (gs_iters g)) s = (Inl e, t)" for s e t
    using commit_law [of s "Inl e" t] closed_drop [of t] that by (simp add: garnet_session_def)
qed (simp_all add: rollback_law store_laws garnet_live_writer_def garnet_checkpoint_store_def)

end
