(* ===== verification/Garnet_Query.thy ===== *)
theory Garnet_Query
  imports Garnet_Recovery "HOL-Library.Countable"
begin

text \<open>
  A persistent query on Garnet: its output survives crashes and its events are processed exactly
  once. The laws of \<open>recoverable\<close> hold for the Garnet stores, so the results about runs apply to them.
\<close>

text \<open>
  A query whose output is stored in Garnet. Its other indexes keep off the keys of the output, and
  what the serialisation of results and rows encodes, it decodes.
\<close>

locale garnet_query = garnet_stores g kind
  for g :: "('r, 'e, 'k::linorder) garnet_store" and kind :: "string \<Rightarrow> key_kind" +
  fixes pr :: "(('r, 'k) garnet_state, 'e garnet_error, 'm, 'o, 'f, 'd, 'x, 'v) processor_env"
  assumes stores: "pr_stores pr = full_stores (garnet_outbox_writer g) (garnet_live_writer g) (garnet_checkpoint_store g)"
    and session: "session_control (pr_query pr) = garnet_session (gs_server g) (gs_iters g)"
    and separate: "preserves (\<lambda>s. garnet_ready g kind s \<and> garnet_pend g s = w \<and> garnet_stored g s = u) (pr_query pr)"
    and codec: "codec_ok (pr_codec pr)"

sublocale garnet_query \<subseteq> run: recoverable "garnet_outbox_writer g" "garnet_live_writer g" "garnet_checkpoint_store g"
    "pr_query_id pr" "2 ^ 53" "garnet_idle g kind" "garnet_ready g kind" "garnet_active g kind" "garnet_pend g" "garnet_stored g"
    "garnet_session (gs_server g) (gs_iters g)" "garnet_closed g kind" pr
  by (rule recoverable.intro, rule durable.transactional_stores_axioms, unfold_locales)
    (use stores session separate codec in auto)

context garnet_query
begin

lemmas on_garnet = run_exactly_once [OF run.recoverable_axioms] run_catches_up [OF run.recoverable_axioms]

end



subsection \<open>Example\<close>

text \<open>
  The query for persons with its output on a Garnet server in memory, after a bootstrap that found
  nothing, and one event that inserts a person.
\<close>

definition sample_store :: "(nat redis_db, unit, nat) garnet_store" where
  "sample_store =
     \<lparr>gs_query_id = ''q'', gs_server = mem_redis, gs_attached = True, gs_iters = sorted_iters, gs_score = unat,
      gs_enc_sources = (\<lambda>ids. replicate (Suc (to_nat ids)) 0),
      gs_dec_sources = (\<lambda>b. if b = [] then None else Some (from_nat (length b - 1)))\<rparr>"

definition sample_kinds :: "string \<Rightarrow> key_kind" where
  "sample_kinds k =
     (if k = outbox_key sample_store then ZSetKey
      else if k = data_key sample_store \<or> k = live_key sample_store then HashKey else StringKey)"

definition person_result :: query_result where
  "person_result = query_result_with_profiling ''q'' 1 0 [DiffAdd JNull 7] ''hr'' default_profiling"

definition sample_codec :: "unit garnet_error codec" where
  "sample_codec =
     \<lparr>enc_result = (\<lambda>r. if r = person_result then Inr [] else Inl ''result''), dec_result = (\<lambda>_. Inr person_result),
      enc_row = (\<lambda>j. if j = JNull then Inr [] else Inl ''row''), dec_row = (\<lambda>_. Inr JNull),
      output_persist_error = (\<lambda>_. Malformed)\<rparr>"

definition sample_processor ::
    "((nat redis_db, nat) garnet_state, unit garnet_error, unit, unit, unit, unit, unit, nat) processor_env" where
  "sample_processor =
     \<lparr>pr_query = person_env,
      pr_stores = full_stores (garnet_outbox_writer sample_store) (garnet_live_writer sample_store) (garnet_checkpoint_store sample_store),
      pr_codec = sample_codec, pr_query_id = ''q'', pr_to_json = (\<lambda>_. JNull), pr_now = 0,
      pr_profiling = default_profiling, pr_post_profiling = default_profiling\<rparr>"

lemma sample_store_sel [simp]:
  "gs_query_id sample_store = ''q''" "gs_server sample_store = mem_redis" "gs_attached sample_store" "gs_iters sample_store = sorted_iters"
  "gs_score sample_store = unat" "gs_enc_sources sample_store ids = replicate (Suc (to_nat ids)) 0"
  "gs_dec_sources sample_store b = (if b = [] then None else Some (from_nat (length b - 1)))"
  by (simp_all add: sample_store_def)

interpretation sample_stores: garnet_stores sample_store sample_kinds
proof unfold_locales
  show "redis_pipeline (gs_server sample_store) cmds r = (Inr u, r') \<Longrightarrow>
      redis_contents (gs_server sample_store) r' = fold exec_command cmds (redis_contents (gs_server sample_store) r)" for cmds r u r'
    using mem_redis.pipeline_applied by simp
  show "redis_pipeline (gs_server sample_store) cmds r = (Inl e, r') \<Longrightarrow>
      redis_contents (gs_server sample_store) r' = redis_contents (gs_server sample_store) r" for cmds r e r'
    using mem_redis.pipeline_atomic by simp
qed (simp_all add: sample_kinds_def sorted_iters_ok word_less_nat_alt)

lemma other_key:
  assumes s: "garnet_ready sample_store sample_kinds s" and k: "k = ''e''"
    and b: "inner s = \<lparr>ses_buffer = Some b, ses_depth = 1\<rparr>" "buffer_ok sample_kinds b'"
      "\<And>j. j \<noteq> k \<Longrightarrow> buf_keys b' j = buf_keys b j \<and> (j \<in> cleared_keys b' \<longleftrightarrow> j \<in> cleared_keys b)"
    and t: "t = s\<lparr>inner := \<lparr>ses_buffer = Some b', ses_depth = 1\<rparr>\<rparr>"
  shows "garnet_ready sample_store sample_kinds t \<and> garnet_pend sample_store t = garnet_pend sample_store s \<and>
    garnet_stored sample_store t = garnet_stored sample_store s"
proof -
  have active: "garnet_active sample_store sample_kinds s" using s by (simp add: garnet_ready_def)
  have eq: "overlay b' (redis s) j = overlay b (redis s) j" if "j \<noteq> k" for j
    using b(3) [OF that] by (simp add: overlay_def split: option.split)
  have "buf_keys b' j = buf_keys b j \<and> (j \<in> cleared_keys b' \<longleftrightarrow> j \<in> cleared_keys b)"
    if "j \<in> {outbox_key sample_store, data_key sample_store, live_key sample_store}" for j
    using that b(3) by (auto simp: k key_defs)
  note staged = sample_stores.restage_other [OF active b(1,2) this t]
  have "garnet_view sample_store (overlay b' (redis s)) = garnet_view sample_store (overlay b (redis s))"
    using eq by (simp add: garnet_view_def k key_defs cong: if_cong)
  with staged s show ?thesis by (simp add: garnet_pend_def session_db_def b(1))
qed

lemma sample_write_keeps:
  assumes "f = string_set ''e'' [] \<or> f = del_key ''e''"
  shows "act_keeps (\<lambda>s. garnet_ready sample_store sample_kinds s \<and> garnet_pend sample_store s = w \<and> garnet_stored sample_store s = u)
    (buffer_write f :: (_, unit garnet_error, _) action)"
  unfolding act_keeps_def
proof (intro allI impI)
  fix s
  assume s: "garnet_ready sample_store sample_kinds s \<and> garnet_pend sample_store s = w \<and> garnet_stored sample_store s = u"
  then have "garnet_active sample_store sample_kinds s" by (simp add: garnet_ready_def)
  then obtain b where b: "inner s = \<lparr>ses_buffer = Some b, ses_depth = 1\<rparr>" "buffer_ok sample_kinds b"
    by (rule sample_stores.activeE)
  have kind: "sample_kinds ''e'' = StringKey" by (simp add: sample_kinds_def key_defs)
  have ok: "buffer_ok sample_kinds (f b)" using assms buffer_ok_ops [OF b(2)] kind by auto
  have "buf_keys (f b) j = buf_keys b j \<and> (j \<in> cleared_keys (f b) \<longleftrightarrow> j \<in> cleared_keys b)" if "j \<noteq> ''e''" for j
    using assms that by (auto simp: string_set_def del_key_def put_key_def)
  from other_key [OF _ refl b(1) ok this refl] s
  show "garnet_ready sample_store sample_kinds (snd (buffer_write f s :: (unit garnet_error + unit) \<times> _)) \<and>
      garnet_pend sample_store (snd (buffer_write f s :: (unit garnet_error + unit) \<times> _)) = w \<and>
      garnet_stored sample_store (snd (buffer_write f s :: (unit garnet_error + unit) \<times> _)) = u"
    by (simp add: sample_stores.buffer_write_run [OF b(1)])
qed

interpretation sample_query: garnet_query sample_store sample_kinds sample_processor
proof unfold_locales
  show "preserves (\<lambda>s. garnet_ready sample_store sample_kinds s \<and> garnet_pend sample_store s = w \<and> garnet_stored sample_store s = u)
      (pr_query sample_processor)" for w u
    by (simp add: preserves_def sample_processor_def sample_write_keeps)
qed (auto simp: sample_processor_def codec_ok_def sample_codec_def split: if_splits)

text \<open>Starting resumes the stored state.\<close>

definition sample_config :: start_config where
  "sample_config = \<lparr>sc_query_id = ''q'', sc_config_hash = 5, sc_enable_bootstrap = True, sc_policy = AutoReset\<rparr>"

definition sample_indexes :: "((nat redis_db, nat) garnet_state, unit garnet_error) persistent_indexes" where
  "sample_indexes = \<lparr>ix_session = Some (garnet_session mem_redis sorted_iters), ix_element = None, ix_archive = None,
     ix_result = None, ix_future = None, ix_not_supported = (\<lambda>_. False)\<rparr>"

definition sample_garnet :: "(nat redis_db, nat) garnet_state" where
  "sample_garnet = \<lparr>redis = [config_hash_key sample_store \<mapsto> RString (member 5), result_sequence_key sample_store \<mapsto> RString (member 0)],
     inner = new_session\<rparr>"

definition sample_event :: "nat source_event" where
  "sample_event = \<lparr>ev_source = ''hr'', ev_sequence = 1, ev_position = Some [3], ev_change = Insert (person 9)\<rparr>"

lemma sample_closed: "garnet_closed sample_store sample_kinds sample_garnet"
  by (auto simp: garnet_closed_def sample_garnet_def garnet_good_def db_typed_def box_ok_def rows_ok_def sample_kinds_def
      split: if_splits)

lemma sample_view:
  "garnet_stored sample_store sample_garnet = no_output\<lparr>ov_config_hash := Some 5, ov_result_sequence := Some 0\<rparr>"
  by (simp add: garnet_stored_def garnet_view_def sample_garnet_def no_output_def stored_u64_def stored_sources_def box_def)

text \<open>What the stores return in the initial state.\<close>

lemma sample_server [simp]: "redis_unreachable mem_redis r = None"
  by (simp add: mem_redis_def)

lemma sample_reads:
  assumes "inner s = new_session \<or> inner s = \<lparr>ses_buffer = Some new_buffer, ses_depth = 1\<rparr>" and r: "redis s = redis sample_garnet"
  shows "garnet_read_result_sequence sample_store ''q'' s = (Inr (Some 0), s)" "garnet_read_config_hash sample_store s = (Inr (Some 5), s)"
    "garnet_read_output_generation sample_store ''q'' s = (Inr None, s)" "garnet_read_latest_sequence sample_store ''q'' s = (Inr None, s)"
    "garnet_read_snapshot sample_store ''q'' s = (Inr [], s)" "garnet_read_all_checkpoints sample_store s = (Inr Map.empty, s)"
proof -
  have peek: "peek_string k s = (Inr NotInBuffer, s)" for k
    using assms(1) by (auto simp: peek_string_def new_session_def string_get_def)
  have u: "get_u64 sample_store k s = (Inr (stored_u64 (redis sample_garnet k)), s)" for k
    by (simp add: get_u64_def stored_u64_def r parse_member_def act_bind_def sample_garnet_def)
  show "garnet_read_result_sequence sample_store ''q'' s = (Inr (Some 0), s)" "garnet_read_config_hash sample_store s = (Inr (Some 5), s)"
    "garnet_read_output_generation sample_store ''q'' s = (Inr None, s)"
    by (simp_all add: garnet_read_result_sequence_def garnet_read_config_hash_def garnet_read_output_generation_def u
        stored_u64_def sample_garnet_def)
  show "garnet_read_latest_sequence sample_store ''q'' s = (Inr None, s)"
    by (simp add: garnet_read_latest_sequence_def r sample_garnet_def zrange_def next_back_def)
  show "garnet_read_snapshot sample_store ''q'' s = (Inr [], s)"
    by (simp add: garnet_read_snapshot_def r sample_garnet_def sorted_iters_def)
  show "garnet_read_all_checkpoints sample_store s = (Inr Map.empty, s)"
    by (simp add: garnet_read_all_checkpoints_def peek r sample_garnet_def)
qed

lemma checkpoint_operations [simp]:
  "is_persistent (garnet_checkpoint_store g)" "read_result_sequence (garnet_checkpoint_store g) = garnet_read_result_sequence g"
  "read_config_hash (garnet_checkpoint_store g) = garnet_read_config_hash g"
  "read_output_generation (garnet_checkpoint_store g) = garnet_read_output_generation g"
  "read_all_checkpoints (garnet_checkpoint_store g) = garnet_read_all_checkpoints g"
  "stage_checkpoint (garnet_checkpoint_store g) = garnet_stage_checkpoint g"
  "stage_result_sequence (garnet_checkpoint_store g) = garnet_stage_result_sequence g"
  by (simp_all add: garnet_checkpoint_store_def)

lemma live_operations [simp]:
  "lr_read_snapshot (garnet_live_writer g) = garnet_read_snapshot g" "lr_apply_mutations (garnet_live_writer g) = garnet_apply_mutations g"
  by (simp_all add: garnet_live_writer_def)

lemma sample_commit_nothing:
  "garnet_commit mem_redis sorted_iters (sample_garnet\<lparr>inner := \<lparr>ses_buffer = Some new_buffer, ses_depth = 1\<rparr>\<rparr>) =
     (Inr () :: unit garnet_error + unit, sample_garnet)"
  by (simp add: garnet_commit_def mem_redis_def drain_into_pipeline_def sorted_iters_def sample_garnet_def new_buffer_def)

lemma sample_started:
  "start_query sample_codec sample_config (pr_stores sample_processor) sample_indexes {''hr''} (sample_garnet, new_output_state 10) =
     (Inr (True, Map.empty), sample_garnet, hydrate Map.empty [] 0 0 (new_output_state 10))"
proof -
  let ?s1 = "sample_garnet\<lparr>inner := \<lparr>ses_buffer = Some new_buffer, ses_depth = 1\<rparr>\<rparr>"
  let ?ds = "full_stores (garnet_outbox_writer sample_store) (garnet_live_writer sample_store) (garnet_checkpoint_store sample_store)"
  note reads1 = sample_reads [of ?s1, simplified] and reads0 = sample_reads [of sample_garnet, OF disjI1, simplified]
  have hash: "check_config_hash sample_config ?ds sample_indexes (?s1, st) = (Inr True, ?s1, st)" for st
    by (simp add: check_config_hash_def sample_config_def on_store_def act_map_err_def act_bind_def reads1
        output_reset_in_progress_hash_def)
  have points: "read_resume_points sample_config ?ds {''hr''} (?s1, st) = (Inr Map.empty, ?s1, st)" for st
    by (simp add: read_resume_points_def on_store_def reads1 resume_dedup_def fun_eq_iff)
  let ?ses = "starting_session (garnet_session mem_redis sorted_iters :: (_, unit garnet_error) session_ops)"
  have guard: "op_begin ?ses (sample_garnet, st) = (Inr (), ?s1, st)" "op_commit ?ses (?s1, st) = (Inr (), sample_garnet, st)" for st
    by (simp_all add: starting_session_def on_store_def garnet_session_def sample_commit_nothing)
      (simp add: garnet_begin_def sample_garnet_def new_session_def)
  have ix: "ix_session sample_indexes = Some (garnet_session mem_redis sorted_iters)" by (simp add: sample_indexes_def)
  have ses: "startup_session sample_config ?ds sample_indexes {''hr''} (sample_garnet, st) = (Inr (True, Map.empty), sample_garnet, st)" for st
    by (simp add: startup_session_def ix session_guard_def guard hash points)
  have inner: "inner sample_garnet = new_session" by (simp add: sample_garnet_def)
  have load: "load_durable_output sample_codec ?ds ''q'' n sample_garnet = (Inr (Map.empty, [], 0, 0), sample_garnet)" for n
    by (simp add: load_durable_output_def load_outbox_def load_live_rows_def completed_snapshot_def act_map_err_def act_bind_def
        reads0 inner reconcile_durable_output_def decode_outbox_def decode_rows_def next_back_def)
  have hyd: "hydrate_output sample_codec sample_config ?ds sample_indexes True (sample_garnet, st) =
      (Inr True, sample_garnet, hydrate Map.empty [] 0 0 st)" if "\<not> initialized st" for st
    using that by (simp add: hydrate_output_def on_store_def sample_config_def load on_output_def act_bind_def)
  have "\<not> initialized (new_output_state 10)" by (simp add: new_output_state_def)
  then show ?thesis by (simp add: start_query_def sample_processor_def ses hyd)
qed

text \<open>Processing the event stages its checkpoint and one emission, and commits.\<close>

definition sample_open :: "nat write_buffer \<Rightarrow> (nat redis_db, nat) garnet_state" where
  "sample_open b = sample_garnet\<lparr>inner := \<lparr>ses_buffer = Some b, ses_depth = 1\<rparr>\<rparr>"

lemma sample_open_sel [simp]:
  "inner (sample_open b) = \<lparr>ses_buffer = Some b, ses_depth = 1\<rparr>" "redis (sample_open b) = redis sample_garnet"
  "(sample_open b)\<lparr>inner := \<lparr>ses_buffer = Some b', ses_depth = 1\<rparr>\<rparr> = sample_open b'"
  by (simp_all add: sample_open_def)

lemma sample_open_write [simp]: "buffer_write f (sample_open b) = (Inr (), sample_open (f b))"
  using sample_stores.buffer_write_run [of "sample_open b" b 1 f] by simp

lemma sample_change:
  "process_source_change_with_hook person_env hook (Insert (person 9)) sample_garnet =
     (case hook [Adding [(''p'', VElement (person 9))] 7] (sample_open (string_set ''e'' [] new_buffer)) of
        (Inl e, t) \<Rightarrow> (Inl (EvIndex e), session_drop (garnet_session mem_redis sorted_iters :: (_, unit garnet_error) session_ops) t)
      | (Inr _, t) \<Rightarrow>
          (case garnet_commit mem_redis sorted_iters t of
             (Inl e, t) \<Rightarrow> (Inl (EvIndex e), session_drop (garnet_session mem_redis sorted_iters :: (_, unit garnet_error) session_ops) t)
           | (Inr _, t) \<Rightarrow> (Inr [Adding [(''p'', VElement (person 9))] 7], t)))"
proof -
  let ?s1 = "sample_open new_buffer" and ?s2 = "sample_open (string_set ''e'' [] new_buffer)"
  have opened: "garnet_begin sample_garnet = (Inr () :: unit garnet_error + unit, ?s1)"
    by (simp add: garnet_begin_def sample_open_def) (simp add: sample_garnet_def new_session_def)
  have built: "build_solution_changes person_env [] (Insert (person 9)) clock ?s1 =
      (Inr \<lparr>changes = [(7, Adding [(''p'', VElement (person 9))] 0)], sc_anchor_element = Some (person 9),
           sc_before_clock = None, sc_before_anchor_element = None, sc_is_future_reprocess = False\<rparr>, ?s2)" for clock
    by (rule person_inserted) simp
  have "process_change person_env (Insert (person 9)) ?s1 = (Inr [Adding [(''p'', VElement (person 9))] 7], ?s2)"
    by (simp add: process_change_def Let_def built project_or_skip_def person_projected collapse_part_def
        into_vec_with_context_def change_context_of_def into_result_vec_def act_bind_def)
  then have "process_changes_inner person_env [Insert (person 9)] ?s1 = (Inr [Adding [(''p'', VElement (person 9))] 7], ?s2)"
    by (simp add: process_changes_inner_def)
  moreover obtain r t where "hook [Adding [(''p'', VElement (person 9))] 7] ?s2 = (r, t)" by fastforce
  moreover obtain r' t' where "garnet_commit mem_redis sorted_iters t = (r' :: unit garnet_error + unit, t')" by fastforce
  ultimately show ?thesis
    by (cases r; cases r') (simp_all add: process_source_change_with_hook_def session_guard_def execute_source_middleware_def
        pipelines_get_def act_map_err_def garnet_session_def opened)
qed

lemma sample_checkpoint_staged:
  assumes "buf_keys b (sources_key sample_store) = None"
  shows "garnet_stage_checkpoint sample_store ''hr'' 1 (Some p) (sample_open b) =
     (Inr (), sample_open (string_set (sources_key sample_store) (replicate (Suc (to_nat [''hr''])) 0)
        (string_set (pos_key sample_store ''hr'') p (string_set (seq_key sample_store ''hr'') (member 1) b))))"
proof -
  let ?b = "string_set (pos_key sample_store ''hr'') p (string_set (seq_key sample_store ''hr'') (member 1) b)"
  have unread: "buffer_read (\<lambda>b. string_get b (sources_key sample_store)) (sample_open ?b) = (Inr NotInBuffer, sample_open ?b)"
    using assms by (simp add: buffer_read_def string_get_def string_set_def put_key_def)
  have "redis sample_garnet (sources_key sample_store) = None" by (simp add: sample_garnet_def)
  then show ?thesis by (simp add: garnet_stage_checkpoint_def unread)
qed

lemma sample_emission_staged:
  assumes "buf_keys b (outbox_key sample_store) = None" "outbox_key sample_store \<notin> cleared_keys b"
  shows "\<exists>x. append_and_trim (garnet_outbox_writer sample_store) ''q'' 1 d 1 (sample_open b) =
     (Inr x, sample_open (hash_set (data_key sample_store) (u64_text 1) d (zset_add (outbox_key sample_store) (member 1) 1 b)))"
proof -
  let ?b = "hash_set (data_key sample_store) (u64_text 1) d (zset_add (outbox_key sample_store) (member 1) 1 b)"
  have b: "buf_keys ?b (outbox_key sample_store) = Some (SortedSetState [member 1 \<mapsto> 1] {})" "outbox_key sample_store \<notin> cleared_keys ?b"
    using assms by (auto simp: hash_set_def zset_add_def put_key_def split: option.split key_state.split)
  have box: "box_ok sample_store (redis (sample_open ?b))" by (simp add: box_ok_def sample_garnet_def)
  have "garnet_append sample_store ''q'' 1 d (sample_open b) = (Inr (), sample_open ?b)"
    by (simp add: garnet_append_def Let_def)
  moreover have "\<exists>x. garnet_trim_before sample_store ''q'' 1 (sample_open ?b) = (Inr x, sample_open ?b)"
    using sample_stores.trim_run [OF _ _ b _ refl, of "sample_open ?b" "''q''" 1] box by (simp add: sample_garnet_def)
  ultimately show ?thesis by (auto simp: append_and_trim_def garnet_outbox_writer_def)
qed

lemma sample_diffs: "evaluation_contexts_to_diffs (\<lambda>_. JNull) [Adding [(''p'', VElement (person 9))] 7] = [DiffAdd JNull 7]"
  by (simp add: evaluation_contexts_to_diffs_def map_filter_simps)

lemma sample_hook:
  assumes "as_of_sequence st = 0" "outbox_capacity st = 10"
  shows "\<exists>b. event_hook sample_processor st sample_event [Adding [(''p'', VElement (person 9))] 7] (sample_open (string_set ''e'' [] new_buffer)) =
    (Inr (), sample_open b)"
proof -
  let ?b0 = "string_set ''e'' [] new_buffer :: nat write_buffer"
  define b1 where "b1 = string_set (sources_key sample_store) (replicate (Suc (to_nat [''hr''])) 0)
        (string_set (pos_key sample_store ''hr'') [3] (string_set (seq_key sample_store ''hr'') (member 1) ?b0))"
  have none: "buf_keys ?b0 (sources_key sample_store) = None" "buf_keys b1 (outbox_key sample_store) = None"
    "outbox_key sample_store \<notin> cleared_keys b1"
    by (simp_all add: b1_def string_set_def put_key_def key_defs) (simp add: new_buffer_def)
  define b2 where "b2 = hash_set (data_key sample_store) (u64_text 1) [] (zset_add (outbox_key sample_store) (member 1) 1 b1)"
  obtain x where emitted: "append_and_trim (garnet_outbox_writer sample_store) ''q'' 1 [] 1 (sample_open b1) = (Inr x, sample_open b2)"
    using sample_emission_staged [OF none(2,3)] by (auto simp: b2_def)
  have staged: "garnet_stage_checkpoint sample_store ''hr'' 1 (Some [3]) (sample_open ?b0) = (Inr (), sample_open b1)"
    using sample_checkpoint_staged [OF none(1)] by (simp add: b1_def)
  have seq: "sat_add 0 1 = (1 :: u64)" "sat_add (sat_sub (1 :: u64) 10) 1 = 1"
    by (simp_all add: sat_add_def sat_sub_def)
  have enc: "enc_result sample_codec (query_result_with_profiling ''q'' 1 0 [DiffAdd JNull 7] ''hr'' default_profiling) = Inr []"
    by (simp add: sample_codec_def person_result_def)
  have row: "serialize_rows sample_codec ''q'' 1 [DiffAdd JNull 7] = Inr [(7, Some [])]"
    by (simp add: serialize_rows_def sample_codec_def)
  have pos: "checkpoint_position (Some [3]) = Some [3]" by (simp add: checkpoint_position_def MAX_SOURCE_POSITION_BYTES_def)
  let ?r = "query_result_with_profiling ''q'' 1 0 [DiffAdd JNull 7] ''hr'' default_profiling"
  have out: "stage_outbox sample_codec ''q'' 10 ?r (Some (garnet_outbox_writer sample_store)) (sample_open b1) = (Inr (), sample_open b2)"
    by (simp add: stage_outbox_def enc) (simp add: query_result_with_profiling_def seq emitted)
  have live: "\<exists>b. stage_live_rows sample_codec ''q'' ?r (Some (garnet_live_writer sample_store)) (sample_open b2) = (Inr (), sample_open b)"
    by (simp add: stage_live_rows_def query_result_with_profiling_def row garnet_apply_mutations_def) blast
  have last: "\<exists>b'. garnet_stage_result_sequence sample_store ''q'' n (sample_open b) = (Inr (), sample_open b')" for n b
    by (simp add: garnet_stage_result_sequence_def with_active_buffer_def act_bind_def) blast
  from live last obtain b3 b4 where "stage_live_rows sample_codec ''q'' ?r (Some (garnet_live_writer sample_store)) (sample_open b2) =
      (Inr (), sample_open b3)" "garnet_stage_result_sequence sample_store ''q'' 1 (sample_open b3) = (Inr (), sample_open b4)" by blast
  note steps = out this
  have "event_hook sample_processor st sample_event [Adding [(''p'', VElement (person 9))] 7] (sample_open ?b0) = (Inr (), sample_open b4)"
    using assms by (simp add: event_hook_def sample_processor_def sample_event_def pos staged stage_results_def sample_diffs
        stage_durable_query_output_def staged_output_def seq steps)
  then show ?thesis ..
qed

lemma sample_processed:
  "\<exists>r t ru. process_event sample_processor sample_event sample_garnet
     \<lparr>ru_output = hydrate Map.empty [] 0 0 (new_output_state 10), ru_dedup = Map.empty\<rparr> = (Processed (Some r), t, ru)"
proof -
  let ?st = "hydrate Map.empty [] 0 0 (new_output_state 10)"
  have st: "as_of_sequence ?st = 0" "outbox_capacity ?st = 10"
    by (simp_all add: hydrate_def new_output_state_def MAX_OUTBOX_CAPACITY_def Let_def)
  from sample_hook [OF this] obtain b where b: "event_hook sample_processor ?st sample_event [Adding [(''p'', VElement (person 9))] 7]
      (sample_open (string_set ''e'' [] new_buffer)) = (Inr (), sample_open b)" ..
  obtain t where "garnet_commit mem_redis sorted_iters (sample_open b) = (Inr () :: unit garnet_error + unit, t)"
    by (simp add: garnet_commit_def mem_redis_def)
  then have "process_source_change_with_hook (pr_query sample_processor) (event_hook sample_processor ?st sample_event)
      (ev_change sample_event) sample_garnet = (Inr [Adding [(''p'', VElement (person 9))] 7], t)"
    using b sample_change [of "event_hook sample_processor ?st sample_event"] by (simp add: sample_processor_def sample_event_def)
  moreover obtain r st' where "dispatch_results sample_processor (pr_profiling sample_processor) (ev_source sample_event)
      [Adding [(''p'', VElement (person 9))] 7] ?st = (Some r, st')"
    by (auto simp: dispatch_results_def sample_processor_def dispatch_query_results_def staged_output_def sample_diffs
        query_result_with_profiling_def Let_def overlay_post_commit_profiling_def apply_committed_sequence_def)
  ultimately show ?thesis
    by (simp add: process_event_def should_skip_def)
qed

lemma sample_resumes:
  "may_resume sample_config (garnet_checkpoint_store sample_store) (garnet_stored sample_store sample_garnet)"
  "stores_emissions (pr_codec sample_processor) (outbox_capacity (new_output_state 10)) Map.empty [] (garnet_stored sample_store sample_garnet)"
  "log_ok {''hr''} (garnet_stored sample_store sample_garnet) (\<lambda>_. [sample_event])"
  by (simp_all add: may_resume_def sample_view sample_config_def stores_emissions_def holds_history_def numbered_def holds_entries_def
      holds_rows_def replayed_def no_output_def new_output_state_def MAX_OUTBOX_CAPACITY_def log_ok_def checkpoint_of_def sample_event_def)

lemma sample_running:
  "query_run sample_processor sample_config sample_indexes {''hr''} (garnet_closed sample_store sample_kinds) (garnet_stored sample_store)
     (\<lambda>_. [sample_event]) 10 sample_garnet sample_garnet (hydrate Map.empty [] 0 0 (new_output_state 10)) (Some Map.empty) []"
proof -
  have "start_query (pr_codec sample_processor) sample_config (pr_stores sample_processor) sample_indexes {''hr''}
      (sample_garnet, new_output_state 10) = (Inr (True, Map.empty), sample_garnet, hydrate Map.empty [] 0 0 (new_output_state 10))"
    using sample_started by (simp add: sample_processor_def)
  from query_run.start [OF query_run.fresh this] show ?thesis by simp
qed

lemma sample_ids:
  "sc_query_id sample_config = pr_query_id sample_processor"
  "ix_session sample_indexes = Some (garnet_session (gs_server sample_store) (gs_iters sample_store))"
  by (simp_all add: sample_config_def sample_processor_def sample_indexes_def)



end
