(* ===== verification/Spec2Isabelle.thy ===== *)
theory Spec2Isabelle
  imports Solver_Index Query_Parts Future_Queue Garnet_Query
begin

text \<open>
  Verification of the continuous query engine drasi-core.

  \<^bold>\<open>The program.\<close> A continuous query keeps the answer of a graph query up to date. A source sends
  changes of nodes and relations; middleware may rewrite them; each change is stored in an
  element index; a path solver finds the solutions of the match clauses that contain the changed
  element, before and after the change; the difference is a list of row changes; the parts of the
  query filter, project and aggregate them; and the rows that changed are reported. Everything a
  change writes belongs to one session of the storage backend, which commits at the end.

  \<^bold>\<open>Conventions.\<close> \<open>Prelude\<close> models the parts of the standard library the code uses: \<open>u64\<close> is a
  64-bit word with its wrapping and saturating operations, a \<^verbatim>\<open>BTreeMap\<close> is a sorted association
  list, a \<^verbatim>\<open>HashMap\<close> a partial map, a \<^verbatim>\<open>HashSet\<close> a set. Where the code iterates over a hashed
  collection the model takes the order as an argument, and the theorems hold for every order that
  visits each member once (locale \<open>hash_iteration\<close>). A \<^verbatim>\<open>Result\<close> is a sum with the error on the
  left, a panic is an error value or \<open>None\<close>, and stateful code is an action
  \<open>'s \<Rightarrow> ('e + 'a) \<times> 's\<close> composed with \<open>act_bind\<close>. Locks are not modelled: the engine holds the
  change lock of the query while a change is processed, so each operation is one step. Code that
  is not part of the repository, and the evaluation of expressions, is an argument of the
  definitions that call it, with what is assumed of it as a named hypothesis.

  \<^bold>\<open>Theories and sources\<close> (paths below \<^verbatim>\<open>src/core/src\<close> unless they start with \<^verbatim>\<open>src\<close>).

  \<^item> \<open>Models\<close>: \<^verbatim>\<open>models/\<close>, elements, references, properties, source changes, time bounds.

  \<^item> \<open>Match_Path\<close>: \<^verbatim>\<open>path_solver/match_path.rs\<close>, the compilation of match clauses into slots. The
    slots are well formed for every query, and the query for the optional slots on common paths
    returns exactly those.

  \<^item> \<open>Solution\<close>, \<open>Path_Solver\<close>, \<open>Path_Solver_Steps\<close>, \<open>Path_Solver_Correct\<close>:
    \<^verbatim>\<open>path_solver/solution.rs\<close> and \<^verbatim>\<open>path_solver/mod.rs\<close>. The solver is sound (each slot of a
    solution is justified by a neighbour, no panic) and complete for connected patterns; the
    parallel stream delivers the same solutions in every schedule and ends. The worklist needs no
    fuel: the open work of a solution decreases. Two theorems record patterns for which the
    solver reports less or more than the pattern says (cycles, and optional paths in both
    directions).

  \<^item> \<open>Element_Index\<close>: \<^verbatim>\<open>in_memory_index/in_memory_element_index.rs\<close>, the stored graph with slots,
    virtual relations of joins and the archive. Invariant, effect of every operation, and the
    ranges for which reading versions panics.

  \<^item> \<open>Solver_Index\<close>: the solver over an index. The locale \<open>slot_index\<close> is the interface; its
    interpretation on the in-memory index gives that every match of the stored graph is found and
    every solution is stored and linked.

  \<^item> \<open>Session\<close>, \<open>Garnet_Session\<close>: \<^verbatim>\<open>interface/session_control.rs\<close> and
    \<^verbatim>\<open>src/components/indexes/garnet/src/session_state.rs\<close>. The locale \<open>transactional_backend\<close> is
    what a session promises. The write buffer of Garnet refines the server, a session reads what
    its commit will store, sessions nest, and the one case where a removal is lost. The server is
    the locale \<open>redis_service\<close>.

  \<^item> \<open>Middleware\<close>: \<^verbatim>\<open>middleware/mod.rs\<close>, the registry and the pipelines of a source.

  \<^item> \<open>Evaluation_Context\<close>, \<open>Continuous_Query\<close>: \<^verbatim>\<open>evaluation/context.rs\<close> and
    \<^verbatim>\<open>query/continuous_query.rs\<close>, the processing of a change and of a due future. A change that
    fails leaves nothing durable behind; the reported solution changes lead from the solutions
    before to those after; what each kind of change reports; how aggregation rows collapse.

  \<^item> \<open>Values\<close>: \<^verbatim>\<open>evaluation/variable_value/\<close>, integers, floats, equality, and the equality and hash
    of group keys, which decide the same groups.

  \<^item> \<open>Result_Index\<close>: \<^verbatim>\<open>in_memory_index/in_memory_result_index.rs\<close> and the lazy sorted sets of
    \<^verbatim>\<open>evaluation/functions/aggregation/lazy_sorted_set.rs\<close>; the locale \<open>sorted_set_store\<close>.

  \<^item> \<open>Aggregation\<close>: the functions count, sum, avg, min and max of
    \<^verbatim>\<open>evaluation/functions/aggregation/\<close> and their dispatch. After any history of values applied
    and reverted the aggregates are those of the values left.

  \<^item> \<open>Query_Parts\<close>: \<^verbatim>\<open>evaluation/parts/mod.rs\<close>, the evaluation of a part over each kind of row
    change. Without aggregation the parts report exactly the change of the row of the query view;
    a grouping part reports every changed group; and the one update that a second grouping part
    counts twice.

  \<^item> \<open>Future_Queue\<close>: \<^verbatim>\<open>in_memory_index/in_memory_future_queue.rs\<close> and
    \<^verbatim>\<open>index_cache/shadowed_future_queue.rs\<close>, refined to a set of items for every sequence of calls.

  \<^item> \<open>Output_State\<close>: \<^verbatim>\<open>src/lib/src/queries/output_state.rs\<close> and \<^verbatim>\<open>sequence_dedup.rs\<close>, the live
    results of a query, the bounded outbox of its emissions, and the filter of events that were
    processed. A reaction that asks for what it missed gets exactly that, or the gap is reported.

  \<^item> \<open>Output_Store\<close>: \<^verbatim>\<open>interface/outbox_writer.rs\<close>, \<^verbatim>\<open>live_results_writer.rs\<close>,
    \<^verbatim>\<open>checkpoint_store.rs\<close> and their in-memory implementations. The locale \<open>output_stores\<close> is what
    the stores promise over an abstract view of the stored output, \<open>transactional_stores\<close> adds the
    session; \<open>limit\<close> bounds the sequences a store keeps in order.

  \<^item> \<open>Durable_Output\<close>: the part of \<^verbatim>\<open>src/lib/src/queries/manager.rs\<close> that stages the output of an
    event in its session, dispatches it, and at startup checks the configuration, loads, wipes or
    hydrates the output and reads where to resume.

  \<^item> \<open>Recovery\<close>, \<open>Query_Run\<close>: what is stored is the replay of what was emitted (locale
    \<open>recoverable\<close>). \<open>query_run\<close> is a run with events, due futures, failures, crashes and restarts;
    its invariant gives that events are processed exactly once over all of them.

  \<^item> \<open>Garnet_Output\<close>, \<open>Garnet_Laws\<close>, \<open>Garnet_Recovery\<close>, \<open>Garnet_Query\<close>: the stores of
    \<^verbatim>\<open>src/components/indexes/garnet/src\<close> (\<^verbatim>\<open>outbox.rs\<close>, \<^verbatim>\<open>live_results.rs\<close>, \<^verbatim>\<open>checkpoint.rs\<close>). They
    satisfy the laws of \<open>transactional_stores\<close> up to sequence \<open>2\<^sup>53\<close>, where the scores of the sorted
    set stop being exact, so the results about runs hold for a query on Garnet.
  \<^bold>\<open>Not modelled.\<close> The parsers of \<^verbatim>\<open>src/query-cypher\<close> and \<^verbatim>\<open>src/query-gql\<close> are generated from
  grammars by a macro of another crate; the scalar functions and the expression evaluator beyond
  calls of aggregating functions rest on the calendar and floating point libraries and are
  arguments of the model. Floating point arithmetic itself is an argument. The index over RocksDB
  and the Garnet element and result indexes are thin layers over the storage libraries. The
  sources, reactions, bootstrappers, secret and identity providers of \<^verbatim>\<open>src/components\<close> are clients of
  external systems; the plugin loader is foreign-function glue; the rest of \<^verbatim>\<open>src/lib\<close> (the
  managers' task plumbing, the bootstrap streams, channels, configuration and the public interface)
  starts and connects asynchronous tasks. Formatting, logging, metrics and serialization are not modelled.
\<close>

end
